(* ===== verification/V8_Prelude.thy ===== *)
theory V8_Prelude
  imports Main "HOL-Library.Word" "HOL-Library.Monad_Syntax"
begin

text \<open>
  The vocabulary shared by the models of the C++ code.  Code that can fail is option-valued: \<open>None\<close> stands
  for an access outside the bounds of a buffer, for a division trap, or for a path the code marks unreachable.
  \<open>rd\<close> and \<open>wr\<close> are the checked array accesses; \<open>for_up\<close>, \<open>for_down\<close> and \<open>for_while\<close> are the counted loops
  of the sources; \<open>ok m Q\<close> states that \<open>m\<close> returns and that its result satisfies \<open>Q\<close>, so every statement
  made with it is a statement of total correctness and of memory safety.
\<close>

unbundle bit_operations_syntax

text \<open>The collection \<open>code_defs\<close> holds the constants and constructors of the sources that simply stand for their values.\<close>

named_theorems code_defs \<open>constants and constructors of the sources\<close>

section \<open>Checked memory\<close>

definition rd :: "'a list \<Rightarrow> nat \<Rightarrow> 'a option" where
  "rd xs i = (if i < length xs then Some (xs ! i) else None)"

definition wr :: "'a list \<Rightarrow> nat \<Rightarrow> 'a \<Rightarrow> 'a list option" where
  "wr xs i v = (if i < length xs then Some (xs[i := v]) else None)"

section \<open>Counted loops\<close>

function for_up :: "nat \<Rightarrow> nat \<Rightarrow> (nat \<Rightarrow> 's \<Rightarrow> 's option) \<Rightarrow> 's \<Rightarrow> 's option" where
  "for_up i n body s =
     (if i < n then (case body i s of None \<Rightarrow> None | Some s' \<Rightarrow> for_up (Suc i) n body s') else Some s)"
  by pat_completeness auto
termination
  by (relation "measure (\<lambda>(i, n, body, s). n - i)") auto

declare for_up.simps [simp del]

primrec for_down :: "nat \<Rightarrow> (nat \<Rightarrow> 's \<Rightarrow> 's option) \<Rightarrow> 's \<Rightarrow> 's option" where
  "for_down 0 body s = Some s"
| "for_down (Suc i) body s = (case body i s of None \<Rightarrow> None | Some s' \<Rightarrow> for_down i body s')"

function for_while :: "nat \<Rightarrow> nat \<Rightarrow> ('s \<Rightarrow> bool) \<Rightarrow> (nat \<Rightarrow> 's \<Rightarrow> 's option) \<Rightarrow> 's \<Rightarrow> (nat \<times> 's) option" where
  "for_while i n cond body s =
     (if i < n \<and> cond s
      then (case body i s of None \<Rightarrow> None | Some s' \<Rightarrow> for_while (Suc i) n cond body s')
      else Some (i, s))"
  by pat_completeness auto
termination
  by (relation "measure (\<lambda>(i, n, cond, body, s). n - i)") auto

declare for_while.simps [simp del]

section \<open>Total correctness of option-valued code\<close>

definition ok :: "'a option \<Rightarrow> ('a \<Rightarrow> bool) \<Rightarrow> bool" where
  "ok m Q \<longleftrightarrow> (\<exists>x. m = Some x \<and> Q x)"

lemma ok_Some [simp]: "ok (Some x) Q = Q x"
  by (simp add: ok_def)

lemma ok_None [simp]: "\<not> ok None Q"
  by (simp add: ok_def)

lemma ok_bind [simp]: "ok (m \<bind> f) Q = ok m (\<lambda>x. ok (f x) Q)"
  by (cases m) auto

lemma ok_rd [simp]: "ok (rd xs i) Q = (i < length xs \<and> Q (xs ! i))"
  by (simp add: rd_def)

lemma ok_wr [simp]: "ok (wr xs i v) Q = (i < length xs \<and> Q (xs[i := v]))"
  by (simp add: wr_def)

lemma ok_if [simp]: "ok (if b then x else y) Q = (if b then ok x Q else ok y Q)"
  by simp

lemma ok_case_prod [simp]: "ok (case p of (a, b) \<Rightarrow> f a b) Q = (case p of (a, b) \<Rightarrow> ok (f a b) Q)"
  by (simp add: case_prod_unfold)

lemma ok_Let [simp]: "ok (let x = a in f x) Q = (let x = a in ok (f x) Q)"
  by simp

lemma ok_conseq: "ok m P \<Longrightarrow> (\<And>x. P x \<Longrightarrow> Q x) \<Longrightarrow> ok m Q"
  by (auto simp: ok_def)

lemma okE: "ok m Q \<Longrightarrow> \<exists>x. m = Some x \<and> Q x"
  by (simp add: ok_def)

lemma ok_for_up:
  assumes "i \<le> n" and "I i s"
    and "\<And>k s. i \<le> k \<Longrightarrow> k < n \<Longrightarrow> I k s \<Longrightarrow> ok (body k s) (I (Suc k))"
    and "\<And>s. I n s \<Longrightarrow> Q s"
  shows "ok (for_up i n body s) Q"
  using assms
proof (induction i n body s rule: for_up.induct)
  case (1 i n body s)
  show ?case
  proof (cases "i < n")
    case True
    with "1.prems" have "ok (body i s) (I (Suc i))" by simp
    then obtain s' where s': "body i s = Some s'" "I (Suc i) s'"
      by (auto simp: ok_def)
    have "ok (for_up (Suc i) n body s') Q"
      by (rule "1.IH" [OF True s'(1)]) (use True s' "1.prems" in auto)
    with True s' show ?thesis by (simp add: for_up.simps [of i n body s])
  next
    case False
    with "1.prems" have "i = n" by simp
    with "1.prems" show ?thesis by (simp add: for_up.simps [of n n body s])
  qed
qed

lemma ok_for_down:
  assumes "I n s"
    and "\<And>k s. k < n \<Longrightarrow> I (Suc k) s \<Longrightarrow> ok (body k s) (I k)"
    and "\<And>s. I 0 s \<Longrightarrow> Q s"
  shows "ok (for_down n body s) Q"
  using assms
proof (induction n arbitrary: s)
  case 0
  then show ?case by simp
next
  case (Suc n)
  from Suc.prems have "ok (body n s) (I n)" by simp
  then obtain s' where s': "body n s = Some s'" "I n s'"
    by (auto simp: ok_def)
  have "ok (for_down n body s') Q"
    by (rule Suc.IH) (use s' Suc.prems in auto)
  with s' show ?case by simp
qed

lemma ok_for_while:
  assumes "i \<le> n" and "I i s"
    and "\<And>k s. i \<le> k \<Longrightarrow> k < n \<Longrightarrow> cond s \<Longrightarrow> I k s \<Longrightarrow> ok (body k s) (I (Suc k))"
    and "\<And>k s. i \<le> k \<Longrightarrow> k \<le> n \<Longrightarrow> k = n \<or> \<not> cond s \<Longrightarrow> I k s \<Longrightarrow> Q (k, s)"
  shows "ok (for_while i n cond body s) Q"
  using assms
proof (induction i n cond body s rule: for_while.induct)
  case (1 i n cond body s)
  show ?case
  proof (cases "i < n \<and> cond s")
    case True
    with "1.prems" have "ok (body i s) (I (Suc i))" by simp
    then obtain s' where s': "body i s = Some s'" "I (Suc i) s'"
      by (auto simp: ok_def)
    have "ok (for_while (Suc i) n cond body s') Q"
      by (rule "1.IH" [OF True s'(1)]) (use True s' "1.prems" in auto)
    with True s' show ?thesis by (simp add: for_while.simps [of i n cond body s])
  next
    case False
    with "1.prems" have "Q (i, s)" by auto
    with False show ?thesis by (auto simp: for_while.simps [of i n cond body s])
  qed
qed

section \<open>Lists as arrays\<close>

lemma take_Suc_update [simp]:
  "k < length xs \<Longrightarrow> take (Suc k) (xs[k := v]) = take k xs @ [v]"
  by (simp add: take_Suc_conv_app_nth)

lemma drop_Suc_update [simp]: "drop (Suc k) (xs[k := v]) = drop (Suc k) xs"
  by (simp add: drop_update_cancel)

lemma nth_drop_eq: "drop k xs = drop k ys \<Longrightarrow> k < length ys \<Longrightarrow> xs ! k = ys ! k"
  by (metis hd_drop_conv_nth drop_eq_Nil leD linorder_not_less)

lemma drop_SucI: "drop k xs = drop k ys \<Longrightarrow> drop (Suc k) xs = drop (Suc k) ys"
  by (metis drop_drop plus_1_eq_Suc)

end
