(* ===== verification/Bigint_Digit.thy ===== *)
theory Bigint_Digit
  imports V8_Prelude
begin

text \<open>
  \<open>bigint/digit-arithmetic.h\<close>: the operations on single digits.  A digit is a 64-bit word (the configuration of
  a 64-bit platform with a 128-bit \<open>twodigit_t\<close>).  Each helper exists twice in the header, once over
  \<open>twodigit_t\<close> and once in portable form for compilers without it; both are modelled, both are given
  their arithmetic meaning, and the two are proved equal.
\<close>

type_synonym digit_t = "64 word"
type_synonym twodigit_t = "128 word"

abbreviation kDigitBits :: nat where "kDigitBits \<equiv> 64"

definition digit_base :: nat where
  "digit_base = 2 ^ kDigitBits"

definition CountLeadingZeros :: "'a::len word \<Rightarrow> nat" where
  "CountLeadingZeros x = length (takeWhile (\<lambda>i. \<not> bit x i) (rev [0..<LENGTH('a)]))"

definition digit_ismax :: "digit_t \<Rightarrow> bool" where
  "digit_ismax x \<longleftrightarrow> NOT x = 0"

definition digit_add2 :: "digit_t \<Rightarrow> digit_t \<Rightarrow> digit_t \<times> digit_t" where
  "digit_add2 a b =
     (let result = (ucast a :: twodigit_t) + ucast b;
          carry = ucast (drop_bit kDigitBits result)
      in (ucast result, carry))"

definition digit_add3 :: "digit_t \<Rightarrow> digit_t \<Rightarrow> digit_t \<Rightarrow> digit_t \<times> digit_t" where
  "digit_add3 a b c =
     (let result = (ucast a :: twodigit_t) + ucast b + ucast c;
          carry = ucast (drop_bit kDigitBits result)
      in (ucast result, carry))"

definition digit_sub :: "digit_t \<Rightarrow> digit_t \<Rightarrow> digit_t \<times> digit_t" where
  "digit_sub a b =
     (let result = (ucast a :: twodigit_t) - ucast b;
          borrow = ucast (drop_bit kDigitBits result AND 1)
      in (ucast result, borrow))"

definition digit_sub2 :: "digit_t \<Rightarrow> digit_t \<Rightarrow> digit_t \<Rightarrow> digit_t \<times> digit_t" where
  "digit_sub2 a b borrow_in =
     (let subtrahend = (ucast b :: twodigit_t) + ucast borrow_in;
          result = ucast a - subtrahend;
          borrow_out = ucast (drop_bit kDigitBits result AND 1)
      in (ucast result, borrow_out))"

definition digit_mul :: "digit_t \<Rightarrow> digit_t \<Rightarrow> digit_t \<times> digit_t" where
  "digit_mul a b =
     (let result = (ucast a :: twodigit_t) * ucast b;
          high = ucast (drop_bit kDigitBits result)
      in (ucast result, high))"

lemma digit_base_gt_1 [simp]: "Suc 0 < digit_base" "0 < digit_base" "1 < digit_base"
  by (simp_all add: digit_base_def)

lemma digit_base_neq_0 [simp]: "digit_base \<noteq> 0"
  by (simp add: digit_base_def)

lemma digit_base_sq: "digit_base * digit_base = 2 ^ 128"
  by (simp add: digit_base_def)

lemma unat_lt_base: "unat (x :: digit_t) < digit_base"
  using unsigned_less [of x] by (simp add: digit_base_def)

lemma unat_lt_base_sq: "unat (x :: twodigit_t) < digit_base * digit_base"
  using unsigned_less [of x] by (simp add: digit_base_def)

lemma unat_ucast_twodigit [simp]: "unat (ucast (x :: digit_t) :: twodigit_t) = unat x"
proof -
  have "unat x < 2 ^ 128"
    using unat_lt_base [of x] by (simp add: digit_base_def)
  then show ?thesis
    by (simp add: unsigned_ucast_eq take_bit_nat_eq_self)
qed

lemma unat_ucast_low: "unat (ucast (r :: twodigit_t) :: digit_t) = unat r mod digit_base"
  by (simp add: unsigned_ucast_eq take_bit_eq_mod digit_base_def)

lemma unat_drop_high: "unat (drop_bit kDigitBits (r :: twodigit_t)) = unat r div digit_base"
  unfolding unat_drop_bit_eq digit_base_def by (rule drop_bit_eq_div)

lemma div_base_lt: "unat (r :: twodigit_t) div digit_base < digit_base"
  by (rule less_mult_imp_div_less) (rule unat_lt_base_sq)

lemma unat_ucast_high: "unat (ucast (drop_bit kDigitBits (r :: twodigit_t)) :: digit_t) = unat r div digit_base"
  by (simp only: unat_ucast_low unat_drop_high mod_less div_base_lt)

lemma split_twodigit:
  "unat (ucast (r :: twodigit_t) :: digit_t) + digit_base * unat (ucast (drop_bit kDigitBits r) :: digit_t) = unat r"
  by (simp only: unat_ucast_high) (simp only: unat_ucast_low mod_mult_div_eq)

lemma digit_add2_eq:
  assumes "digit_add2 a b = (r, k)"
  shows "unat r + digit_base * unat k = unat a + unat b"
proof -
  let ?s = "(ucast a :: twodigit_t) + ucast b"
  have "unat a + unat b < 2 ^ 128"
    using unat_lt_base [of a] unat_lt_base [of b] unfolding digit_base_def by simp
  then have "unat ?s = unat a + unat b"
    by (simp add: unat_word_ariths)
  with split_twodigit [of ?s] assms show ?thesis
    by (auto simp: digit_add2_def Let_def)
qed

lemma digit_add3_eq:
  assumes "digit_add3 a b c = (r, k)"
  shows "unat r + digit_base * unat k = unat a + unat b + unat c"
proof -
  let ?s = "(ucast a :: twodigit_t) + ucast b + ucast c"
  have "unat a + unat b + unat c < 2 ^ 128"
    using unat_lt_base [of a] unat_lt_base [of b] unat_lt_base [of c] unfolding digit_base_def by simp
  then have "unat ?s = unat a + unat b + unat c"
    by (simp add: unat_word_ariths mod_add_left_eq)
  with split_twodigit [of ?s] assms show ?thesis
    by (auto simp: digit_add3_def Let_def)
qed

lemma digit_mul_eq:
  assumes "digit_mul a b = (r, h)"
  shows "unat r + digit_base * unat h = unat a * unat b"
proof -
  let ?s = "(ucast a :: twodigit_t) * ucast b"
  have "unat a * unat b < digit_base * digit_base"
    by (intro mult_strict_mono') (simp_all add: unat_lt_base)
  then have "unat ?s = unat a * unat b"
    by (simp add: unat_word_ariths digit_base_sq)
  with split_twodigit [of ?s] assms show ?thesis
    by (auto simp: digit_mul_def Let_def)
qed

lemma sub_twodigit:
  fixes a :: digit_t and s :: twodigit_t
  assumes s: "unat s \<le> digit_base" and r_def: "r = ucast a - s"
  shows "unat (ucast r :: digit_t) + unat s =
           unat a + digit_base * unat (ucast (drop_bit kDigitBits r AND 1) :: digit_t)"
    and "unat (ucast (drop_bit kDigitBits r AND 1) :: digit_t) = of_bool (unat a < unat s)"
proof -
  have r: "unat r = (if unat s \<le> unat a then unat a - unat s else unat a + digit_base * digit_base - unat s)"
    using unat_sub_if' [of "ucast a :: twodigit_t" s] by (simp add: r_def digit_base_sq)
  have k: "unat (ucast (drop_bit kDigitBits r AND 1) :: digit_t) = (unat r div digit_base) mod 2"
    by (simp add: unat_ucast_low and_one_eq unat_mod_distrib unat_drop_high digit_base_def)
  have odd: "(digit_base - 1) mod 2 = 1"
    by (simp add: digit_base_def)
  show *: "unat (ucast (drop_bit kDigitBits r AND 1) :: digit_t) = of_bool (unat a < unat s)"
  proof (cases "unat s \<le> unat a")
    case True
    then show ?thesis by (simp add: k r div_less less_imp_diff_less unat_lt_base)
  next
    case False
    have "unat r = (digit_base - 1) * digit_base + (digit_base + unat a - unat s)"
      using False s mult_le_mono1 [of 1 digit_base digit_base] by (simp add: r diff_mult_distrib)
    moreover have "digit_base + unat a - unat s < digit_base"
      using False s by linarith
    ultimately have "unat r div digit_base = digit_base - 1"
      by (metis add.commute div_less div_mult_self3 digit_base_gt_1(2) add_0 mult.commute not_less_zero)
    with False odd show ?thesis by (simp add: k)
  qed
  show "unat (ucast r :: digit_t) + unat s =
           unat a + digit_base * unat (ucast (drop_bit kDigitBits r AND 1) :: digit_t)"
  proof (cases "unat s \<le> unat a")
    case True
    then show ?thesis unfolding * by (simp add: unat_ucast_low r less_imp_diff_less unat_lt_base)
  next
    case False
    have "unat r = (digit_base - 1) * digit_base + (digit_base + unat a - unat s)"
      using False s mult_le_mono1 [of 1 digit_base digit_base] by (simp add: r diff_mult_distrib)
    moreover have "digit_base + unat a - unat s < digit_base"
      using False s by linarith
    ultimately have "unat r mod digit_base = digit_base + unat a - unat s"
      by simp
    with False s show ?thesis unfolding * by (simp add: unat_ucast_low)
  qed
qed

lemma digit_sub_eq:
  assumes "digit_sub a b = (r, k)"
  shows "unat r + unat b = unat a + digit_base * unat k" and "unat k = of_bool (unat a < unat b)"
  using assms sub_twodigit [of "ucast b" _ a] less_imp_le [OF unat_lt_base [of b]]
  by (auto simp: digit_sub_def Let_def)

lemma digit_sub2_eq:
  assumes "digit_sub2 a b c = (r, k)" and "unat c \<le> 1"
  shows "unat r + unat b + unat c = unat a + digit_base * unat k"
    and "unat k = of_bool (unat a < unat b + unat c)"
proof -
  let ?s = "(ucast b :: twodigit_t) + ucast c"
  have "unat b + unat c < 2 ^ 128"
    using unat_lt_base [of b] assms(2) unfolding digit_base_def by simp
  then have s: "unat ?s = unat b + unat c"
    by (simp add: unat_word_ariths)
  then have "unat ?s \<le> digit_base"
    using unat_lt_base [of b] assms(2) by linarith
  from sub_twodigit [OF this refl, of a] assms(1)
  show "unat r + unat b + unat c = unat a + digit_base * unat k"
    and "unat k = of_bool (unat a < unat b + unat c)"
    by (auto simp: digit_sub2_def Let_def s)
qed

definition digit_add2_portable :: "digit_t \<Rightarrow> digit_t \<Rightarrow> digit_t \<times> digit_t" where
  "digit_add2_portable a b =
     (let result = a + b
      in (result, if result < a then 1 else 0))"

definition digit_add3_portable :: "digit_t \<Rightarrow> digit_t \<Rightarrow> digit_t \<Rightarrow> digit_t \<times> digit_t" where
  "digit_add3_portable a b c =
     (let result = a + b;
          carry = (if result < a then 1 else 0);
          result = result + c;
          carry = (if result < c then carry + 1 else carry)
      in (result, carry))"

definition digit_sub_portable :: "digit_t \<Rightarrow> digit_t \<Rightarrow> digit_t \<times> digit_t" where
  "digit_sub_portable a b =
     (let result = a - b
      in (result, if result > a then 1 else 0))"

definition digit_sub2_portable :: "digit_t \<Rightarrow> digit_t \<Rightarrow> digit_t \<Rightarrow> digit_t \<times> digit_t" where
  "digit_sub2_portable a b borrow_in =
     (let result = a - b;
          borrow_out = (if result > a then 1 else 0);
          borrow_out = (if result < borrow_in then borrow_out + 1 else borrow_out);
          result = result - borrow_in
      in (result, borrow_out))"

abbreviation kHalfDigitBits :: nat where "kHalfDigitBits \<equiv> 32"

definition kHalfDigitBase :: digit_t where
  "kHalfDigitBase = push_bit kHalfDigitBits 1"

definition kHalfDigitMask :: digit_t where
  "kHalfDigitMask = kHalfDigitBase - 1"

definition digit_mul_portable :: "digit_t \<Rightarrow> digit_t \<Rightarrow> digit_t \<times> digit_t" where
  "digit_mul_portable a b =
     (let a_low = a AND kHalfDigitMask;
          a_high = drop_bit kHalfDigitBits a;
          b_low = b AND kHalfDigitMask;
          b_high = drop_bit kHalfDigitBits b;
          r_low = a_low * b_low;
          r_mid1 = a_low * b_high;
          r_mid2 = a_high * b_low;
          r_high = a_high * b_high;
          (low, carry) = digit_add3_portable r_low (push_bit kHalfDigitBits r_mid1)
                           (push_bit kHalfDigitBits r_mid2);
          high = drop_bit kHalfDigitBits r_mid1 + drop_bit kHalfDigitBits r_mid2 + r_high + carry
      in (low, high))"

lemma digit_pair_eqI:
  fixes r r' k k' :: digit_t
  assumes "unat r + digit_base * unat k = unat r' + digit_base * unat k'"
  shows "(r, k) = (r', k')"
proof -
  from assms have "(unat r + digit_base * unat k) mod digit_base = (unat r' + digit_base * unat k') mod digit_base"
    by simp
  then have "unat r = unat r'" by (simp add: unat_lt_base)
  moreover from this assms have "unat k = unat k'" by (simp add: digit_base_def)
  ultimately show ?thesis by (simp add: word_unat_eq_iff)
qed

lemma unat_digit_add: "unat (a + b :: digit_t) = (if unat a + unat b < digit_base then unat a + unat b else unat a + unat b - digit_base)"
proof (cases "unat a + unat b < digit_base")
  case False
  have "unat a + unat b - digit_base < digit_base"
    using unat_lt_base [of a] unat_lt_base [of b] by linarith
  with False show ?thesis
    by (simp add: unat_word_ariths le_mod_geq digit_base_def)
qed (simp add: unat_word_ariths digit_base_def)

lemma unat_digit_sub: "unat (a - b :: digit_t) = (if unat b \<le> unat a then unat a - unat b else unat a + digit_base - unat b)"
  using unat_sub_if' [of a b] by (simp add: digit_base_def)

lemma digit_add2_portable_eq: "digit_add2_portable a b = digit_add2 a b"
proof -
  obtain r k where rk: "digit_add2 a b = (r, k)" by fastforce
  obtain r' k' where rk': "digit_add2_portable a b = (r', k')" by fastforce
  have "unat r' + digit_base * unat k' = unat a + unat b"
    using rk' unat_lt_base [of b]
    by (auto simp: digit_add2_portable_def Let_def word_less_nat_alt unat_digit_add split: if_splits)
  with digit_add2_eq [OF rk] show ?thesis
    unfolding rk rk' by (intro digit_pair_eqI) simp
qed

lemma digit_add3_portable_eq: "digit_add3_portable a b c = digit_add3 a b c"
proof -
  obtain r k where rk: "digit_add3 a b c = (r, k)" by fastforce
  obtain r' k' where rk': "digit_add3_portable a b c = (r', k')" by fastforce
  have "unat r' + digit_base * unat k' = unat a + unat b + unat c"
    using rk' unat_lt_base [of a] unat_lt_base [of b] unat_lt_base [of c]
    by (auto simp: digit_add3_portable_def Let_def word_less_nat_alt unat_digit_add split: if_splits)
  with digit_add3_eq [OF rk] show ?thesis
    unfolding rk rk' by (intro digit_pair_eqI) simp
qed

lemma digit_sub_portable_eq: "digit_sub_portable a b = digit_sub a b"
proof -
  obtain r k where rk: "digit_sub a b = (r, k)" by fastforce
  obtain r' k' where rk': "digit_sub_portable a b = (r', k')" by fastforce
  have "unat r' + unat b = unat a + digit_base * unat k' \<and> unat k' = of_bool (unat a < unat b)"
    using rk' unat_lt_base [of a] unat_lt_base [of b]
    by (auto simp: digit_sub_portable_def Let_def word_less_nat_alt unat_digit_sub split: if_splits)
  with digit_sub_eq [OF rk] have "unat k' = unat k" "unat r' = unat r" by auto
  then show ?thesis by (simp add: rk rk' word_unat_eq_iff)
qed

lemma digit_sub2_portable_eq:
  assumes "unat c \<le> 1"
  shows "digit_sub2_portable a b c = digit_sub2 a b c"
proof -
  obtain r k where rk: "digit_sub2 a b c = (r, k)" by fastforce
  obtain r' k' where rk': "digit_sub2_portable a b c = (r', k')" by fastforce
  have "unat r' + unat b + unat c = unat a + digit_base * unat k' \<and>
      unat k' = of_bool (unat a < unat b + unat c)"
    using rk' unat_lt_base [of a] unat_lt_base [of b] assms
    by (auto simp: digit_sub2_portable_def Let_def word_less_nat_alt unat_digit_sub split: if_splits)
  with digit_sub2_eq [OF rk assms] have "unat k' = unat k" "unat r' = unat r" by auto
  then show ?thesis by (simp add: rk rk' word_unat_eq_iff)
qed

lemma unat_low_half: "unat (a AND kHalfDigitMask) = unat a mod 2 ^ 32"
proof -
  have "a AND kHalfDigitMask = take_bit 32 a"
    by (simp add: kHalfDigitMask_def kHalfDigitBase_def take_bit_eq_mask mask_eq_exp_minus_1)
  then have "unat (a AND kHalfDigitMask) = take_bit 32 (unat a)"
    by (simp only: unsigned_take_bit_eq)
  then show ?thesis by (simp only: take_bit_eq_mod)
qed

lemma unat_high_half: "unat (drop_bit 32 (a :: digit_t)) = unat a div 2 ^ 32"
  unfolding unat_drop_bit_eq by (rule drop_bit_eq_div)

lemma unat_push_digit: "unat (push_bit n (a :: digit_t)) = (unat a * 2 ^ n) mod digit_base"
  by (subst unsigned_push_bit_eq) (simp add: push_bit_eq_mult take_bit_eq_mod digit_base_def)

lemma unat_push_half: "unat (push_bit 32 (a :: digit_t)) = (unat a mod 2 ^ 32) * 2 ^ 32"
proof -
  have "digit_base = 2 ^ 32 * 2 ^ 32" by (simp add: digit_base_def)
  then show ?thesis
    unfolding unat_push_digit by (simp only: mult_mod_left)
qed

lemma unat_digit_mult: "unat a * unat b < digit_base \<Longrightarrow> unat (a * b :: digit_t) = unat a * unat b"
  by (simp add: unat_word_ariths digit_base_def)

lemma unat_digit_plus: "unat a + unat b < digit_base \<Longrightarrow> unat (a + b :: digit_t) = unat a + unat b"
  by (simp add: unat_word_ariths digit_base_def)

lemma half_digit_lt: "unat (a :: digit_t) mod 2 ^ 32 < 2 ^ 32" "unat a div 2 ^ 32 < 2 ^ 32"
  using unat_lt_base [of a] by (auto simp: digit_base_def less_mult_imp_div_less)

lemma half_prod_lt: "x < 2 ^ 32 \<Longrightarrow> y < 2 ^ 32 \<Longrightarrow> x * y < digit_base" for x y :: nat
  using mult_strict_mono' [of x "2 ^ 32" y "2 ^ 32"] by (simp add: digit_base_def)

lemma half_mul_carry:
  fixes al ah bl bh :: nat
  assumes low: "low + H * H * carry = al * bl + (al * bh mod H) * H + (ah * bl mod H) * H"
  shows "low + H * H * (al * bh div H + ah * bl div H + ah * bh + carry) = (ah * H + al) * (bh * H + bl)"
proof -
  define d1 m1 d2 m2 where dm: "d1 = al * bh div H" "m1 = al * bh mod H" "d2 = ah * bl div H" "m2 = ah * bl mod H"
  have m: "al * bh = d1 * H + m1" "ah * bl = d2 * H + m2"
    unfolding dm by (simp_all only: div_mult_mod_eq)
  have "(ah * H + al) * (bh * H + bl) = al * bl + (al * bh) * H + (ah * bl) * H + H * H * (ah * bh)"
    by (simp add: algebra_simps)
  then show ?thesis
    using low unfolding dm [symmetric] unfolding m by (simp add: algebra_simps)
qed

lemma digit_mul_portable_eq: "digit_mul_portable a b = digit_mul a b"
proof -
  define al ah bl bh where defs: "al = unat a mod 2 ^ 32" "ah = unat a div 2 ^ 32"
    "bl = unat b mod 2 ^ 32" "bh = unat b div 2 ^ 32"
  have lt: "al < 2 ^ 32" "ah < 2 ^ 32" "bl < 2 ^ 32" "bh < 2 ^ 32"
    using half_digit_lt [of a] half_digit_lt [of b] by (simp_all add: defs)
  have ab: "ah * 2 ^ 32 + al = unat a" "bh * 2 ^ 32 + bl = unat b"
    unfolding defs by (rule div_mult_mod_eq)+
  define r_low r_mid1 r_mid2 r_high where rs:
    "r_low = (a AND kHalfDigitMask) * (b AND kHalfDigitMask)"
    "r_mid1 = (a AND kHalfDigitMask) * drop_bit 32 b"
    "r_mid2 = drop_bit 32 a * (b AND kHalfDigitMask)"
    "r_high = drop_bit 32 a * drop_bit 32 b"
  have u: "unat r_low = al * bl" "unat r_mid1 = al * bh" "unat r_mid2 = ah * bl" "unat r_high = ah * bh"
    unfolding rs defs using half_digit_lt [of a] half_digit_lt [of b]
    by (simp_all only: unat_digit_mult unat_low_half unat_high_half half_prod_lt)
  obtain low carry where lc:
    "digit_add3_portable r_low (push_bit 32 r_mid1) (push_bit 32 r_mid2) = (low, carry)" by fastforce
  have B: "digit_base = 2 ^ 32 * 2 ^ 32" by (simp add: digit_base_def)
  have "unat low + digit_base * unat carry = al * bl + (al * bh mod 2 ^ 32) * 2 ^ 32 + (ah * bl mod 2 ^ 32) * 2 ^ 32"
    using digit_add3_eq [OF lc [unfolded digit_add3_portable_eq]] by (simp only: unat_push_half u)
  then have eq: "unat low + digit_base * (al * bh div 2 ^ 32 + ah * bl div 2 ^ 32 + ah * bh + unat carry) =
      unat a * unat b"
    unfolding B ab [symmetric] by (rule half_mul_carry)
  define hi where "hi = al * bh div 2 ^ 32 + ah * bl div 2 ^ 32 + ah * bh + unat carry"
  from eq have "unat low + digit_base * hi = unat a * unat b"
    by (simp only: hi_def)
  then have "digit_base * hi < digit_base * digit_base"
    using mult_strict_mono' [OF unat_lt_base [of a] unat_lt_base [of b]] by linarith
  then have hi: "hi < digit_base" by simp
  have "unat (drop_bit 32 r_mid1 + drop_bit 32 r_mid2 + r_high + carry) = hi"
    using hi unfolding hi_def
    by (simp add: unat_digit_plus unat_high_half [simplified] u)
  then have "unat low + digit_base * unat (drop_bit 32 r_mid1 + drop_bit 32 r_mid2 + r_high + carry) = unat a * unat b"
    using eq by (simp add: hi_def)
  moreover obtain r h where rh: "digit_mul a b = (r, h)" by fastforce
  moreover have "digit_mul_portable a b = (low, drop_bit 32 r_mid1 + drop_bit 32 r_mid2 + r_high + carry)"
    using lc by (simp add: digit_mul_portable_def rs Let_def)
  ultimately show ?thesis
    using digit_mul_eq [OF rh] digit_pair_eqI by metis
qed

end
