(* ===== verification/Bigint_Div_Digit.thy ===== *)
theory Bigint_Div_Digit
  imports Bigint_Digit
begin

text \<open>
  The two-by-one digit division of \<open>bigint/digit-arithmetic.h\<close>: the hardware instruction, which traps when
  the quotient does not fit, and the portable loop over half digits.  The portable routine is proved to
  compute what the instruction computes on every input for which the instruction does not trap.
\<close>

lemma clz_le: "CountLeadingZeros (x :: 'a::len word) \<le> LENGTH('a)"
  unfolding CountLeadingZeros_def by (rule order_trans [OF length_takeWhile_le]) simp

lemma clz_not_bit:
  assumes "i < CountLeadingZeros (x :: 'a::len word)"
  shows "\<not> bit x (LENGTH('a) - 1 - i)"
proof -
  let ?xs = "takeWhile (\<lambda>i. \<not> bit x i) (rev [0..<LENGTH('a)])"
  have i: "i < length ?xs" using assms by (simp add: CountLeadingZeros_def)
  then have "i < LENGTH('a)" using clz_le [of x] assms by simp
  from i have "?xs ! i \<in> set ?xs" by (rule nth_mem)
  then have "\<not> bit x (?xs ! i)" by (auto dest: set_takeWhileD)
  moreover have "?xs ! i = LENGTH('a) - 1 - i"
    using i \<open>i < LENGTH('a)\<close> by (simp add: takeWhile_nth rev_nth)
  ultimately show ?thesis by simp
qed

lemma clz_bit:
  assumes "CountLeadingZeros (x :: 'a::len word) < LENGTH('a)"
  shows "bit x (LENGTH('a) - 1 - CountLeadingZeros x)"
proof -
  have "bit x (rev [0..<LENGTH('a)] ! CountLeadingZeros x)"
    using nth_length_takeWhile [of "\<lambda>i. \<not> bit x i" "rev [0..<LENGTH('a)]"] assms
    by (simp add: CountLeadingZeros_def)
  then show ?thesis using assms by (simp add: rev_nth)
qed

lemma clz_upper: "unat (x :: 'a::len word) < 2 ^ (LENGTH('a) - CountLeadingZeros x)"
proof -
  let ?k = "LENGTH('a) - CountLeadingZeros x"
  have "take_bit ?k x = x"
  proof (rule bit_word_eqI)
    fix n assume n: "n < LENGTH('a)"
    show "bit (take_bit ?k x) n = bit x n"
    proof (cases "n < ?k")
      case False
      then have "LENGTH('a) - 1 - n < CountLeadingZeros x" using n by simp
      from clz_not_bit [OF this] n False show ?thesis by (simp add: bit_take_bit_iff)
    qed (simp add: bit_take_bit_iff)
  qed
  then have "unat x = take_bit ?k (unat x)"
    by (metis unsigned_take_bit_eq)
  then show ?thesis by (metis take_bit_nat_less_exp)
qed

lemma clz_lt: "x \<noteq> 0 \<Longrightarrow> CountLeadingZeros (x :: 'a::len word) < LENGTH('a)"
  using clz_upper [of x] clz_le [of x]
  by (metis diff_self_eq_0 le_neq_implies_less less_one power_0 unsigned_eq_0_iff)

lemma clz_lower:
  assumes "x \<noteq> 0"
  shows "2 ^ (LENGTH('a) - 1 - CountLeadingZeros x) \<le> unat (x :: 'a::len word)"
proof -
  from clz_bit [OF clz_lt [OF assms]]
  have "bit (unat x) (LENGTH('a) - 1 - CountLeadingZeros x)"
    by (simp add: bit_unsigned_iff)
  then show ?thesis
    by (metis bit_take_bit_iff leI nat_less_le take_bit_nat_eq_self bit_iff_odd div_less odd_pos less_irrefl_nat)
qed

definition digit_div :: "digit_t \<Rightarrow> digit_t \<Rightarrow> digit_t \<Rightarrow> (digit_t \<times> digit_t) option" where
  "digit_div high low divisor =
     (let dividend = unat high * digit_base + unat low
      in if divisor = 0 \<or> dividend div unat divisor \<ge> digit_base then None
         else Some (of_nat (dividend div unat divisor), of_nat (dividend mod unat divisor)))"

function digit_div_adjust :: "digit_t \<Rightarrow> digit_t \<Rightarrow> digit_t \<Rightarrow> digit_t \<Rightarrow> digit_t \<Rightarrow> digit_t" where
  "digit_div_adjust vn1 vn0 un q rhat =
     (if q \<ge> kHalfDigitBase \<or> q * vn0 > rhat * kHalfDigitBase + un then
        (let q = q - 1; rhat = rhat + vn1
         in if rhat \<ge> kHalfDigitBase then q
            else digit_div_adjust vn1 vn0 un q rhat)
      else q)"
  by pat_completeness auto
termination
proof (relation "measure (\<lambda>(vn1, vn0, un, q, rhat). unat q)"; clarsimp)
  fix vn0 un q rhat :: digit_t
  assume "kHalfDigitBase \<le> q \<or> rhat * kHalfDigitBase + un < q * vn0"
  then have "q \<noteq> 0" by (auto simp: kHalfDigitBase_def)
  then show "unat (q - 1) < unat q"
    by (simp add: unat_minus_one unat_gt_0)
qed

declare digit_div_adjust.simps [simp del]

definition digit_div_portable :: "digit_t \<Rightarrow> digit_t \<Rightarrow> digit_t \<Rightarrow> digit_t \<times> digit_t" where
  "digit_div_portable high low divisor =
     (let s = CountLeadingZeros divisor;
          divisor = push_bit s divisor;
          vn1 = drop_bit kHalfDigitBits divisor;
          vn0 = divisor AND kHalfDigitMask;
          kShiftMask = kDigitBits - 1;
          s_zero_mask = signed_drop_bit (kDigitBits - 1) (- of_nat s :: digit_t);
          un32 = push_bit s high OR (drop_bit ((kDigitBits - s) AND kShiftMask) low AND s_zero_mask);
          un10 = push_bit s low;
          un1 = drop_bit kHalfDigitBits un10;
          un0 = un10 AND kHalfDigitMask;
          q1 = un32 div vn1;
          rhat = un32 - q1 * vn1;
          q1 = digit_div_adjust vn1 vn0 un1 q1 rhat;
          un21 = un32 * kHalfDigitBase + un1 - q1 * divisor;
          q0 = un21 div vn1;
          rhat = un21 - q0 * vn1;
          q0 = digit_div_adjust vn1 vn0 un0 q0 rhat;
          remainder = drop_bit s (un21 * kHalfDigitBase + un0 - q0 * divisor)
      in (q1 * kHalfDigitBase + q0, remainder))"

lemma quotient_estimate_iff:
  fixes q v1 v0 r u x h :: nat
  assumes "q * v1 + r = u"
  shows "q * (v1 * h + v0) \<le> u * h + x \<longleftrightarrow> q * v0 \<le> r * h + x"
proof -
  have "u * h = q * v1 * h + r * h"
    using assms by (metis add_mult_distrib)
  then show ?thesis by (simp add: algebra_simps)
qed

lemma quotient_estimate_stop:
  fixes q v1 v0 r u x h :: nat
  assumes "q * v1 + r = u" and "u < v1 * h + v0" and "v0 < h" and "h \<le> r"
  shows "q * (v1 * h + v0) \<le> u * h + x"
proof -
  have "q * v1 < v1 * h" using assms by linarith
  then have "q < h" by (simp add: mult.commute)
  then have "q * v0 \<le> h * h" using assms(3) by (intro mult_le_mono) auto
  also have "\<dots> \<le> r * h + x" using assms(4) by (simp add: trans_le_add1)
  finally show ?thesis using quotient_estimate_iff [OF assms(1)] by simp
qed

lemma unat_kHalfDigitBase [simp]: "unat kHalfDigitBase = 2 ^ 32"
  by (simp add: kHalfDigitBase_def)

lemma unat_shift_in_half:
  fixes r x :: digit_t
  assumes "unat r < 2 ^ 32" and "unat x < 2 ^ 32"
  shows "unat (r * kHalfDigitBase + x) = unat r * 2 ^ 32 + unat x"
proof -
  have "unat r * 2 ^ 32 + unat x < digit_base"
    using assms by (simp add: digit_base_def)
  then show ?thesis
    by (simp add: unat_digit_mult unat_digit_plus)
qed

lemma digit_div_adjust_eq:
  fixes vn1 vn0 un q rhat :: digit_t and u v :: nat
  assumes "unat q * unat vn1 + unat rhat = u" and "v = unat vn1 * 2 ^ 32 + unat vn0"
    and "u < v" and "unat vn1 < 2 ^ 32" and "unat vn0 < 2 ^ 32" and "unat un < 2 ^ 32"
    and "unat rhat < 2 ^ 32" and "(u * 2 ^ 32 + unat un) div v \<le> unat q"
  shows "unat (digit_div_adjust vn1 vn0 un q rhat) = (u * 2 ^ 32 + unat un) div v"
  using assms
proof (induction vn1 vn0 un q rhat rule: digit_div_adjust.induct)
  case (1 vn1 vn0 un q rhat)
  let ?N = "u * 2 ^ 32 + unat un"
  note prems = "1.prems"
  have v: "0 < v" using prems(3) by simp
  have lt: "?N div v < 2 ^ 32"
  proof (rule less_mult_imp_div_less)
    have "?N < (u + 1) * 2 ^ 32" using prems(6) by simp
    also have "\<dots> \<le> 2 ^ 32 * v" using prems(3) by (simp add: mult.commute)
    finally show "?N < 2 ^ 32 * v" .
  qed
  have est: "\<not> 2 ^ 32 \<le> unat q \<and> \<not> rhat * kHalfDigitBase + un < q * vn0 \<longleftrightarrow> unat q < 2 ^ 32 \<and> unat q * v \<le> ?N"
  proof (cases "unat q < 2 ^ 32")
    case True
    then have "unat (q * vn0) = unat q * unat vn0"
      by (intro unat_digit_mult half_prod_lt prems(5))
    moreover have "unat (rhat * kHalfDigitBase + un) = unat rhat * 2 ^ 32 + unat un"
      by (rule unat_shift_in_half) (fact prems)+
    ultimately show ?thesis
      using True unfolding prems(2) quotient_estimate_iff [OF prems(1)]
      by (auto simp: word_less_nat_alt)
  qed simp
  show ?case
  proof (cases "q \<ge> kHalfDigitBase \<or> q * vn0 > rhat * kHalfDigitBase + un")
    case True
    have lt_q: "?N div v < unat q"
    proof (cases "unat q < 2 ^ 32")
      case T: True
      with True est have "\<not> unat q * v \<le> ?N" by (auto simp: word_le_nat_alt)
      then show ?thesis by (simp add: div_less_iff_less_mult v)
    qed (use lt in simp)
    then have q1: "unat (q - 1) = unat q - 1"
      by (metis gr_implies_not0 unat_0 unat_minus_one)
    have "unat rhat + unat vn1 < digit_base"
      using prems(4,7) by (simp add: digit_base_def)
    then have r1: "unat (rhat + vn1) = unat rhat + unat vn1" by (rule unat_digit_plus)
    have u1: "unat (q - 1) * unat vn1 + unat (rhat + vn1) = u"
      using prems(1) lt_q q1 r1 by (cases "unat q") auto
    show ?thesis
    proof (cases "rhat + vn1 \<ge> kHalfDigitBase")
      case stop: True
      then have "unat (q - 1) * v \<le> ?N"
        unfolding prems(2) using u1 prems
        by (intro quotient_estimate_stop) (auto simp: word_le_nat_alt)
      then have "unat (q - 1) \<le> ?N div v" by (simp add: less_eq_div_iff_mult_less_eq v)
      with lt_q q1 have "unat (q - 1) = ?N div v" by simp
      with True stop show ?thesis
        by (simp add: digit_div_adjust.simps [of vn1 vn0 un q rhat])
    next
      case False
      have "unat (digit_div_adjust vn1 vn0 un (q - 1) (rhat + vn1)) = ?N div v"
        using u1 prems False lt_q q1
        by (intro "1.IH" [OF True refl refl False]) (auto simp: word_le_nat_alt)
      with True False show ?thesis
        by (simp add: digit_div_adjust.simps [of vn1 vn0 un q rhat])
    qed
  next
    case False
    with est have "unat q \<le> ?N div v"
      by (auto simp: word_le_nat_alt less_eq_div_iff_mult_less_eq v)
    with False prems(8) show ?thesis
      by (simp add: digit_div_adjust.simps [of vn1 vn0 un q rhat])
  qed
qed

lemma digit_div_half_step:
  fixes u x d :: digit_t
  assumes "unat u < unat d" and "2 ^ 63 \<le> unat d" and "unat x < 2 ^ 32"
  defines "vn1 \<equiv> drop_bit 32 d"
  defines "q \<equiv> digit_div_adjust vn1 (d AND kHalfDigitMask) x (u div vn1) (u - (u div vn1) * vn1)"
  shows "unat q = (unat u * 2 ^ 32 + unat x) div unat d"
    and "unat (u * kHalfDigitBase + x - q * d) = (unat u * 2 ^ 32 + unat x) mod unat d"
proof -
  let ?N = "unat u * 2 ^ 32 + unat x"
  have vn1: "unat vn1 = unat d div 2 ^ 32" unfolding vn1_def by (rule unat_high_half)
  have vn1_lt: "unat vn1 < 2 ^ 32" unfolding vn1 by (rule half_digit_lt)
  have vn1_pos: "0 < unat vn1" using assms(2) by (simp add: vn1 div_greater_zero_iff)
  have d: "unat d = unat vn1 * 2 ^ 32 + unat (d AND kHalfDigitMask)"
    unfolding vn1 unat_low_half by (simp only: div_mult_mod_eq)
  have rhat: "u - u div vn1 * vn1 = u mod vn1" by (rule minus_div_mult_eq_mod)
  have *: "unat q = ?N div unat d"
    unfolding q_def
  proof (rule digit_div_adjust_eq)
    show "unat (u div vn1) * unat vn1 + unat (u - u div vn1 * vn1) = unat u"
      unfolding rhat by (simp add: unat_div_distrib unat_mod_distrib)
    show "unat (d AND kHalfDigitMask) < 2 ^ 32"
      unfolding unat_low_half by simp
    have "unat (u mod vn1) < unat vn1"
      unfolding unat_mod_distrib using vn1_pos by (rule mod_less_divisor)
    then show "unat (u - u div vn1 * vn1) < 2 ^ 32"
      unfolding rhat using vn1_lt by simp
    have "?N div unat d \<le> ?N div (unat vn1 * 2 ^ 32)"
      using vn1_pos by (intro div_le_mono2) (simp_all add: d)
    also have "\<dots> = (?N div 2 ^ 32) div unat vn1"
      by (simp only: mult.commute [of "unat vn1"] div_mult2_eq)
    also have "?N div 2 ^ 32 = unat u"
      using assms(3) by simp
    finally show "?N div unat d \<le> unat (u div vn1)"
      by (simp only: unat_div_distrib)
  qed (use assms d vn1_lt in auto)
  show "unat q = ?N div unat d" by (rule *)
  have "u * kHalfDigitBase + x = of_nat ?N"
    by (simp add: kHalfDigitBase_def)
  moreover have "q * d = of_nat (?N div unat d * unat d)"
    unfolding * [symmetric] by simp
  ultimately have "u * kHalfDigitBase + x - q * d = of_nat (?N - ?N div unat d * unat d)"
    by (simp only: of_nat_diff div_times_less_eq_dividend)
  then have "u * kHalfDigitBase + x - q * d = of_nat (?N mod unat d)"
    by (simp only: minus_div_mult_eq_mod)
  moreover have "?N mod unat d < digit_base"
    using assms(1) by (intro less_trans [OF mod_less_divisor unat_lt_base]) simp
  ultimately show "unat (u * kHalfDigitBase + x - q * d) = ?N mod unat d"
    by (simp add: unat_of_nat digit_base_def)
qed

lemma normalized_divisor:
  assumes "(d :: digit_t) \<noteq> 0"
  shows "unat (push_bit (CountLeadingZeros d) d) = unat d * 2 ^ CountLeadingZeros d"
    and "2 ^ 63 \<le> unat (push_bit (CountLeadingZeros d) d)"
proof -
  let ?s = "CountLeadingZeros d"
  have s: "?s < 64" using clz_lt [OF assms] by simp
  have "unat d * 2 ^ ?s < 2 ^ (64 - ?s) * 2 ^ ?s" using clz_upper [of d] by simp
  also have "\<dots> = digit_base" using s by (simp add: digit_base_def flip: power_add)
  finally show *: "unat (push_bit ?s d) = unat d * 2 ^ ?s"
    by (simp add: unat_push_digit)
  have "(2 :: nat) ^ 63 = 2 ^ (63 - ?s) * 2 ^ ?s" using s by (simp flip: power_add)
  also have "\<dots> \<le> unat d * 2 ^ ?s" using clz_lower [OF assms] by simp
  finally show "2 ^ 63 \<le> unat (push_bit ?s d)" by (simp only: *)
qed

lemma sign_mask:
  assumes "0 < s" and "s < 64"
  shows "signed_drop_bit 63 (- of_nat s :: digit_t) = - 1"
proof -
  have "(- of_nat s :: digit_t) = NOT (of_nat (s - 1))"
    using assms by (simp add: minus_eq_not_minus_1 of_nat_diff)
  moreover have "\<not> bit (of_nat (s - 1) :: digit_t) 63"
  proof -
    have "s - 1 < 2 ^ 63" using assms(2) by simp
    then have "\<not> bit (s - 1) 63" by (simp add: bit_iff_odd)
    then show ?thesis by (simp add: bit_simps del: of_nat_diff)
  qed
  ultimately have b: "bit (- of_nat s :: digit_t) 63"
    by (simp add: bit_not_iff)
  show ?thesis
  proof (rule bit_word_eqI)
    fix n assume "n < LENGTH(64)"
    then show "bit (signed_drop_bit 63 (- of_nat s :: digit_t)) n = bit (- 1 :: digit_t) n"
      using b by (cases n) (auto simp: bit_signed_drop_bit_iff)
  qed
qed

lemma shifted_high_digit:
  fixes high low d :: digit_t
  assumes "high < d" and "s = CountLeadingZeros d"
  shows "unat (push_bit s high OR (drop_bit ((64 - s) AND 63) low AND signed_drop_bit 63 (- of_nat s)))
           = (unat high * digit_base + unat low) * 2 ^ s div digit_base"
proof (cases "s = 0")
  case True
  then show ?thesis by (simp add: unat_lt_base)
next
  case False
  have d0: "d \<noteq> 0" using assms(1) by auto
  then have s: "0 < s" "s < 64" using clz_lt [OF d0] False assms(2) by auto
  have sh: "(64 - s) AND 63 = 64 - s"
    using s take_bit_nat_eq_self [of "64 - s" 6] by (simp add: take_bit_eq_mask mask_eq_exp_minus_1)
  have m: "signed_drop_bit 63 (- of_nat s :: digit_t) = - 1"
    using s by (rule sign_mask)
  have "unat high * 2 ^ s < unat d * 2 ^ s" using assms(1) by (simp add: word_less_nat_alt)
  also have *: "\<dots> < digit_base"
    using normalized_divisor(1) [OF d0] unat_lt_base [of "push_bit s d"] assms(2) by simp
  finally have h: "unat (push_bit s high) = unat high * 2 ^ s" by (simp add: unat_push_digit)
  have l: "unat (drop_bit (64 - s) low) = unat low div 2 ^ (64 - s)"
    unfolding unat_drop_bit_eq by (rule drop_bit_eq_div)
  have B: "digit_base = 2 ^ (64 - s) * 2 ^ s" using s by (simp add: digit_base_def flip: power_add)
  have "push_bit s high OR drop_bit (64 - s) low = push_bit s high + drop_bit (64 - s) low"
    by (rule disjunctive_add_eq_or [symmetric], rule bit_word_eqI)
      (use s in \<open>auto simp: bit_and_iff bit_push_bit_iff bit_drop_bit_eq dest: bit_imp_le_length\<close>)
  moreover have "unat high * 2 ^ s + unat low div 2 ^ (64 - s) < digit_base"
  proof -
    have "unat low div 2 ^ (64 - s) < 2 ^ s"
      using unat_lt_base [of low] by (intro less_mult_imp_div_less) (simp add: B mult.commute)
    then have "unat high * 2 ^ s + unat low div 2 ^ (64 - s) < (unat high + 1) * 2 ^ s" by simp
    also have "\<dots> \<le> unat d * 2 ^ s"
      using assms(1) by (intro mult_le_mono1) (simp add: word_less_nat_alt)
    finally show ?thesis using * by simp
  qed
  ultimately have "unat (push_bit s high OR drop_bit (64 - s) low) = unat high * 2 ^ s + unat low div 2 ^ (64 - s)"
    using h l by (simp add: unat_digit_plus)
  also have "\<dots> = (unat high * digit_base + unat low) * 2 ^ s div digit_base"
  proof -
    have "(unat high * digit_base + unat low) * 2 ^ s = unat high * 2 ^ s * digit_base + unat low * 2 ^ s"
      by (simp add: algebra_simps)
    also have "\<dots> div digit_base = unat high * 2 ^ s + unat low * 2 ^ s div digit_base"
      by simp
    also have "unat low * 2 ^ s div digit_base = unat low div 2 ^ (64 - s)"
      unfolding B by (rule div_mult_mult2) simp
    finally show ?thesis by simp
  qed
  finally show ?thesis by (simp add: sh m)
qed

lemma div_two_halves:
  fixes u x1 x0 d h :: nat
  assumes "0 < d"
  defines "q1 \<equiv> (u * h + x1) div d" and "r1 \<equiv> (u * h + x1) mod d"
  shows "((u * h + x1) * h + x0) div d = q1 * h + (r1 * h + x0) div d"
    and "((u * h + x1) * h + x0) mod d = (r1 * h + x0) mod d"
proof -
  have "(u * h + x1) * h + x0 = (r1 * h + x0) + (q1 * h) * d"
    unfolding q1_def r1_def by (metis (no_types, lifting) ab_semigroup_add_class.add_ac(1) add.commute add_mult_distrib mod_div_mult_eq mult.assoc mult.commute)
  then show "((u * h + x1) * h + x0) div d = q1 * h + (r1 * h + x0) div d"
    and "((u * h + x1) * h + x0) mod d = (r1 * h + x0) mod d"
    using assms(1) by (simp_all only: div_mult_self1 mod_mult_self1 add.commute)
qed

text \<open>
  C25.  Whenever the high digit is below the divisor, the two-by-one digit division does
  not trap and the portable half-digit algorithm (normalisation, two quotient-digit estimates, each
  corrected by its loop) returns the quotient and the remainder that the hardware instruction returns.
\<close>
theorem digit_div_portable_correct:
  assumes "high < divisor"
  shows "digit_div high low divisor = Some (digit_div_portable high low divisor)"
proof -
  define s where "s = CountLeadingZeros divisor"
  define d where "d = push_bit s divisor"
  define un32 where "un32 = push_bit s high OR (drop_bit ((64 - s) AND 63) low AND signed_drop_bit 63 (- of_nat s))"
  define un10 where "un10 = push_bit s low"
  define un1 un0 where un: "un1 = drop_bit 32 un10" "un0 = un10 AND kHalfDigitMask"
  let ?A = "unat high * digit_base + unat low"
  have d0: "divisor \<noteq> 0" using assms by auto
  have d: "unat d = unat divisor * 2 ^ s" "2 ^ 63 \<le> unat d"
    using normalized_divisor [OF d0] by (simp_all add: d_def s_def)
  have un32: "unat un32 = ?A * 2 ^ s div digit_base"
    unfolding un32_def by (rule shifted_high_digit [OF assms s_def])
  have "?A < unat divisor * digit_base"
  proof -
    have "?A < (unat high + 1) * digit_base" using unat_lt_base [of low] by simp
    also have "\<dots> \<le> unat divisor * digit_base"
      using assms by (intro mult_le_mono1) (simp add: word_less_nat_alt)
    finally show ?thesis .
  qed
  then have A: "?A * 2 ^ s < unat d * digit_base" by (simp add: d)
  have un32_lt: "unat un32 < unat d"
    unfolding un32 using A by (simp add: less_mult_imp_div_less)
  have un10: "unat un10 = ?A * 2 ^ s mod digit_base"
  proof -
    have "?A * 2 ^ s = unat low * 2 ^ s + unat high * 2 ^ s * digit_base"
      by (simp add: algebra_simps)
    then show ?thesis unfolding un10_def unat_push_digit by simp
  qed
  have halves: "unat un1 < 2 ^ 32" "unat un0 < 2 ^ 32" "unat un1 * 2 ^ 32 + unat un0 = unat un10"
    unfolding un unat_low_half unat_high_half using half_digit_lt [of un10]
    by (simp_all only: div_mult_mod_eq)
  have whole: "?A * 2 ^ s = (unat un32 * 2 ^ 32 + unat un1) * 2 ^ 32 + unat un0"
  proof -
    have "?A * 2 ^ s = unat un32 * (2 ^ 32 * 2 ^ 32) + unat un10"
      unfolding un32 un10 by (simp add: digit_base_def)
    with halves(3) show ?thesis by simp
  qed
  define q1 where "q1 = digit_div_adjust (drop_bit 32 d) (d AND kHalfDigitMask) un1 (un32 div drop_bit 32 d)
    (un32 - un32 div drop_bit 32 d * drop_bit 32 d)"
  define un21 where "un21 = un32 * kHalfDigitBase + un1 - q1 * d"
  define q0 where "q0 = digit_div_adjust (drop_bit 32 d) (d AND kHalfDigitMask) un0 (un21 div drop_bit 32 d)
    (un21 - un21 div drop_bit 32 d * drop_bit 32 d)"
  define r where "r = un21 * kHalfDigitBase + un0 - q0 * d"
  have q1: "unat q1 = (unat un32 * 2 ^ 32 + unat un1) div unat d"
    and un21: "unat un21 = (unat un32 * 2 ^ 32 + unat un1) mod unat d"
    unfolding q1_def un21_def by (rule digit_div_half_step [OF un32_lt d(2) halves(1)])+
  have dpos: "0 < unat d" using un32_lt by simp
  then have un21_lt: "unat un21 < unat d" unfolding un21 by (rule mod_less_divisor)
  have q0: "unat q0 = (unat un21 * 2 ^ 32 + unat un0) div unat d"
    and r: "unat r = (unat un21 * 2 ^ 32 + unat un0) mod unat d"
    unfolding q0_def r_def by (rule digit_div_half_step [OF un21_lt d(2) halves(2)])+
  have "?A * 2 ^ s div unat d = unat q1 * 2 ^ 32 + unat q0"
    and r_eq: "?A * 2 ^ s mod unat d = unat r"
    unfolding whole q1 q0 r un21 by (rule div_two_halves [OF dpos])+
  then have Q: "?A div unat divisor = unat q1 * 2 ^ 32 + unat q0"
    by (simp add: d)
  have R: "unat (drop_bit s r) = ?A mod unat divisor"
    unfolding unat_drop_bit_eq r_eq [symmetric] d by (simp add: drop_bit_eq_div mod_mult_mult2)
  have lt: "?A div unat divisor < digit_base"
    using \<open>?A < unat divisor * digit_base\<close> by (simp add: less_mult_imp_div_less mult.commute)
  have "q1 * kHalfDigitBase + q0 = of_nat (?A div unat divisor)"
    unfolding Q by (simp add: kHalfDigitBase_def)
  moreover have "drop_bit s r = of_nat (?A mod unat divisor)"
    unfolding R [symmetric] by simp
  moreover have "digit_div_portable high low divisor = (q1 * kHalfDigitBase + q0, drop_bit s r)"
    unfolding digit_div_portable_def Let_def s_def [symmetric] d_def [symmetric] r_def q0_def un21_def q1_def un un10_def un32_def
    by simp
  ultimately show ?thesis
    using d0 lt by (simp add: digit_div_def Let_def)
qed

theorem digit_div_portable_correct_witness:
  "digit_div 1 5 7 = Some (digit_div_portable 1 5 7) \<and> digit_div 1 5 7 = Some (2635249153387078803, 0)"
  using digit_div_portable_correct [of 1 7 5] by (simp add: digit_div_def digit_base_def)

end
