(* ===== verification/Bigint_Vector.thy ===== *)
theory Bigint_Vector
  imports Bigint_Div_Digit
begin

text \<open>
  \<open>bigint/vector-arithmetic.h\<close>, \<open>bigint/vector-arithmetic.cc\<close> and the \<open>Digits\<close> views of \<open>bigint/bigint.h\<close>:
  little-endian digit vectors, their value \<open>dval\<close>, comparison, addition and subtraction.  A destination
  \<open>Z\<close> is a list whose length is the allocated length; the operations return the new contents.  Where the
  C++ code may be called with \<open>Z\<close> and \<open>X\<close> being the same memory, \<open>X\<close> is a function of the current contents
  of \<open>Z\<close> (type \<open>operand\<close>), so that the aliasing is visible in the model.
\<close>

type_synonym digits = "digit_t list"

primrec dval :: "digits \<Rightarrow> nat" where
  "dval [] = 0"
| "dval (x # xs) = unat x + digit_base * dval xs"

fun Normalize :: "digits \<Rightarrow> digits" where
  "Normalize X = (if 0 < length X \<and> last X = 0 then Normalize (butlast X) else X)"

declare Normalize.simps [simp del]

definition Digits_slice :: "digits \<Rightarrow> nat \<Rightarrow> nat \<Rightarrow> digits" where
  "Digits_slice src offset len = take len (drop offset src)"

definition msd :: "digits \<Rightarrow> digit_t option" where
  "msd X = (if 0 < length X then rd X (length X - 1) else None)"

definition Clear :: "digits \<Rightarrow> digits" where
  "Clear Z = replicate (length Z) 0"

definition IsDigitNormalized :: "digits \<Rightarrow> bool" where
  "IsDigitNormalized X \<longleftrightarrow> length X = 0 \<or> last X \<noteq> 0"

fun Compare_scan :: "digits \<Rightarrow> digits \<Rightarrow> nat \<Rightarrow> int" where
  "Compare_scan A B 0 = 0"
| "Compare_scan A B (Suc i) =
     (if A ! i = B ! i then Compare_scan A B i
      else if A ! i > B ! i then 1 else - 1)"

definition Compare :: "digits \<Rightarrow> digits \<Rightarrow> int" where
  "Compare A B =
     (let A = Normalize A;
          B = Normalize B;
          diff = int (length A) - int (length B)
      in if diff \<noteq> 0 then diff else Compare_scan A B (length A))"

definition GreaterThanOrEqual :: "digits \<Rightarrow> digits \<Rightarrow> bool" where
  "GreaterThanOrEqual A B \<longleftrightarrow> Compare A B \<ge> 0"

section \<open>Values\<close>

lemma dval_append [simp]: "dval (xs @ ys) = dval xs + digit_base ^ length xs * dval ys"
  by (induction xs) (simp_all add: algebra_simps)

lemma dval_replicate_0 [simp]: "dval (replicate n 0) = 0"
  by (induction n) simp_all

lemma dval_lt: "dval xs < digit_base ^ length xs"
proof (induction xs)
  case (Cons x xs)
  have "dval (x # xs) < digit_base + digit_base * dval xs"
    using unat_lt_base [of x] by simp
  also have "\<dots> = digit_base * (dval xs + 1)" by simp
  also have "\<dots> \<le> digit_base * digit_base ^ length xs"
    using Cons.IH by (intro mult_le_mono2) simp
  finally show ?case by simp
qed simp

lemma dval_take_Suc: "k < length X \<Longrightarrow> dval (take (Suc k) X) = dval (take k X) + digit_base ^ k * unat (X ! k)"
  by (simp add: take_Suc_conv_app_nth)

lemma dval_take_drop: "dval X = dval (take k X) + digit_base ^ k * dval (drop k X)"
proof (cases "k \<le> length X")
  case True
  have "dval X = dval (take k X @ drop k X)" by simp
  also have "\<dots> = dval (take k X) + digit_base ^ k * dval (drop k X)"
    using True by (simp del: append_take_drop_id add: min_def)
  finally show ?thesis .
qed simp

section \<open>Normalize\<close>

lemma Normalize_prefix: "\<exists>n. X = Normalize X @ replicate n 0"
proof (induction X rule: Normalize.induct)
  case (1 X)
  show ?case
  proof (cases "0 < length X \<and> last X = 0")
    case True
    with 1 obtain n where "butlast X = Normalize (butlast X) @ replicate n 0" by blast
    then have "X = Normalize (butlast X) @ replicate (Suc n) 0"
      using True by (metis append_assoc append_butlast_last_id length_greater_0_conv replicate_append_same replicate_Suc)
    with True show ?thesis by (metis Normalize.simps)
  next
    case False
    then show ?thesis by (metis Normalize.simps append_Nil2 replicate_0)
  qed
qed

lemma dval_Normalize [simp]: "dval (Normalize X) = dval X"
  by (metis Normalize_prefix dval_append dval_replicate_0 mult_0_right add_0_right)

lemma length_Normalize: "length (Normalize X) \<le> length X"
  by (metis Normalize_prefix length_append le_add1)

lemma IsDigitNormalized_Normalize [simp]: "IsDigitNormalized (Normalize X)"
proof (induction X rule: Normalize.induct)
  case (1 X)
  then show ?case by (subst Normalize.simps) (auto simp: IsDigitNormalized_def)
qed

lemma Normalize_id: "IsDigitNormalized X \<Longrightarrow> Normalize X = X"
  by (subst Normalize.simps) (auto simp: IsDigitNormalized_def)

lemma Normalize_idem [simp]: "Normalize (Normalize X) = Normalize X"
  by (simp add: Normalize_id)

lemma dval_ge_normalized:
  assumes "IsDigitNormalized X" and "X \<noteq> []"
  shows "digit_base ^ (length X - 1) \<le> dval X"
proof -
  from assms have "X = butlast X @ [last X]" and l: "0 < unat (last X)"
    by (simp_all add: IsDigitNormalized_def unat_gt_0)
  then have "dval X = dval (butlast X) + digit_base ^ (length X - 1) * unat (last X)"
    by (metis dval_append length_butlast dval.simps mult_0_right add_0_right)
  also have "\<dots> \<ge> digit_base ^ (length X - 1)" using l by (simp add: trans_le_add2)
  finally show ?thesis .
qed

lemma normalized_length_less:
  assumes "IsDigitNormalized A" and "length B < length A"
  shows "dval B < dval A"
proof -
  have "A \<noteq> []" using assms(2) by auto
  have "dval B < digit_base ^ length B" by (rule dval_lt)
  also have "\<dots> \<le> digit_base ^ (length A - 1)"
    using assms(2) by (intro power_increasing) (simp_all add: digit_base_def)
  also have "\<dots> \<le> dval A" by (rule dval_ge_normalized [OF assms(1) \<open>A \<noteq> []\<close>])
  finally show ?thesis .
qed

section \<open>Compare\<close>

lemma Compare_scan_sgn:
  assumes "n \<le> length A" and "n \<le> length B"
  shows "Compare_scan A B n = sgn (int (dval (take n A)) - int (dval (take n B)))"
  using assms
proof (induction n)
  case (Suc n)
  let ?p = "digit_base ^ n"
  have v: "dval (take (Suc n) A) = dval (take n A) + ?p * unat (A ! n)"
    "dval (take (Suc n) B) = dval (take n B) + ?p * unat (B ! n)"
    using Suc.prems by (simp_all add: dval_take_Suc)
  have lt: "dval (take n A) < ?p" "dval (take n B) < ?p"
    using dval_lt [of "take n A"] dval_lt [of "take n B"] Suc.prems by (simp_all add: min_def)
  have less: "dval (take n X) < ?p \<Longrightarrow> x < y \<Longrightarrow> dval (take n X) + ?p * x < dval (take n Y) + ?p * y" for X Y and x y :: nat
    using mult_le_mono2 [of "Suc x" y ?p] by simp
  consider "A ! n = B ! n" | "B ! n < A ! n" | "A ! n < B ! n" by fastforce
  then show ?case
  proof cases
    case 1
    then show ?thesis using Suc v by (simp del: take_Suc_conv_app_nth)
  next
    case 2
    with less [OF lt(2), of "unat (B ! n)" "unat (A ! n)" A]
    show ?thesis by (auto simp: v word_less_nat_alt simp del: of_nat_add of_nat_mult)
  next
    case 3
    with less [OF lt(1), of "unat (A ! n)" "unat (B ! n)" B]
    show ?thesis by (auto simp: v word_less_nat_alt simp del: of_nat_add of_nat_mult)
  qed
qed simp

lemma Compare_sgn: "sgn (Compare A B) = sgn (int (dval A) - int (dval B))"
proof -
  let ?A = "Normalize A" and ?B = "Normalize B"
  show ?thesis
  proof (cases "length ?A = length ?B")
    case True
    then have "Compare A B = Compare_scan ?A ?B (length ?A)"
      by (simp add: Compare_def Let_def)
    with True Compare_scan_sgn [of "length ?A" ?A ?B] show ?thesis by simp
  next
    case False
    then consider "length ?A < length ?B" | "length ?B < length ?A" by linarith
    then show ?thesis
    proof cases
      case 1
      then have "dval A < dval B" using normalized_length_less [of ?B ?A] by simp
      with 1 show ?thesis by (simp add: Compare_def Let_def)
    next
      case 2
      then have "dval B < dval A" using normalized_length_less [of ?A ?B] by simp
      with 2 show ?thesis by (simp add: Compare_def Let_def)
    qed
  qed
qed

lemma Compare_less: "Compare A B < 0 \<longleftrightarrow> dval A < dval B"
  using Compare_sgn [of A B] by (metis diff_less_0_iff_less of_nat_less_iff sgn_less)

lemma Compare_eq: "Compare A B = 0 \<longleftrightarrow> dval A = dval B"
  using Compare_sgn [of A B] by (metis eq_iff_diff_eq_0 of_nat_eq_iff sgn_0_0)

lemma GreaterThanOrEqual_iff: "GreaterThanOrEqual A B \<longleftrightarrow> dval B \<le> dval A"
  unfolding GreaterThanOrEqual_def using Compare_less [of A B] by linarith

section \<open>Digit loops\<close>

type_synonym operand = "digits \<Rightarrow> digits"

definition add3_loop :: "operand \<Rightarrow> digits \<Rightarrow> nat \<Rightarrow> nat \<Rightarrow> digits \<times> digit_t \<Rightarrow> (digits \<times> digit_t) option" where
  "add3_loop X Y i n = for_up i n (\<lambda>i (Z, carry). do {
     x \<leftarrow> rd (X Z) i;
     y \<leftarrow> rd Y i;
     let (z, carry) = digit_add3 x y carry;
     Z \<leftarrow> wr Z i z;
     Some (Z, carry) })"

definition add2_loop :: "operand \<Rightarrow> nat \<Rightarrow> nat \<Rightarrow> digits \<times> digit_t \<Rightarrow> (digits \<times> digit_t) option" where
  "add2_loop X i n = for_up i n (\<lambda>i (Z, carry). do {
     x \<leftarrow> rd (X Z) i;
     let (z, carry) = digit_add2 x carry;
     Z \<leftarrow> wr Z i z;
     Some (Z, carry) })"

definition sub2_loop :: "operand \<Rightarrow> digits \<Rightarrow> nat \<Rightarrow> nat \<Rightarrow> digits \<times> digit_t \<Rightarrow> (digits \<times> digit_t) option" where
  "sub2_loop X Y i n = for_up i n (\<lambda>i (Z, borrow). do {
     x \<leftarrow> rd (X Z) i;
     y \<leftarrow> rd Y i;
     let (z, borrow) = digit_sub2 x y borrow;
     Z \<leftarrow> wr Z i z;
     Some (Z, borrow) })"

definition sub_loop :: "operand \<Rightarrow> nat \<Rightarrow> nat \<Rightarrow> digits \<times> digit_t \<Rightarrow> (digits \<times> digit_t) option" where
  "sub_loop X i n = for_up i n (\<lambda>i (Z, borrow). do {
     x \<leftarrow> rd (X Z) i;
     let (z, borrow) = digit_sub x borrow;
     Z \<leftarrow> wr Z i z;
     Some (Z, borrow) })"

definition copy_loop :: "digits \<Rightarrow> nat \<Rightarrow> nat \<Rightarrow> digits \<Rightarrow> digits option" where
  "copy_loop X i n = for_up i n (\<lambda>i Z. do { x \<leftarrow> rd X i; wr Z i x })"

definition zero_from :: "nat \<Rightarrow> digits \<Rightarrow> digits option" where
  "zero_from i Z = for_up i (length Z) (\<lambda>i Z. wr Z i 0) Z"

definition reads_as :: "operand \<Rightarrow> digits \<Rightarrow> digits \<Rightarrow> nat \<Rightarrow> bool" where
  "reads_as X V Z0 n \<longleftrightarrow>
     n \<le> length V \<and> (\<forall>k Z. k < n \<longrightarrow> length Z = length Z0 \<longrightarrow> drop k Z = drop k Z0 \<longrightarrow>
        k < length (X Z) \<and> X Z ! k = V ! k)"

lemma reads_as_const: "n \<le> length V \<Longrightarrow> reads_as (\<lambda>_. V) V Z0 n"
  by (simp add: reads_as_def)

lemma reads_as_self: "n \<le> length Z0 \<Longrightarrow> reads_as (\<lambda>Z. Z) Z0 Z0 n"
  by (auto simp: reads_as_def intro: nth_drop_eq)

lemma reads_asD:
  "reads_as X V Z0 n \<Longrightarrow> k < n \<Longrightarrow> length Z = length Z0 \<Longrightarrow> drop k Z = drop k Z0 \<Longrightarrow>
     k < length (X Z) \<and> X Z ! k = V ! k"
  by (simp add: reads_as_def)

lemma carry_step:
  fixes zs p c s z b c' t :: nat
  assumes "zs + p * c = s" and "z + b * c' = t + c"
  shows "zs + p * z + p * b * c' = s + p * t"
proof -
  have "zs + p * z + p * b * c' = zs + p * (z + b * c')" by (simp add: algebra_simps)
  also have "\<dots> = (zs + p * c) + p * t" unfolding assms(2) by (simp add: algebra_simps)
  finally show ?thesis unfolding assms(1) .
qed

lemma add3_carry_le:
  assumes "digit_add3 x y c = (z, c')" and "unat c \<le> 1"
  shows "unat c' \<le> 1"
proof -
  have "digit_base * unat c' < digit_base * 2"
    using digit_add3_eq [OF assms(1)] assms(2) unat_lt_base [of x] unat_lt_base [of y] by linarith
  then show ?thesis by simp
qed

lemma add2_carry_le:
  assumes "digit_add2 x c = (z, c')"
  shows "unat c' \<le> 1"
proof -
  have "digit_base * unat c' < digit_base * 2"
    using digit_add2_eq [OF assms(1)] unat_lt_base [of x] unat_lt_base [of c] by linarith
  then show ?thesis by simp
qed

definition add_inv :: "digits \<Rightarrow> nat \<Rightarrow> (nat \<Rightarrow> nat) \<Rightarrow> nat \<Rightarrow> digits \<times> digit_t \<Rightarrow> bool" where
  "add_inv Z0 c0 tot k s \<longleftrightarrow>
     (case s of (Z, c) \<Rightarrow> length Z = length Z0 \<and> drop k Z = drop k Z0 \<and> unat c \<le> c0 \<and>
        dval (take k Z) + digit_base ^ k * unat c = tot k)"

lemma add_inv_step:
  assumes inv: "add_inv Z0 c0 tot k (Z, c)" and k: "k < length Z0"
    and eq: "unat z + digit_base * unat c' = t + unat c"
    and tot: "tot (Suc k) = tot k + digit_base ^ k * t" and c': "unat c' \<le> c0"
  shows "add_inv Z0 c0 tot (Suc k) (Z[k := z], c')"
proof -
  from inv have len: "length Z = length Z0" and dr: "drop k Z = drop k Z0"
    and val: "dval (take k Z) + digit_base ^ k * unat c = tot k"
    by (simp_all add: add_inv_def)
  from carry_step [OF val eq]
  have "dval (take (Suc k) (Z[k := z])) + digit_base ^ Suc k * unat c' = tot (Suc k)"
    using k len by (simp add: tot mult.commute [of digit_base])
  then show ?thesis
    using c' len drop_SucI [OF dr] by (simp add: add_inv_def)
qed

lemma add_inv_length: "add_inv Z0 c0 tot k (Z, c) \<Longrightarrow> length Z = length Z0"
  and add_inv_drop: "add_inv Z0 c0 tot k (Z, c) \<Longrightarrow> drop k Z = drop k Z0"
  and add_inv_carry: "add_inv Z0 c0 tot k (Z, c) \<Longrightarrow> unat c \<le> c0"
  and add_inv_val: "add_inv Z0 c0 tot k (Z, c) \<Longrightarrow> dval (take k Z) + digit_base ^ k * unat c = tot k"
  by (simp_all add: add_inv_def)

lemma reads_as_inv:
  assumes "reads_as X V Z0 n" and "k < n" and "add_inv Z0 c0 tot k (Z, c)"
  shows "k < length (X Z)" and "X Z ! k = V ! k" and "k < length V"
  using reads_asD [OF assms(1,2) add_inv_length [OF assms(3)] add_inv_drop [OF assms(3)]] assms(1,2)
  by (simp_all add: reads_as_def)

lemma ok_add3_loop:
  fixes V Y :: digits and a :: nat
  defines "tot \<equiv> \<lambda>k. dval (take k V) + dval (take k Y) + a"
  assumes X: "reads_as X V Z0 n" and Y: "n \<le> length Y" and Z: "n \<le> length Z0" and "i \<le> n"
    and init: "add_inv Z0 1 tot i (Z, c)"
    and post: "\<And>Z c. add_inv Z0 1 tot n (Z, c) \<Longrightarrow> Q (Z, c)"
  shows "ok (add3_loop X Y i n (Z, c)) Q"
  unfolding add3_loop_def
proof (rule ok_for_up [where I = "add_inv Z0 1 tot"])
  fix k s assume k: "i \<le> k" "k < n" and inv: "add_inv Z0 1 tot k s"
  obtain Z c where s: "s = (Z, c)" by fastforce
  note inv = inv [unfolded s]
  obtain z c' where zc: "digit_add3 (V ! k) (Y ! k) c = (z, c')" by fastforce
  have "add_inv Z0 1 tot (Suc k) (Z[k := z], c')"
    using k Y Z reads_as_inv [OF X k(2) inv] add3_carry_le [OF zc add_inv_carry [OF inv]]
    by (intro add_inv_step [OF inv _ digit_add3_eq [OF zc]]) (simp_all add: tot_def dval_take_Suc algebra_simps)
  then show "ok (case s of (Z, carry) \<Rightarrow> do {
     x \<leftarrow> rd (X Z) k; y \<leftarrow> rd Y k; let (z, carry) = digit_add3 x y carry;
     Z \<leftarrow> wr Z k z; Some (Z, carry) }) (add_inv Z0 1 tot (Suc k))"
    using k Y Z reads_as_inv [OF X k(2) inv] add_inv_length [OF inv] zc by (simp add: s)
qed (use assms in auto)

lemma ok_add2_loop:
  fixes V :: digits and a c0 :: nat
  defines "tot \<equiv> \<lambda>k. dval (take k V) + a"
  assumes X: "reads_as X V Z0 n" and Z: "n \<le> length Z0" and "i \<le> n" and c0: "1 \<le> c0"
    and init: "add_inv Z0 c0 tot i (Z, c)"
    and post: "\<And>Z c. add_inv Z0 c0 tot n (Z, c) \<Longrightarrow> Q (Z, c)"
  shows "ok (add2_loop X i n (Z, c)) Q"
  unfolding add2_loop_def
proof (rule ok_for_up [where I = "add_inv Z0 c0 tot"])
  fix k s assume k: "i \<le> k" "k < n" and inv: "add_inv Z0 c0 tot k s"
  obtain Z c where s: "s = (Z, c)" by fastforce
  note inv = inv [unfolded s]
  obtain z c' where zc: "digit_add2 (V ! k) c = (z, c')" by fastforce
  have "add_inv Z0 c0 tot (Suc k) (Z[k := z], c')"
    using k Z reads_as_inv [OF X k(2) inv] add2_carry_le [OF zc] c0
    by (intro add_inv_step [OF inv _ digit_add2_eq [OF zc]]) (simp_all add: tot_def dval_take_Suc)
  then show "ok (case s of (Z, carry) \<Rightarrow> do {
     x \<leftarrow> rd (X Z) k; let (z, carry) = digit_add2 x carry;
     Z \<leftarrow> wr Z k z; Some (Z, carry) }) (add_inv Z0 c0 tot (Suc k))"
    using k Z reads_as_inv [OF X k(2) inv] add_inv_length [OF inv] zc by (simp add: s)
qed (use assms in auto)

definition sub_inv :: "digits \<Rightarrow> (nat \<Rightarrow> nat) \<Rightarrow> (nat \<Rightarrow> nat) \<Rightarrow> nat \<Rightarrow> digits \<times> digit_t \<Rightarrow> bool" where
  "sub_inv Z0 tot sub k s \<longleftrightarrow>
     (case s of (Z, c) \<Rightarrow> length Z = length Z0 \<and> drop k Z = drop k Z0 \<and> unat c \<le> 1 \<and>
        dval (take k Z) + sub k = tot k + digit_base ^ k * unat c)"

lemma sub_inv_length: "sub_inv Z0 tot sub k (Z, c) \<Longrightarrow> length Z = length Z0"
  and sub_inv_drop: "sub_inv Z0 tot sub k (Z, c) \<Longrightarrow> drop k Z = drop k Z0"
  and sub_inv_borrow: "sub_inv Z0 tot sub k (Z, c) \<Longrightarrow> unat c \<le> 1"
  and sub_inv_val: "sub_inv Z0 tot sub k (Z, c) \<Longrightarrow> dval (take k Z) + sub k = tot k + digit_base ^ k * unat c"
  by (simp_all add: sub_inv_def)

lemma reads_as_sub_inv:
  assumes "reads_as X V Z0 n" and "k < n" and "sub_inv Z0 tot sub k (Z, c)"
  shows "k < length (X Z)" and "X Z ! k = V ! k" and "k < length V"
  using reads_asD [OF assms(1,2) sub_inv_length [OF assms(3)] sub_inv_drop [OF assms(3)]] assms(1,2)
  by (simp_all add: reads_as_def)

lemma sub_inv_step:
  assumes inv: "sub_inv Z0 tot sub k (Z, c)" and k: "k < length Z0"
    and eq: "unat z + y + unat c = x + digit_base * unat c'"
    and tot: "tot (Suc k) = tot k + digit_base ^ k * x"
    and sub: "sub (Suc k) = sub k + digit_base ^ k * y" and c': "unat c' \<le> 1"
  shows "sub_inv Z0 tot sub (Suc k) (Z[k := z], c')"
proof -
  let ?p = "digit_base ^ k"
  from inv have len: "length Z = length Z0" and dr: "drop k Z = drop k Z0"
    and val: "dval (take k Z) + sub k = tot k + ?p * unat c"
    by (simp_all add: sub_inv_def)
  have "?p * (unat z + y + unat c) = ?p * (x + digit_base * unat c')" by (simp only: eq)
  then have "dval (take k Z) + ?p * unat z + (sub k + ?p * y) = tot k + ?p * x + ?p * digit_base * unat c'"
    using val by (simp add: algebra_simps)
  then have "dval (take (Suc k) (Z[k := z])) + sub (Suc k) = tot (Suc k) + digit_base ^ Suc k * unat c'"
    using k len by (simp add: tot sub mult.commute [of digit_base])
  then show ?thesis
    using c' len drop_SucI [OF dr] by (simp add: sub_inv_def)
qed

lemma ok_sub2_loop:
  fixes V Y :: digits
  defines "tot \<equiv> \<lambda>k. dval (take k V)" and "sub \<equiv> \<lambda>k. dval (take k Y)"
  assumes X: "reads_as X V Z0 n" and Y: "n \<le> length Y" and Z: "n \<le> length Z0" and "i \<le> n"
    and init: "sub_inv Z0 tot sub i (Z, c)"
    and post: "\<And>Z c. sub_inv Z0 tot sub n (Z, c) \<Longrightarrow> Q (Z, c)"
  shows "ok (sub2_loop X Y i n (Z, c)) Q"
  unfolding sub2_loop_def
proof (rule ok_for_up [where I = "sub_inv Z0 tot sub"])
  fix k s assume k: "i \<le> k" "k < n" and inv: "sub_inv Z0 tot sub k s"
  obtain Z c where s: "s = (Z, c)" by fastforce
  note inv = inv [unfolded s]
  obtain z c' where zc: "digit_sub2 (V ! k) (Y ! k) c = (z, c')" by fastforce
  have "sub_inv Z0 tot sub (Suc k) (Z[k := z], c')"
    using k Y Z reads_as_sub_inv [OF X k(2) inv] digit_sub2_eq [OF zc sub_inv_borrow [OF inv]]
    by (intro sub_inv_step [OF inv _ digit_sub2_eq(1) [OF zc sub_inv_borrow [OF inv]]])
      (simp_all add: tot_def sub_def dval_take_Suc)
  then show "ok (case s of (Z, borrow) \<Rightarrow> do {
     x \<leftarrow> rd (X Z) k; y \<leftarrow> rd Y k; let (z, borrow) = digit_sub2 x y borrow;
     Z \<leftarrow> wr Z k z; Some (Z, borrow) }) (sub_inv Z0 tot sub (Suc k))"
    using k Y Z reads_as_sub_inv [OF X k(2) inv] sub_inv_length [OF inv] zc by (simp add: s)
qed (use assms in auto)

lemma ok_sub_loop:
  fixes V :: digits and a :: nat
  defines "tot \<equiv> \<lambda>k. dval (take k V)" and "sub \<equiv> \<lambda>k. a"
  assumes X: "reads_as X V Z0 n" and Z: "n \<le> length Z0" and "i \<le> n"
    and init: "sub_inv Z0 tot sub i (Z, c)"
    and post: "\<And>Z c. sub_inv Z0 tot sub n (Z, c) \<Longrightarrow> Q (Z, c)"
  shows "ok (sub_loop X i n (Z, c)) Q"
  unfolding sub_loop_def
proof (rule ok_for_up [where I = "sub_inv Z0 tot sub"])
  fix k s assume k: "i \<le> k" "k < n" and inv: "sub_inv Z0 tot sub k s"
  obtain Z c where s: "s = (Z, c)" by fastforce
  note inv = inv [unfolded s]
  obtain z c' where zc: "digit_sub (V ! k) c = (z, c')" by fastforce
  have "sub_inv Z0 tot sub (Suc k) (Z[k := z], c')"
    using k Z reads_as_sub_inv [OF X k(2) inv] digit_sub_eq [OF zc]
    by (intro sub_inv_step [OF inv, where y = 0 and x = "unat (V ! k)"]) (simp_all add: tot_def sub_def dval_take_Suc)
  then show "ok (case s of (Z, borrow) \<Rightarrow> do {
     x \<leftarrow> rd (X Z) k; let (z, borrow) = digit_sub x borrow;
     Z \<leftarrow> wr Z k z; Some (Z, borrow) }) (sub_inv Z0 tot sub (Suc k))"
    using k Z reads_as_sub_inv [OF X k(2) inv] sub_inv_length [OF inv] zc by (simp add: s)
qed (use assms in auto)

lemma zero_from_eq:
  assumes "i \<le> length Z"
  shows "zero_from i Z = Some (take i Z @ replicate (length Z - i) 0)"
proof -
  have "ok (zero_from i Z) (\<lambda>Z'. Z' = take i Z @ replicate (length Z - i) 0)"
    unfolding zero_from_def
  proof (rule ok_for_up [where I = "\<lambda>k Z'. Z' = take i Z @ replicate (k - i) 0 @ drop k Z"])
    fix k Z' assume "i \<le> k" "k < length Z" "Z' = take i Z @ replicate (k - i) 0 @ drop k Z"
    then show "ok (wr Z' k 0) (\<lambda>Z'. Z' = take i Z @ replicate (Suc k - i) 0 @ drop (Suc k) Z)"
      by (simp add: list_update_append Suc_diff_le replicate_append_same [symmetric] Cons_nth_drop_Suc [symmetric])
  qed (use assms in auto)
  then show ?thesis by (auto dest: okE)
qed

lemma copy_loop_eq:
  assumes "i \<le> n" and "n \<le> length Z" and "n \<le> length X"
  shows "copy_loop X i n Z = Some (take i Z @ take (n - i) (drop i X) @ drop n Z)"
proof -
  have "ok (copy_loop X i n Z) (\<lambda>Z'. Z' = take i Z @ take (n - i) (drop i X) @ drop n Z)"
    unfolding copy_loop_def
  proof (rule ok_for_up [where I = "\<lambda>k Z'. Z' = take i Z @ take (k - i) (drop i X) @ drop k Z"])
    fix k Z' assume k: "i \<le> k" "k < n" and "Z' = take i Z @ take (k - i) (drop i X) @ drop k Z"
    then show "ok (do { x \<leftarrow> rd X k; wr Z' k x }) (\<lambda>Z'. Z' = take i Z @ take (Suc k - i) (drop i X) @ drop (Suc k) Z)"
      using assms
      by (auto simp: list_update_append Suc_diff_le take_Suc_conv_app_nth min_def
          Cons_nth_drop_Suc [symmetric, of k Z])
  qed (use assms in auto)
  then show ?thesis by (auto dest: okE)
qed

section \<open>Vector arithmetic\<close>

definition AddAndReturnOverflow :: "digits \<Rightarrow> digits \<Rightarrow> (digits \<times> digit_t) option" where
  "AddAndReturnOverflow Z X =
     (let X = Normalize X
      in if length X = 0 then Some (Z, 0)
         else do {
           (Z, carry) \<leftarrow> add3_loop (\<lambda>Z. Z) X 0 (length X) (Z, 0);
           (i, Z, carry) \<leftarrow> for_while (length X) (length Z) (\<lambda>(Z, carry). carry \<noteq> 0)
             (\<lambda>i (Z, carry). do {
                z \<leftarrow> rd Z i;
                let (z, carry) = digit_add2 z carry;
                Z \<leftarrow> wr Z i z;
                Some (Z, carry) }) (Z, carry);
           Some (Z, carry) })"

definition SubAndReturnBorrow :: "digits \<Rightarrow> digits \<Rightarrow> (digits \<times> digit_t) option" where
  "SubAndReturnBorrow Z X =
     (let X = Normalize X
      in if length X = 0 then Some (Z, 0)
         else do {
           (Z, borrow) \<leftarrow> sub2_loop (\<lambda>Z. Z) X 0 (length X) (Z, 0);
           (i, Z, borrow) \<leftarrow> for_while (length X) (length Z) (\<lambda>(Z, borrow). borrow \<noteq> 0)
             (\<lambda>i (Z, borrow). do {
                z \<leftarrow> rd Z i;
                let (z, borrow) = digit_sub z borrow;
                Z \<leftarrow> wr Z i z;
                Some (Z, borrow) }) (Z, borrow);
           Some (Z, borrow) })"

function Add :: "digits \<Rightarrow> digits \<Rightarrow> digits \<Rightarrow> digits option" where
  "Add Z X Y =
     (if length X < length Y then Add Z Y X
      else do {
        (Z, carry) \<leftarrow> add3_loop (\<lambda>_. X) Y 0 (length Y) (Z, 0);
        (Z, carry) \<leftarrow> add2_loop (\<lambda>_. X) (length Y) (length X) (Z, carry);
        (Z, carry) \<leftarrow> for_up (length X) (length Z) (\<lambda>i (Z, carry). do {
           Z \<leftarrow> wr Z i carry;
           Some (Z, 0) }) (Z, carry);
        Some Z })"
  by pat_completeness auto
termination
  by (relation "measure (\<lambda>(Z, X, Y). if length X < length Y then 1 else 0)") auto

declare Add.simps [simp del]

definition Subtract :: "digits \<Rightarrow> digits \<Rightarrow> digits \<Rightarrow> digits option" where
  "Subtract Z X Y =
     (let X = Normalize X; Y = Normalize Y
      in do {
        (Z, borrow) \<leftarrow> sub2_loop (\<lambda>_. X) Y 0 (length Y) (Z, 0);
        (Z, borrow) \<leftarrow> sub_loop (\<lambda>_. X) (length Y) (length X) (Z, borrow);
        zero_from (max (length Y) (length X)) Z })"

definition AddAndReturnCarry :: "digits \<Rightarrow> operand \<Rightarrow> digits \<Rightarrow> (digits \<times> digit_t) option" where
  "AddAndReturnCarry Z X Y = add3_loop X Y 0 (length Y) (Z, 0)"

definition SubtractAndReturnBorrow :: "digits \<Rightarrow> operand \<Rightarrow> digits \<Rightarrow> (digits \<times> digit_t) option" where
  "SubtractAndReturnBorrow Z X Y = sub2_loop X Y 0 (length Y) (Z, 0)"

definition AddSigned :: "digits \<Rightarrow> digits \<Rightarrow> bool \<Rightarrow> digits \<Rightarrow> bool \<Rightarrow> (digits \<times> bool) option" where
  "AddSigned Z X x_negative Y y_negative =
     (if x_negative = y_negative then do { Z \<leftarrow> Add Z X Y; Some (Z, x_negative) }
      else if GreaterThanOrEqual X Y then do { Z \<leftarrow> Subtract Z X Y; Some (Z, x_negative) }
      else do { Z \<leftarrow> Subtract Z Y X; Some (Z, \<not> x_negative) })"

definition SubtractSigned :: "digits \<Rightarrow> digits \<Rightarrow> bool \<Rightarrow> digits \<Rightarrow> bool \<Rightarrow> (digits \<times> bool) option" where
  "SubtractSigned Z X x_negative Y y_negative =
     (if x_negative \<noteq> y_negative then do { Z \<leftarrow> Add Z X Y; Some (Z, x_negative) }
      else if GreaterThanOrEqual X Y then do { Z \<leftarrow> Subtract Z X Y; Some (Z, x_negative) }
      else do { Z \<leftarrow> Subtract Z Y X; Some (Z, \<not> x_negative) })"

definition AddOne :: "digits \<Rightarrow> digits \<Rightarrow> digits option" where
  "AddOne Z X = do {
     (i, Z, carry) \<leftarrow> for_while 0 (length X) (\<lambda>(Z, carry). carry > 0)
       (\<lambda>i (Z, carry). do {
          x \<leftarrow> rd X i;
          let (z, carry) = digit_add2 x carry;
          Z \<leftarrow> wr Z i z;
          Some (Z, carry) }) (Z, 1);
     (i, Z) \<leftarrow> (if carry > 0 then do { Z \<leftarrow> wr Z i carry; Some (Suc i, Z) } else Some (i, Z));
     Z \<leftarrow> copy_loop X i (length X) Z;
     zero_from (max i (length X)) Z }"

text \<open>The borrow loop of \<open>SubtractOne\<close> and the carry loops of the in-place digit operations have
  no bound of their own: they run until the carry is gone, or out of the buffer.\<close>

function carry_until_zero :: "(digit_t \<Rightarrow> digit_t \<Rightarrow> digit_t \<times> digit_t) \<Rightarrow> operand \<Rightarrow> nat \<Rightarrow> digits \<times> digit_t \<Rightarrow>
    (nat \<times> digits \<times> digit_t) option" where
  "carry_until_zero f X i (Z, carry) =
     (if carry = 0 then Some (i, Z, carry)
      else do {
        x \<leftarrow> rd (X Z) i;
        let (z, carry) = f x carry;
        if i < length Z then carry_until_zero f X (Suc i) (Z[i := z], carry) else None })"
  by pat_completeness auto
termination
  by (relation "measure (\<lambda>(f, X, i, Z, carry). length Z - i)") auto

declare carry_until_zero.simps [simp del]

definition Add_digit :: "digits \<Rightarrow> digit_t \<Rightarrow> digits option" where
  "Add_digit X y = do {
     x \<leftarrow> rd X 0;
     let (x, carry) = digit_add2 x y;
     X \<leftarrow> wr X 0 x;
     (i, X, carry) \<leftarrow> carry_until_zero digit_add2 (\<lambda>X. X) 1 (X, carry);
     Some X }"

definition Subtract_digit :: "digits \<Rightarrow> digit_t \<Rightarrow> digits option" where
  "Subtract_digit X y = do {
     x \<leftarrow> rd X 0;
     let (x, borrow) = digit_sub x y;
     X \<leftarrow> wr X 0 x;
     (i, X, borrow) \<leftarrow> carry_until_zero digit_sub (\<lambda>X. X) 1 (X, borrow);
     Some X }"

definition SubtractOne :: "digits \<Rightarrow> digits \<Rightarrow> digits option" where
  "SubtractOne Z X = do {
     (i, Z, borrow) \<leftarrow> carry_until_zero digit_sub (\<lambda>_. X) 0 (Z, 1);
     Z \<leftarrow> copy_loop X i (length X) Z;
     zero_from (max i (length X)) Z }"

lemma carry_zero:
  fixes d p c s :: nat
  assumes "d + p * c = s" and "s < p"
  shows "c = 0" and "d = s"
proof -
  have "p * c < p" using assms by linarith
  then show "c = 0" by (cases c) auto
  with assms show "d = s" by simp
qed

lemma add3_loopE:
  assumes "reads_as X V Z0 n" and "n \<le> length Y" and "n \<le> length Z0" and "i \<le> n"
    and "add_inv Z0 1 (\<lambda>k. dval (take k V) + dval (take k Y) + a) i (Z, c)"
  obtains Z' c' where "add3_loop X Y i n (Z, c) = Some (Z', c')"
    and "add_inv Z0 1 (\<lambda>k. dval (take k V) + dval (take k Y) + a) n (Z', c')"
proof -
  have "ok (add3_loop X Y i n (Z, c)) (add_inv Z0 1 (\<lambda>k. dval (take k V) + dval (take k Y) + a) n)"
    by (rule ok_add3_loop [OF assms])
  with that show thesis by (auto simp: ok_def)
qed

lemma add2_loopE:
  assumes "reads_as X V Z0 n" and "n \<le> length Z0" and "i \<le> n" and "1 \<le> c0"
    and "add_inv Z0 c0 (\<lambda>k. dval (take k V) + a) i (Z, c)"
  obtains Z' c' where "add2_loop X i n (Z, c) = Some (Z', c')"
    and "add_inv Z0 c0 (\<lambda>k. dval (take k V) + a) n (Z', c')"
proof -
  have "ok (add2_loop X i n (Z, c)) (add_inv Z0 c0 (\<lambda>k. dval (take k V) + a) n)"
    by (rule ok_add2_loop [OF assms])
  with that show thesis by (auto simp: ok_def)
qed

lemma sub2_loopE:
  assumes "reads_as X V Z0 n" and "n \<le> length Y" and "n \<le> length Z0" and "i \<le> n"
    and "sub_inv Z0 (\<lambda>k. dval (take k V)) (\<lambda>k. dval (take k Y)) i (Z, c)"
  obtains Z' c' where "sub2_loop X Y i n (Z, c) = Some (Z', c')"
    and "sub_inv Z0 (\<lambda>k. dval (take k V)) (\<lambda>k. dval (take k Y)) n (Z', c')"
proof -
  have "ok (sub2_loop X Y i n (Z, c)) (sub_inv Z0 (\<lambda>k. dval (take k V)) (\<lambda>k. dval (take k Y)) n)"
    by (rule ok_sub2_loop [OF assms])
  with that show thesis by (auto simp: ok_def)
qed

lemma sub_loopE:
  assumes "reads_as X V Z0 n" and "n \<le> length Z0" and "i \<le> n"
    and "sub_inv Z0 (\<lambda>k. dval (take k V)) (\<lambda>k. a) i (Z, c)"
  obtains Z' c' where "sub_loop X i n (Z, c) = Some (Z', c')"
    and "sub_inv Z0 (\<lambda>k. dval (take k V)) (\<lambda>k. a) n (Z', c')"
proof -
  have "ok (sub_loop X i n (Z, c)) (sub_inv Z0 (\<lambda>k. dval (take k V)) (\<lambda>k. a) n)"
    by (rule ok_sub_loop [OF assms])
  with that show thesis by (auto simp: ok_def)
qed

lemma store_carry_loopE:
  assumes "add_inv Z0 1 (\<lambda>k. tot) i (Z, c)" and "i \<le> length Z0"
  obtains Z' c' where "for_up i (length Z0) (\<lambda>i (Z, carry). do { Z \<leftarrow> wr Z i carry; Some (Z, 0) }) (Z, c) = Some (Z', c')"
    and "add_inv Z0 1 (\<lambda>k. tot) (length Z0) (Z', c')"
proof -
  have "ok (for_up i (length Z0) (\<lambda>i (Z, carry). do { Z \<leftarrow> wr Z i carry; Some (Z, 0) }) (Z, c))
      (add_inv Z0 1 (\<lambda>k. tot) (length Z0))"
  proof (rule ok_for_up [where I = "add_inv Z0 1 (\<lambda>k. tot)"])
    fix k s assume k: "i \<le> k" "k < length Z0" and inv: "add_inv Z0 1 (\<lambda>k. tot) k s"
    obtain Z' c where s: "s = (Z', c)" by fastforce
    have "add_inv Z0 1 (\<lambda>k. tot) (Suc k) (Z'[k := c], 0)"
      using inv k by (intro add_inv_step [where t = 0]) (simp_all add: s)
    then show "ok (case s of (Z, carry) \<Rightarrow> do { Z \<leftarrow> wr Z k carry; Some (Z, 0) }) (add_inv Z0 1 (\<lambda>k. tot) (Suc k))"
      using add_inv_length [OF inv [unfolded s]] k by (simp add: s)
  qed (use assms in auto)
  with that show thesis by (auto simp: ok_def)
qed

lemma add_inv_init: "tot 0 = 0 \<Longrightarrow> add_inv Z c0 tot 0 (Z, 0)"
  by (simp add: add_inv_def)

lemma sub_inv_init: "tot 0 = 0 \<Longrightarrow> sub 0 = 0 \<Longrightarrow> sub_inv Z tot sub 0 (Z, 0)"
  by (simp add: sub_inv_def)

lemma add_inv_cong: "add_inv Z c0 f k s \<Longrightarrow> f k = g k \<Longrightarrow> add_inv Z c0 g k s"
  by (simp add: add_inv_def)

lemma sub_inv_cong: "sub_inv Z f h k s \<Longrightarrow> f k = f' k \<Longrightarrow> h k = h' k \<Longrightarrow> sub_inv Z f' h' k s"
  by (simp add: sub_inv_def)

lemma Add_spec_ge:
  assumes "length Y \<le> length X" and "length X \<le> length Z" and "dval X + dval Y < digit_base ^ length Z"
  shows "\<exists>Z'. Add Z X Y = Some Z' \<and> length Z' = length Z \<and> dval Z' = dval X + dval Y"
proof -
  obtain Z1 c1 where 1: "add3_loop (\<lambda>_. X) Y 0 (length Y) (Z, 0) = Some (Z1, c1)"
    and inv1: "add_inv Z 1 (\<lambda>k. dval (take k X) + dval (take k Y) + 0) (length Y) (Z1, c1)"
    by (rule add3_loopE [of "\<lambda>_. X" X Z "length Y" Y 0 0 Z 0]) (use assms in \<open>auto simp: reads_as_const add_inv_init\<close>)
  have "add_inv Z 1 (\<lambda>k. dval (take k X) + dval Y) (length Y) (Z1, c1)"
    by (rule add_inv_cong [OF inv1]) simp
  from add2_loopE [OF reads_as_const [OF order_refl] assms(2,1) order_refl this]
  obtain Z2 c2 where 2: "add2_loop (\<lambda>_. X) (length Y) (length X) (Z1, c1) = Some (Z2, c2)"
    and inv2: "add_inv Z 1 (\<lambda>k. dval (take k X) + dval Y) (length X) (Z2, c2)" .
  have "add_inv Z 1 (\<lambda>k. dval X + dval Y) (length X) (Z2, c2)"
    by (rule add_inv_cong [OF inv2]) simp
  from store_carry_loopE [OF this assms(2)]
  obtain Z3 c3 where 3: "for_up (length X) (length Z) (\<lambda>i (Z, carry). do { Z \<leftarrow> wr Z i carry; Some (Z, 0) }) (Z2, c2) = Some (Z3, c3)"
    and inv3: "add_inv Z 1 (\<lambda>k. dval X + dval Y) (length Z) (Z3, c3)" .
  have "Add Z X Y = Some Z3"
    using assms(1) 1 2 3 add_inv_length [OF inv2] by (simp add: Add.simps [of Z X Y])
  then show ?thesis
    using add_inv_length [OF inv3] carry_zero(2) [OF add_inv_val [OF inv3]] assms(3) by simp
qed

theorem Add_spec:
  assumes "length X \<le> length Z" and "length Y \<le> length Z" and "dval X + dval Y < digit_base ^ length Z"
  shows "\<exists>Z'. Add Z X Y = Some Z' \<and> length Z' = length Z \<and> dval Z' = dval X + dval Y"
proof (cases "length X < length Y")
  case True
  then have "Add Z X Y = Add Z Y X" by (simp add: Add.simps [of Z X Y])
  with Add_spec_ge [of X Y Z] True assms show ?thesis by (simp add: add.commute)
next
  case False
  with Add_spec_ge [of Y X Z] assms show ?thesis by simp
qed

lemma sub2_sub_loops:
  assumes "length Y \<le> length X" and "length X \<le> length Z"
  obtains Z1 c1 Z2 c2 where "sub2_loop (\<lambda>_. X) Y 0 (length Y) (Z, 0) = Some (Z1, c1)"
    and "sub_loop (\<lambda>_. X) (length Y) (length X) (Z1, c1) = Some (Z2, c2)"
    and "sub_inv Z (\<lambda>k. dval (take k X)) (\<lambda>k. dval Y) (length X) (Z2, c2)"
proof -
  have "sub_inv Z (\<lambda>k. dval (take k X)) (\<lambda>k. dval (take k Y)) 0 (Z, 0)"
    by (rule sub_inv_init) simp_all
  from sub2_loopE [OF reads_as_const [OF assms(1)] order_refl le_trans [OF assms] le0 this]
  obtain Z1 c1 where 1: "sub2_loop (\<lambda>_. X) Y 0 (length Y) (Z, 0) = Some (Z1, c1)"
    and inv1: "sub_inv Z (\<lambda>k. dval (take k X)) (\<lambda>k. dval (take k Y)) (length Y) (Z1, c1)" .
  have "sub_inv Z (\<lambda>k. dval (take k X)) (\<lambda>k. dval Y) (length Y) (Z1, c1)"
    by (rule sub_inv_cong [OF inv1]) simp_all
  from sub_loopE [OF reads_as_const [OF order_refl] assms(2,1) this] that [OF 1]
  show thesis by blast
qed

lemma borrow_zero:
  fixes d p y x c :: nat
  assumes "d + y = x + p * c" and "y \<le> x" and "d < p"
  shows "c = 0" and "d = x - y"
proof -
  have "p * c < p" using assms by linarith
  then show "c = 0" by (cases c) auto
  with assms show "d = x - y" by simp
qed

theorem Subtract_spec:
  assumes "length (Normalize X) \<le> length Z" and "dval Y \<le> dval X"
  shows "\<exists>Z'. Subtract Z X Y = Some Z' \<and> length Z' = length Z \<and> dval Z' = dval X - dval Y"
proof -
  let ?X = "Normalize X" and ?Y = "Normalize Y"
  have le: "length ?Y \<le> length ?X"
  proof (rule ccontr)
    assume "\<not> length ?Y \<le> length ?X"
    then have "dval X < dval Y" using normalized_length_less [of ?Y ?X] by simp
    with assms(2) show False by simp
  qed
  obtain Z1 c1 Z2 c2 where 1: "sub2_loop (\<lambda>_. ?X) ?Y 0 (length ?Y) (Z, 0) = Some (Z1, c1)"
    and 2: "sub_loop (\<lambda>_. ?X) (length ?Y) (length ?X) (Z1, c1) = Some (Z2, c2)"
    and inv: "sub_inv Z (\<lambda>k. dval (take k ?X)) (\<lambda>k. dval ?Y) (length ?X) (Z2, c2)"
    using sub2_sub_loops [OF le assms(1)] by blast
  note len = sub_inv_length [OF inv]
  have "dval (take (length ?X) Z2) = dval X - dval Y"
  proof (rule borrow_zero(2))
    show "dval (take (length ?X) Z2) + dval Y = dval X + digit_base ^ length ?X * unat c2"
      using sub_inv_val [OF inv] by simp
    show "dval (take (length ?X) Z2) < digit_base ^ length ?X"
      using dval_lt [of "take (length ?X) Z2"] assms(1) len by simp
  qed (rule assms(2))
  then show ?thesis
    using 1 2 le assms(1) len
    by (simp add: Subtract_def Let_def zero_from_eq max_def)
qed

lemma add_inv_whole:
  assumes inv: "add_inv Z0 c0 (\<lambda>k. dval (take k Z0) + a) k (Z, c)" and "k \<le> length Z0" and "k = length Z0 \<or> c = 0"
  shows "dval Z + digit_base ^ length Z0 * unat c = dval Z0 + a"
proof -
  have "dval Z = dval (take k Z) + digit_base ^ k * dval (drop k Z0)"
    using dval_take_drop [of Z k] add_inv_drop [OF inv] by simp
  moreover have "dval Z0 = dval (take k Z0) + digit_base ^ k * dval (drop k Z0)"
    by (rule dval_take_drop)
  moreover have "dval (drop k Z0) = 0 \<or> c = 0" using assms(3) by auto
  ultimately show ?thesis
    using add_inv_val [OF inv] assms(3) by auto
qed

lemma sub_inv_whole:
  assumes inv: "sub_inv Z0 (\<lambda>k. dval (take k Z0)) (\<lambda>k. a) k (Z, c)" and "k \<le> length Z0" and "k = length Z0 \<or> c = 0"
  shows "dval Z + a = dval Z0 + digit_base ^ length Z0 * unat c"
proof -
  have "dval Z = dval (take k Z) + digit_base ^ k * dval (drop k Z0)"
    using dval_take_drop [of Z k] sub_inv_drop [OF inv] by simp
  moreover have "dval Z0 = dval (take k Z0) + digit_base ^ k * dval (drop k Z0)"
    by (rule dval_take_drop)
  moreover have "dval (drop k Z0) = 0 \<or> c = 0" using assms(3) by auto
  ultimately show ?thesis
    using sub_inv_val [OF inv] assms(3) by auto
qed

lemma add2_inplace_step:
  assumes "add_inv Z0 1 (\<lambda>k. dval (take k Z0) + a) k (Z, c)" and "k < length Z0"
    and "digit_add2 (Z ! k) c = (z, c')"
  shows "add_inv Z0 1 (\<lambda>k. dval (take k Z0) + a) (Suc k) (Z[k := z], c')"
proof -
  have "Z ! k = Z0 ! k"
    using add_inv_drop [OF assms(1)] assms(2) by (rule nth_drop_eq)
  then show ?thesis
    using assms digit_add2_eq [OF assms(3)] add2_carry_le [OF assms(3)]
    by (intro add_inv_step [OF assms(1)]) (auto simp: dval_take_Suc)
qed

lemma sub_read_step:
  assumes "sub_inv Z0 (\<lambda>k. dval (take k V)) (\<lambda>k. a) k (Z, c)" and "k < length Z0" and "k < length V"
    and "digit_sub (V ! k) c = (z, c')"
  shows "sub_inv Z0 (\<lambda>k. dval (take k V)) (\<lambda>k. a) (Suc k) (Z[k := z], c')"
  using assms digit_sub_eq [OF assms(4)]
  by (intro sub_inv_step [OF assms(1), where y = 0 and x = "unat (V ! k)"]) (simp_all add: dval_take_Suc)

theorem AddAndReturnOverflow_spec:
  assumes "length (Normalize X) \<le> length Z"
  shows "\<exists>Z' c. AddAndReturnOverflow Z X = Some (Z', c) \<and> length Z' = length Z \<and> unat c \<le> 1 \<and>
           dval Z' + digit_base ^ length Z * unat c = dval Z + dval X"
proof (cases "length (Normalize X) = 0")
  case True
  then have "dval X = 0" by (metis dval_Normalize dval.simps(1) length_0_conv)
  with True show ?thesis by (simp add: AddAndReturnOverflow_def)
next
  case False
  let ?X = "Normalize X" and ?tot = "\<lambda>k. dval (take k Z) + dval X"
  have "add_inv Z 1 (\<lambda>k. dval (take k Z) + dval (take k ?X) + 0) 0 (Z, 0)" by (rule add_inv_init) simp
  from add3_loopE [OF reads_as_self [OF assms] order_refl assms le0 this]
  obtain Z1 c1 where 1: "add3_loop (\<lambda>Z. Z) ?X 0 (length ?X) (Z, 0) = Some (Z1, c1)"
    and inv1: "add_inv Z 1 (\<lambda>k. dval (take k Z) + dval (take k ?X) + 0) (length ?X) (Z1, c1)" .
  have inv1: "add_inv Z 1 ?tot (length ?X) (Z1, c1)" by (rule add_inv_cong [OF inv1]) simp
  have len: "length Z1 = length Z" by (rule add_inv_length [OF inv1])
  have "ok (for_while (length ?X) (length Z1) (\<lambda>(Z, carry). carry \<noteq> 0)
     (\<lambda>i (Z, carry). do { z \<leftarrow> rd Z i; let (z, carry) = digit_add2 z carry; Z \<leftarrow> wr Z i z; Some (Z, carry) }) (Z1, c1))
     (\<lambda>(k, Z', c). length Z' = length Z \<and> unat c \<le> 1 \<and> dval Z' + digit_base ^ length Z * unat c = dval Z + dval X)"
  proof (rule ok_for_while [where I = "add_inv Z 1 ?tot"])
    fix k s assume k: "length ?X \<le> k" "k < length Z1" and inv: "add_inv Z 1 ?tot k s"
    obtain Z2 c2 where s: "s = (Z2, c2)" by fastforce
    obtain z c3 where zc: "digit_add2 (Z2 ! k) c2 = (z, c3)" by fastforce
    show "ok (case s of (Z, carry) \<Rightarrow> do { z \<leftarrow> rd Z k; let (z, carry) = digit_add2 z carry; Z \<leftarrow> wr Z k z; Some (Z, carry) })
      (add_inv Z 1 ?tot (Suc k))"
      using add2_inplace_step [OF inv [unfolded s] _ zc] k len add_inv_length [OF inv [unfolded s]]
      by (simp add: s zc)
  next
    fix k s assume k: "length ?X \<le> k" "k \<le> length Z1" and stop: "k = length Z1 \<or> \<not> (case s of (Z, carry) \<Rightarrow> carry \<noteq> 0)"
      and inv: "add_inv Z 1 ?tot k s"
    obtain Z2 c2 where s: "s = (Z2, c2)" by fastforce
    show "case (k, s) of (k, Z', c) \<Rightarrow> length Z' = length Z \<and> unat c \<le> 1 \<and>
        dval Z' + digit_base ^ length Z * unat c = dval Z + dval X"
      using add_inv_whole [OF inv [unfolded s]] add_inv_length [OF inv [unfolded s]] add_inv_carry [OF inv [unfolded s]]
        k stop len by (auto simp: s)
  qed (use inv1 assms len in auto)
  with 1 False show ?thesis
    by (auto simp: AddAndReturnOverflow_def Let_def dest!: okE)
qed

lemma carry_until_zero_rule:
  assumes "I i (Z, c)"
    and "\<And>k Z c z c'. i \<le> k \<Longrightarrow> I k (Z, c) \<Longrightarrow> c \<noteq> 0 \<Longrightarrow> k < length (X Z) \<and> k < length Z"
    and "\<And>k Z c z c'. i \<le> k \<Longrightarrow> I k (Z, c) \<Longrightarrow> c \<noteq> 0 \<Longrightarrow> f (X Z ! k) c = (z, c') \<Longrightarrow> I (Suc k) (Z[k := z], c')"
  shows "\<exists>k Z'. carry_until_zero f X i (Z, c) = Some (k, Z', 0) \<and> i \<le> k \<and> I k (Z', 0)"
  using assms
proof (induction f X i Z c rule: carry_until_zero.induct [split_format (complete)])
  case (1 f X i Z c)
  show ?case
  proof (cases "c = 0")
    case True
    with "1.prems" show ?thesis by (auto simp: carry_until_zero.simps [of f X i Z 0])
  next
    case False
    obtain z c' where zc: "f (X Z ! i) c = (z, c')" by fastforce
    have b: "i < length (X Z)" "i < length Z" using "1.prems"(2) [OF order_refl "1.prems"(1) False] by auto
    have "\<exists>k Z'. carry_until_zero f X (Suc i) (Z[i := z], c') = Some (k, Z', 0) \<and> Suc i \<le> k \<and> I k (Z', 0)"
    proof (rule "1.IH" [OF False])
      show "rd (X Z) i = Some (X Z ! i)" using b by (simp add: rd_def)
      show "I (Suc i) (Z[i := z], c')" by (rule "1.prems"(3) [OF order_refl "1.prems"(1) False zc])
    qed (use b zc "1.prems"(2,3) in \<open>auto simp: rd_def\<close>)
    with False b zc show ?thesis
      by (auto simp: carry_until_zero.simps [of f X i Z c] rd_def intro: Suc_leD)
  qed
qed

theorem SubAndReturnBorrow_spec:
  assumes "length (Normalize X) \<le> length Z"
  shows "\<exists>Z' c. SubAndReturnBorrow Z X = Some (Z', c) \<and> length Z' = length Z \<and> unat c \<le> 1 \<and>
           dval Z' + dval X = dval Z + digit_base ^ length Z * unat c"
proof (cases "length (Normalize X) = 0")
  case True
  then have "dval X = 0" by (metis dval_Normalize dval.simps(1) length_0_conv)
  with True show ?thesis by (simp add: SubAndReturnBorrow_def)
next
  case False
  let ?X = "Normalize X" and ?inv = "sub_inv Z (\<lambda>k. dval (take k Z)) (\<lambda>k. dval X)"
  have "sub_inv Z (\<lambda>k. dval (take k Z)) (\<lambda>k. dval (take k ?X)) 0 (Z, 0)" by (rule sub_inv_init) simp_all
  from sub2_loopE [OF reads_as_self [OF assms] order_refl assms le0 this]
  obtain Z1 c1 where 1: "sub2_loop (\<lambda>Z. Z) ?X 0 (length ?X) (Z, 0) = Some (Z1, c1)"
    and inv1: "sub_inv Z (\<lambda>k. dval (take k Z)) (\<lambda>k. dval (take k ?X)) (length ?X) (Z1, c1)" .
  have inv1: "?inv (length ?X) (Z1, c1)" by (rule sub_inv_cong [OF inv1]) simp_all
  have len: "length Z1 = length Z" by (rule sub_inv_length [OF inv1])
  have "ok (for_while (length ?X) (length Z1) (\<lambda>(Z, borrow). borrow \<noteq> 0)
     (\<lambda>i (Z, borrow). do { z \<leftarrow> rd Z i; let (z, borrow) = digit_sub z borrow; Z \<leftarrow> wr Z i z; Some (Z, borrow) }) (Z1, c1))
     (\<lambda>(k, Z', c). length Z' = length Z \<and> unat c \<le> 1 \<and> dval Z' + dval X = dval Z + digit_base ^ length Z * unat c)"
  proof (rule ok_for_while [where I = ?inv])
    fix k s assume k: "length ?X \<le> k" "k < length Z1" and inv: "?inv k s"
    obtain Z2 c2 where s: "s = (Z2, c2)" by fastforce
    have "Z2 ! k = Z ! k"
      using sub_inv_drop [OF inv [unfolded s]] k len by (intro nth_drop_eq) simp_all
    moreover obtain z c3 where zc: "digit_sub (Z ! k) c2 = (z, c3)" by fastforce
    ultimately show "ok (case s of (Z, borrow) \<Rightarrow> do { z \<leftarrow> rd Z k; let (z, borrow) = digit_sub z borrow; Z \<leftarrow> wr Z k z; Some (Z, borrow) })
      (?inv (Suc k))"
      using sub_read_step [OF inv [unfolded s] _ _ zc] k len sub_inv_length [OF inv [unfolded s]]
      by (simp add: s)
  next
    fix k s assume k: "length ?X \<le> k" "k \<le> length Z1" and stop: "k = length Z1 \<or> \<not> (case s of (Z, borrow) \<Rightarrow> borrow \<noteq> 0)"
      and inv: "?inv k s"
    obtain Z2 c2 where s: "s = (Z2, c2)" by fastforce
    show "case (k, s) of (k, Z', c) \<Rightarrow> length Z' = length Z \<and> unat c \<le> 1 \<and>
        dval Z' + dval X = dval Z + digit_base ^ length Z * unat c"
      using sub_inv_whole [OF inv [unfolded s]] sub_inv_length [OF inv [unfolded s]] sub_inv_borrow [OF inv [unfolded s]]
        k stop len by (auto simp: s)
  qed (use inv1 assms len in auto)
  with 1 False show ?thesis
    by (auto simp: SubAndReturnBorrow_def Let_def dest!: okE)
qed

lemma Add_digit_spec:
  assumes "dval X + unat y < digit_base ^ length X" and "X \<noteq> []"
  shows "\<exists>X'. Add_digit X y = Some X' \<and> length X' = length X \<and> dval X' = dval X + unat y"
proof -
  let ?inv = "add_inv X 1 (\<lambda>k. dval (take k X) + unat y)"
  obtain z c where zc: "digit_add2 (X ! 0) y = (z, c)" by fastforce
  obtain x xs where X: "X = x # xs" using assms(2) by (cases X) auto
  have inv1: "?inv 1 (X[0 := z], c)"
    using digit_add2_eq [OF zc] add2_carry_le [OF zc] by (simp add: X add_inv_def)
  have "\<exists>k Z'. carry_until_zero digit_add2 (\<lambda>X. X) 1 (X[0 := z], c) = Some (k, Z', 0) \<and> 1 \<le> k \<and> (?inv k (Z', 0) \<and> k \<le> length X)"
  proof (rule carry_until_zero_rule [where I = "\<lambda>k s. ?inv k s \<and> k \<le> length X"])
    fix k Z c assume inv: "?inv k (Z, c) \<and> k \<le> length X" and c: "c \<noteq> 0"
    have "k \<noteq> length X"
    proof
      assume "k = length X"
      then have "unat c = 0"
        using carry_zero(1) [OF add_inv_val [of X 1 _ k Z c]] inv assms(1) by fastforce
      with c show False by (simp add: unat_eq_0)
    qed
    then show "k < length Z \<and> k < length Z" using inv add_inv_length [of X 1 _ k Z c] by force
    fix z c' assume "digit_add2 (Z ! k) c = (z, c')"
    with inv \<open>k \<noteq> length X\<close> show "?inv (Suc k) (Z[k := z], c') \<and> Suc k \<le> length X"
      using add2_inplace_step by (metis Suc_leI le_neq_implies_less)
  qed (use inv1 assms(2) in \<open>auto simp: Suc_le_eq\<close>)
  then obtain k Z' where Z': "carry_until_zero digit_add2 (\<lambda>X. X) 1 (X[0 := z], c) = Some (k, Z', 0)"
    and inv: "?inv k (Z', 0)" "k \<le> length X" by blast
  have "Add_digit X y = Some Z'"
    using Z' assms(2) by (simp add: Add_digit_def rd_def wr_def zc)
  then show ?thesis
    using add_inv_whole [OF inv] add_inv_length [OF inv(1)] by simp
qed

lemma sub_until_zero:
  assumes inv: "sub_inv Z0 (\<lambda>k. dval (take k V)) (\<lambda>k. a) i (Z, c)" and "i \<le> length V" and "length V \<le> length Z0"
    and a: "a \<le> dval V" and X: "reads_as X V Z0 (length V)"
  shows "\<exists>k Z'. carry_until_zero digit_sub X i (Z, c) = Some (k, Z', 0) \<and> i \<le> k \<and>
           (sub_inv Z0 (\<lambda>k. dval (take k V)) (\<lambda>k. a) k (Z', 0) \<and> k \<le> length V)"
proof (rule carry_until_zero_rule [where I = "\<lambda>k s. sub_inv Z0 (\<lambda>k. dval (take k V)) (\<lambda>k. a) k s \<and> k \<le> length V"])
  fix k Z c assume inv: "sub_inv Z0 (\<lambda>k. dval (take k V)) (\<lambda>k. a) k (Z, c) \<and> k \<le> length V" and c: "c \<noteq> 0"
  have k: "k < length V"
  proof (rule ccontr)
    assume "\<not> k < length V"
    then have k: "k = length V" using inv by simp
    have "dval (take k Z) + a = dval V + digit_base ^ k * unat c"
      using sub_inv_val [OF conjunct1 [OF inv]] k by simp
    moreover have "dval (take k Z) < digit_base ^ k"
      using dval_lt [of "take k Z"] k assms(3) sub_inv_length [OF conjunct1 [OF inv]] by simp
    ultimately have "unat c = 0" using a by (intro borrow_zero(1))
    with c show False by (simp add: unat_eq_0)
  qed
  note rds = reads_as_sub_inv [OF X k conjunct1 [OF inv]]
  show "k < length (X Z) \<and> k < length Z"
    using rds k assms(3) sub_inv_length [OF conjunct1 [OF inv]] by simp
  fix z c' assume "digit_sub (X Z ! k) c = (z, c')"
  then show "sub_inv Z0 (\<lambda>k. dval (take k V)) (\<lambda>k. a) (Suc k) (Z[k := z], c') \<and> Suc k \<le> length V"
    using sub_read_step [OF conjunct1 [OF inv], of z c'] rds k assms(3) by simp
qed (use inv assms(2) in auto)

theorem SubtractOne_spec:
  assumes "length X \<le> length Z" and "0 < dval X"
  shows "\<exists>Z'. SubtractOne Z X = Some Z' \<and> length Z' = length Z \<and> dval Z' = dval X - 1"
proof -
  have "sub_inv Z (\<lambda>k. dval (take k X)) (\<lambda>k. 1) 0 (Z, 1)"
    by (simp add: sub_inv_def)
  from sub_until_zero [OF this _ assms(1) _ reads_as_const [OF order_refl]] assms(2)
  obtain k Z1 where 1: "carry_until_zero digit_sub (\<lambda>_. X) 0 (Z, 1) = Some (k, Z1, 0)"
    and inv: "sub_inv Z (\<lambda>k. dval (take k X)) (\<lambda>k. 1) k (Z1, 0)" and k: "k \<le> length X" by auto
  have len: "length Z1 = length Z" by (rule sub_inv_length [OF inv])
  define Z2 where "Z2 = take k Z1 @ take (length X - k) (drop k X) @ drop (length X) Z1"
  have Z2: "copy_loop X k (length X) Z1 = Some Z2" "length Z2 = length Z"
    using k len assms(1) by (simp_all add: Z2_def copy_loop_eq)
  have "dval (take (length X) Z2) = dval (take k Z1) + digit_base ^ k * dval (drop k X)"
    using k len assms(1) by (simp add: Z2_def)
  moreover have "dval (take k Z1) + 1 = dval (take k X)" using sub_inv_val [OF inv] by simp
  ultimately have "dval (take (length X) Z2) = dval X - 1" using dval_take_drop [of X k] by simp
  with 1 Z2 k assms(1) show ?thesis
    by (simp add: SubtractOne_def zero_from_eq max_def)
qed

lemma Subtract_digit_spec:
  assumes "unat y \<le> dval X" and "X \<noteq> []"
  shows "\<exists>X'. Subtract_digit X y = Some X' \<and> length X' = length X \<and> dval X' = dval X - unat y"
proof -
  obtain z c where zc: "digit_sub (X ! 0) y = (z, c)" by fastforce
  obtain x xs where X: "X = x # xs" using assms(2) by (cases X) auto
  have inv1: "sub_inv X (\<lambda>k. dval (take k X)) (\<lambda>k. unat y) 1 (X[0 := z], c)"
    using digit_sub_eq [OF zc] by (simp add: X sub_inv_def)
  from sub_until_zero [OF inv1 _ order_refl assms(1) reads_as_self [OF order_refl]] assms(2)
  obtain k Z' where Z': "carry_until_zero digit_sub (\<lambda>X. X) 1 (X[0 := z], c) = Some (k, Z', 0)"
    and inv: "sub_inv X (\<lambda>k. dval (take k X)) (\<lambda>k. unat y) k (Z', 0)" "k \<le> length X"
    by (auto simp: Suc_le_eq)
  have "Subtract_digit X y = Some Z'"
    using Z' assms(2) by (simp add: Subtract_digit_def rd_def wr_def zc)
  then show ?thesis
    using sub_inv_whole [OF inv] sub_inv_length [OF inv(1)] by simp
qed

theorem AddOne_spec:
  assumes "length X \<le> length Z" and "dval X + 1 < digit_base ^ length Z"
  shows "\<exists>Z'. AddOne Z X = Some Z' \<and> length Z' = length Z \<and> dval Z' = dval X + 1"
proof -
  let ?inv = "add_inv Z 1 (\<lambda>k. dval (take k X) + 1)"
  have "ok (for_while 0 (length X) (\<lambda>(Z, carry). carry > 0)
       (\<lambda>i (Z, carry). do { x \<leftarrow> rd X i; let (z, carry) = digit_add2 x carry; Z \<leftarrow> wr Z i z; Some (Z, carry) }) (Z, 1))
       (\<lambda>(k, Z1, c). ?inv k (Z1, c) \<and> k \<le> length X \<and> (k = length X \<or> c = 0))"
  proof (rule ok_for_while [where I = ?inv])
    fix k s assume k: "k < length X" and inv: "?inv k s"
    obtain Z2 c2 where s: "s = (Z2, c2)" by fastforce
    obtain z c3 where zc: "digit_add2 (X ! k) c2 = (z, c3)" by fastforce
    have "?inv (Suc k) (Z2[k := z], c3)"
      using inv k assms(1) digit_add2_eq [OF zc] add2_carry_le [OF zc]
      by (intro add_inv_step [where t = "unat (X ! k)"]) (auto simp: s dval_take_Suc)
    then show "ok (case s of (Z, carry) \<Rightarrow> do { x \<leftarrow> rd X k; let (z, carry) = digit_add2 x carry; Z \<leftarrow> wr Z k z; Some (Z, carry) })
      (?inv (Suc k))"
      using k assms(1) add_inv_length [OF inv [unfolded s]] by (simp add: s zc)
  qed (auto simp: add_inv_def word_gt_0)
  then obtain k Z1 c where 1: "for_while 0 (length X) (\<lambda>(Z, carry). carry > 0)
       (\<lambda>i (Z, carry). do { x \<leftarrow> rd X i; let (z, carry) = digit_add2 x carry; Z \<leftarrow> wr Z i z; Some (Z, carry) }) (Z, 1)
       = Some (k, Z1, c)" and inv: "?inv k (Z1, c)" and k: "k \<le> length X" "k = length X \<or> c = 0"
    by (auto dest!: okE)
  have len: "length Z1 = length Z" by (rule add_inv_length [OF inv])
  note val = add_inv_val [OF inv]
  show ?thesis
  proof (cases "c = 0")
    case True
    define Z2 where "Z2 = take k Z1 @ take (length X - k) (drop k X) @ drop (length X) Z1"
    have Z2: "copy_loop X k (length X) Z1 = Some Z2" "length Z2 = length Z"
      using k len assms(1) by (simp_all add: Z2_def copy_loop_eq)
    have "dval (take (length X) Z2) = dval (take k Z1) + digit_base ^ k * dval (drop k X)"
      using k len assms(1) by (simp add: Z2_def)
    then have "dval (take (length X) Z2) = dval X + 1"
      using dval_take_drop [of X k] val True by simp
    with 1 Z2 k assms(1) True show ?thesis
      by (simp add: AddOne_def zero_from_eq max_def)
  next
    case False
    then have k: "k = length X" using k by simp
    then have tot: "dval (take k Z1) + digit_base ^ k * unat c = dval X + 1" using val by simp
    have "k < length Z"
    proof (rule ccontr)
      assume "\<not> k < length Z"
      then have "k = length Z" using k assms(1) by simp
      then have "unat c = 0" using carry_zero(1) [OF tot] assms(2) by simp
      with False show False by (simp add: unat_eq_0)
    qed
    have "copy_loop X (Suc k) (length X) (Z1[k := c]) = Some (Z1[k := c])"
      by (simp add: copy_loop_def for_up.simps k)
    moreover have "zero_from (Suc k) (Z1[k := c]) = Some (take k Z1 @ [c] @ replicate (length Z - Suc k) 0)"
      using \<open>k < length Z\<close> len by (simp add: zero_from_eq)
    ultimately show ?thesis
      using 1 False k \<open>k < length Z\<close> len tot by (simp add: AddOne_def word_gt_0 wr_def max_def)
  qed
qed

definition sval :: "bool \<Rightarrow> digits \<Rightarrow> int" where
  "sval negative X = (if negative then - int (dval X) else int (dval X))"

lemma Subtract_larger:
  assumes "length X \<le> length Z" and "dval Y \<le> dval X"
  obtains Z' where "Subtract Z X Y = Some Z'" and "length Z' = length Z"
    and "int (dval Z') = int (dval X) - int (dval Y)"
proof -
  have "length (Normalize X) \<le> length Z" using length_Normalize [of X] assms(1) by linarith
  from Subtract_spec [OF this assms(2)] that assms(2) show thesis
    by (metis of_nat_diff)
qed

theorem AddSigned_spec:
  assumes "length X \<le> length Z" and "length Y \<le> length Z"
    and "x_negative = y_negative \<Longrightarrow> dval X + dval Y < digit_base ^ length Z"
  shows "\<exists>Z' neg. AddSigned Z X x_negative Y y_negative = Some (Z', neg) \<and> length Z' = length Z \<and>
           sval neg Z' = sval x_negative X + sval y_negative Y"
proof (cases "x_negative = y_negative")
  case True
  with Add_spec [OF assms(1,2)] assms(3)
  obtain Z' where "Add Z X Y = Some Z'" "length Z' = length Z" "dval Z' = dval X + dval Y" by auto
  with True show ?thesis by (simp add: AddSigned_def sval_def)
next
  case neq: False
  show ?thesis
  proof (cases "GreaterThanOrEqual X Y")
    case True
    then have "dval Y \<le> dval X" by (simp add: GreaterThanOrEqual_iff)
    from Subtract_larger [OF assms(1) this]
    obtain Z' where "Subtract Z X Y = Some Z'" "length Z' = length Z" "int (dval Z') = int (dval X) - int (dval Y)" .
    with neq True show ?thesis by (simp add: AddSigned_def sval_def)
  next
    case False
    then have "dval X \<le> dval Y" by (simp add: GreaterThanOrEqual_iff)
    from Subtract_larger [OF assms(2) this]
    obtain Z' where "Subtract Z Y X = Some Z'" "length Z' = length Z" "int (dval Z') = int (dval Y) - int (dval X)" .
    with neq False show ?thesis by (simp add: AddSigned_def sval_def)
  qed
qed

theorem SubtractSigned_spec:
  assumes "length X \<le> length Z" and "length Y \<le> length Z"
    and "x_negative \<noteq> y_negative \<Longrightarrow> dval X + dval Y < digit_base ^ length Z"
  shows "\<exists>Z' neg. SubtractSigned Z X x_negative Y y_negative = Some (Z', neg) \<and> length Z' = length Z \<and>
           sval neg Z' = sval x_negative X - sval y_negative Y"
proof (cases "x_negative = y_negative")
  case False
  with Add_spec [OF assms(1,2)] assms(3)
  obtain Z' where "Add Z X Y = Some Z'" "length Z' = length Z" "dval Z' = dval X + dval Y" by auto
  with False show ?thesis by (simp add: SubtractSigned_def sval_def)
next
  case eq: True
  show ?thesis
  proof (cases "GreaterThanOrEqual X Y")
    case True
    then have "dval Y \<le> dval X" by (simp add: GreaterThanOrEqual_iff)
    from Subtract_larger [OF assms(1) this]
    obtain Z' where "Subtract Z X Y = Some Z'" "length Z' = length Z" "int (dval Z') = int (dval X) - int (dval Y)" .
    with eq True show ?thesis by (simp add: SubtractSigned_def sval_def)
  next
    case False
    then have "dval X \<le> dval Y" by (simp add: GreaterThanOrEqual_iff)
    from Subtract_larger [OF assms(2) this]
    obtain Z' where "Subtract Z Y X = Some Z'" "length Z' = length Z" "int (dval Z') = int (dval Y) - int (dval X)" .
    with eq False show ?thesis by (simp add: SubtractSigned_def sval_def)
  qed
qed

section \<open>Properties\<close>

text \<open>
  C26.  Signed addition of sign-magnitude numbers stays within its buffers and returns the magnitude and
  the sign of the exact sum, for every combination of signs; only an addition of magnitudes needs room for
  the sum in the destination.
\<close>
theorem AddSigned_correct:
  assumes "length X \<le> length Z" and "length Y \<le> length Z"
    and "x_negative = y_negative \<Longrightarrow> dval X + dval Y < digit_base ^ length Z"
  shows "\<exists>Z' neg. AddSigned Z X x_negative Y y_negative = Some (Z', neg) \<and> length Z' = length Z \<and>
           sval neg Z' = sval x_negative X + sval y_negative Y"
  by (rule AddSigned_spec [OF assms])

theorem AddSigned_correct_witness:
  "\<exists>Z' neg. AddSigned [3, 3] [5] False [0, 7] True = Some (Z', neg) \<and> length Z' = length [3, 3 :: digit_t] \<and>
     sval neg Z' = sval False [5] + sval True [0, 7]"
  by (rule AddSigned_correct) simp_all

text \<open>
  C27.  Signed subtraction stays within its buffers and returns the magnitude and the sign of the
  exact difference.
\<close>
theorem SubtractSigned_correct:
  assumes "length X \<le> length Z" and "length Y \<le> length Z"
    and "x_negative \<noteq> y_negative \<Longrightarrow> dval X + dval Y < digit_base ^ length Z"
  shows "\<exists>Z' neg. SubtractSigned Z X x_negative Y y_negative = Some (Z', neg) \<and> length Z' = length Z \<and>
           sval neg Z' = sval x_negative X - sval y_negative Y"
  by (rule SubtractSigned_spec [OF assms])

theorem SubtractSigned_correct_witness:
  "\<exists>Z' neg. SubtractSigned [3, 3] [5] False [0, 7] False = Some (Z', neg) \<and> length Z' = length [3, 3 :: digit_t] \<and>
     sval neg Z' = sval False [5] - sval False [0, 7]"
  by (rule SubtractSigned_correct) simp_all

end
