(* ===== verification/Bigint_Bitwise.thy ===== *)
theory Bigint_Bitwise
  imports Bigint_Vector
begin

text \<open>
  \<open>bigint/bitwise.cc\<close>: bitwise operations, shifts and truncation on sign-magnitude digit vectors, proved equal to
  the two's complement operations on unbounded integers.  Every loop of the file writes one digit per
  iteration, so its effect is a \<open>fill\<close> of the destination with a known digit sequence; the bits of the
  result are then compared with the bits of the integer operation.
\<close>

section \<open>Loops that fill a buffer digit by digit\<close>

definition fill :: "(nat \<Rightarrow> digit_t) \<Rightarrow> nat \<Rightarrow> digits \<Rightarrow> digits" where
  "fill G k Z0 = map G [0..<k] @ drop k Z0"

lemma fill_0 [simp]: "fill G 0 Z = Z"
  by (simp add: fill_def)

lemma length_fill [simp]: "k \<le> length Z \<Longrightarrow> length (fill G k Z) = length Z"
  by (simp add: fill_def)

lemma fill_all [simp]: "fill G (length Z) Z = map G [0..<length Z]"
  by (simp add: fill_def)

lemma fill_update: "k < length Z \<Longrightarrow> (fill G k Z)[k := G k] = fill G (Suc k) Z"
  by (simp add: fill_def list_update_append Cons_nth_drop_Suc [symmetric])

lemma for_up_fill:
  assumes "i \<le> n" and "n \<le> length Z"
    and "\<And>k. i \<le> k \<Longrightarrow> k < n \<Longrightarrow> body k (fill G k Z) = Some ((fill G k Z)[k := G k])"
  shows "for_up i n body (fill G i Z) = Some (fill G n Z)"
proof -
  have "ok (for_up i n body (fill G i Z)) (\<lambda>s. s = fill G n Z)"
    by (rule ok_for_up [where I = "\<lambda>k s. s = fill G k Z"]) (use assms fill_update in auto)
  then show ?thesis by (auto dest: okE)
qed

lemma for_up_fill_state:
  assumes "i \<le> n" and "n \<le> length Z"
    and "\<And>k. i \<le> k \<Longrightarrow> k < n \<Longrightarrow> body k (fill G k Z, st k) = Some ((fill G k Z)[k := G k], st (Suc k))"
  shows "for_up i n body (fill G i Z, st i) = Some (fill G n Z, st n)"
proof -
  have "ok (for_up i n body (fill G i Z, st i)) (\<lambda>s. s = (fill G n Z, st n))"
    by (rule ok_for_up [where I = "\<lambda>k s. s = (fill G k Z, st k)"]) (use assms fill_update in auto)
  then show ?thesis by (auto dest: okE)
qed

lemma zero_from_fill:
  assumes "i \<le> length Z" and "\<And>k. i \<le> k \<Longrightarrow> k < length Z \<Longrightarrow> G k = 0"
  shows "zero_from i (fill G i Z) = Some (map G [0..<length Z])"
proof -
  have "for_up i (length Z) (\<lambda>i Z. wr Z i 0) (fill G i Z) = Some (fill G (length Z) Z)"
    by (rule for_up_fill) (use assms in \<open>auto simp: wr_def\<close>)
  then show ?thesis using assms(1) by (simp add: zero_from_def)
qed

section \<open>Bits of a digit vector\<close>

lemma bit_split_digit:
  fixes a b :: nat
  assumes "a < 2 ^ n"
  shows "bit (a + 2 ^ n * b) j = (if j < n then bit a j else bit b (j - n))"
proof -
  have "a + 2 ^ n * b = a OR push_bit n b"
  proof -
    have "a AND push_bit n b = 0"
    proof (rule bit_eqI)
      fix k show "bit (a AND push_bit n b) k = bit (0::nat) k"
        using assms by (auto simp: bit_and_iff bit_push_bit_iff bit_iff_odd [of a] dest!: less_le_trans [OF _ power_increasing [of n k 2]])
    qed
    then show ?thesis by (simp add: push_bit_eq_mult mult.commute flip: disjunctive_add_eq_or)
  qed
  moreover have "\<not> bit a j" if "n \<le> j"
    using assms that by (auto simp: bit_iff_odd dest!: less_le_trans [OF _ power_increasing [of n j 2]])
  ultimately show ?thesis
    by (auto simp: bit_or_iff bit_push_bit_iff)
qed

lemma bit_dval: "bit (dval xs) j \<longleftrightarrow> j div 64 < length xs \<and> bit (xs ! (j div 64)) (j mod 64)"
proof (induction xs arbitrary: j)
  case (Cons x xs)
  have "bit (dval (x # xs)) j = (if j < 64 then bit (unat x) j else bit (dval xs) (j - 64))"
    using bit_split_digit [of "unat x" 64 "dval xs" j] unat_lt_base [of x] by (simp add: digit_base_def)
  also have "\<dots> = (j div 64 < length (x # xs) \<and> bit ((x # xs) ! (j div 64)) (j mod 64))"
  proof (cases "j < 64")
    case False
    then have "j div 64 = Suc ((j - 64) div 64)" "j mod 64 = (j - 64) mod 64"
      by (simp_all add: div_if le_mod_geq)
    with False Cons.IH show ?thesis by simp
  qed (simp add: bit_unsigned_iff)
  finally show ?case .
qed simp

definition digit_at :: "digits \<Rightarrow> nat \<Rightarrow> digit_t" where
  "digit_at X i = (if i < length X then X ! i else 0)"

lemma bit_dval_at: "bit (dval X) j \<longleftrightarrow> bit (digit_at X (j div 64)) (j mod 64)"
  by (simp add: bit_dval digit_at_def)

lemma bit_dval_map: "bit (dval (map G [0..<n])) j \<longleftrightarrow> j div 64 < n \<and> bit (G (j div 64)) (j mod 64)"
  by (auto simp: bit_dval)

lemma bit_int_dval: "bit (int (dval X)) j \<longleftrightarrow> bit (digit_at X (j div 64)) (j mod 64)"
  by (simp add: bit_of_nat_iff_bit bit_dval_at)

lemma bit_int_dval_map: "bit (int (dval (map G [0..<n]))) j \<longleftrightarrow> j div 64 < n \<and> bit (G (j div 64)) (j mod 64)"
  by (simp add: bit_of_nat_iff_bit bit_dval_map)

section \<open>Digits of the magnitude minus one\<close>

primrec borrow_at :: "digits \<Rightarrow> nat \<Rightarrow> digit_t" where
  "borrow_at X 0 = 1"
| "borrow_at X (Suc i) = snd (digit_sub (digit_at X i) (borrow_at X i))"

definition dec_at :: "digits \<Rightarrow> nat \<Rightarrow> digit_t" where
  "dec_at X i = fst (digit_sub (digit_at X i) (borrow_at X i))"

lemma digit_sub_at: "digit_sub (digit_at X i) (borrow_at X i) = (dec_at X i, borrow_at X (Suc i))"
  by (simp add: dec_at_def)

lemma dval_dec_at:
  "dval (map (dec_at X) [0..<n]) + 1 = dval (map (digit_at X) [0..<n]) + digit_base ^ n * unat (borrow_at X n)"
proof (induction n)
  case (Suc n)
  let ?p = "digit_base ^ n"
  have "unat (dec_at X n) + unat (borrow_at X n) = unat (digit_at X n) + digit_base * unat (borrow_at X (Suc n))"
    using digit_sub_eq(1) [OF digit_sub_at [of X n]] .
  then have "?p * unat (dec_at X n) + ?p * unat (borrow_at X n) = ?p * unat (digit_at X n) + ?p * digit_base * unat (borrow_at X (Suc n))"
    by (metis add_mult_distrib2 mult.assoc)
  with Suc.IH show ?case
    by (simp add: mult.commute [of digit_base] del: borrow_at.simps)
qed simp

lemma dval_digit_at: "length X \<le> n \<Longrightarrow> dval (map (digit_at X) [0..<n]) = dval X"
proof -
  assume "length X \<le> n"
  then have "map (digit_at X) [0..<n] = X @ replicate (n - length X) 0"
    by (auto simp: list_eq_iff_nth_eq digit_at_def nth_append)
  then show ?thesis by simp
qed

lemma dval_dec:
  assumes "0 < dval X" and "length X \<le> n"
  shows "borrow_at X n = 0" and "dval (map (dec_at X) [0..<n]) = dval X - 1"
proof -
  have "dval (map (dec_at X) [0..<n]) + 1 = dval X + digit_base ^ n * unat (borrow_at X n)"
    using dval_dec_at [of X n] dval_digit_at [OF assms(2)] by simp
  moreover have "dval (map (dec_at X) [0..<n]) < digit_base ^ n"
    using dval_lt [of "map (dec_at X) [0..<n]"] by simp
  ultimately have "unat (borrow_at X n) = 0" "dval (map (dec_at X) [0..<n]) = dval X - 1"
    using assms(1) borrow_zero [of _ 1 "dval X"] by (metis One_nat_def Suc_leI)+
  then show "borrow_at X n = 0" and "dval (map (dec_at X) [0..<n]) = dval X - 1"
    by (simp_all add: unat_eq_0)
qed

lemma dec_at_beyond:
  assumes "0 < dval X" and "length X \<le> i"
  shows "dec_at X i = 0"
  using digit_sub_eq(1) [OF digit_sub_at [of X i]] dval_dec(1) [OF assms] dval_dec(1) [OF assms(1), of "Suc i"] assms(2)
  by (simp add: digit_at_def unat_eq_0 del: borrow_at.simps)

lemma bit_dec:
  assumes "0 < dval X"
  shows "bit (int (dval X) - 1) j \<longleftrightarrow> bit (dec_at X (j div 64)) (j mod 64)"
proof -
  let ?n = "max (length X) (Suc (j div 64))"
  have "int (dval X) - 1 = int (dval (map (dec_at X) [0..<?n]))"
    using dval_dec(2) [OF assms, of ?n] assms by simp
  also have "bit \<dots> j \<longleftrightarrow> j div 64 < ?n \<and> bit (dec_at X (j div 64)) (j mod 64)"
    by (rule bit_int_dval_map)
  finally show ?thesis by (simp add: less_max_iff_disj)
qed

section \<open>Bitwise operations\<close>

definition BitwiseAnd_PosPos :: "digits \<Rightarrow> digits \<Rightarrow> digits \<Rightarrow> digits option" where
  "BitwiseAnd_PosPos Z X Y =
     (let pairs = min (length X) (length Y)
      in do {
        Z \<leftarrow> for_up 0 pairs (\<lambda>i Z. do { x \<leftarrow> rd X i; y \<leftarrow> rd Y i; wr Z i (x AND y) }) Z;
        zero_from pairs Z })"

definition BitwiseAnd_NegNeg :: "digits \<Rightarrow> digits \<Rightarrow> digits \<Rightarrow> digits option" where
  "BitwiseAnd_NegNeg Z X Y =
     (let pairs = min (length X) (length Y)
      in do {
        (Z, x_borrow, y_borrow) \<leftarrow> for_up 0 pairs (\<lambda>i (Z, x_borrow, y_borrow). do {
          x \<leftarrow> rd X i;
          let (dx, x_borrow) = digit_sub x x_borrow;
          y \<leftarrow> rd Y i;
          let (dy, y_borrow) = digit_sub y y_borrow;
          Z \<leftarrow> wr Z i (dx OR dy);
          Some (Z, x_borrow, y_borrow) }) (Z, 1, 1);
        (Z, x_borrow) \<leftarrow> sub_loop (\<lambda>_. X) pairs (length X) (Z, x_borrow);
        let i = max pairs (length X);
        (Z, y_borrow) \<leftarrow> sub_loop (\<lambda>_. Y) i (length Y) (Z, y_borrow);
        let i = max i (length Y);
        Z \<leftarrow> zero_from i Z;
        Add_digit Z 1 })"

definition BitwiseAnd_PosNeg :: "digits \<Rightarrow> digits \<Rightarrow> digits \<Rightarrow> digits option" where
  "BitwiseAnd_PosNeg Z X Y =
     (let pairs = min (length X) (length Y)
      in do {
        (Z, borrow) \<leftarrow> for_up 0 pairs (\<lambda>i (Z, borrow). do {
          x \<leftarrow> rd X i;
          y \<leftarrow> rd Y i;
          let (dy, borrow) = digit_sub y borrow;
          Z \<leftarrow> wr Z i (x AND NOT dy);
          Some (Z, borrow) }) (Z, 1);
        Z \<leftarrow> copy_loop X pairs (length X) Z;
        zero_from (max pairs (length X)) Z })"

definition BitwiseOr_PosPos :: "digits \<Rightarrow> digits \<Rightarrow> digits \<Rightarrow> digits option" where
  "BitwiseOr_PosPos Z X Y =
     (let pairs = min (length X) (length Y)
      in do {
        Z \<leftarrow> for_up 0 pairs (\<lambda>i Z. do { x \<leftarrow> rd X i; y \<leftarrow> rd Y i; wr Z i (x OR y) }) Z;
        Z \<leftarrow> copy_loop X pairs (length X) Z;
        let i = max pairs (length X);
        Z \<leftarrow> copy_loop Y i (length Y) Z;
        zero_from (max i (length Y)) Z })"

definition BitwiseOr_NegNeg :: "digits \<Rightarrow> digits \<Rightarrow> digits \<Rightarrow> digits option" where
  "BitwiseOr_NegNeg Z X Y =
     (let pairs = min (length X) (length Y)
      in do {
        (Z, x_borrow, y_borrow) \<leftarrow> for_up 0 pairs (\<lambda>i (Z, x_borrow, y_borrow). do {
          x \<leftarrow> rd X i;
          let (dx, x_borrow) = digit_sub x x_borrow;
          y \<leftarrow> rd Y i;
          let (dy, y_borrow) = digit_sub y y_borrow;
          Z \<leftarrow> wr Z i (dx AND dy);
          Some (Z, x_borrow, y_borrow) }) (Z, 1, 1);
        Z \<leftarrow> zero_from pairs Z;
        Add_digit Z 1 })"

definition BitwiseOr_PosNeg :: "digits \<Rightarrow> digits \<Rightarrow> digits \<Rightarrow> digits option" where
  "BitwiseOr_PosNeg Z X Y =
     (let pairs = min (length X) (length Y)
      in do {
        (Z, borrow) \<leftarrow> for_up 0 pairs (\<lambda>i (Z, borrow). do {
          y \<leftarrow> rd Y i;
          let (dy, borrow) = digit_sub y borrow;
          x \<leftarrow> rd X i;
          Z \<leftarrow> wr Z i (dy AND NOT x);
          Some (Z, borrow) }) (Z, 1);
        (Z, borrow) \<leftarrow> sub_loop (\<lambda>_. Y) pairs (length Y) (Z, borrow);
        Z \<leftarrow> zero_from (max pairs (length Y)) Z;
        Add_digit Z 1 })"

definition BitwiseXor_PosPos :: "digits \<Rightarrow> digits \<Rightarrow> digits \<Rightarrow> digits option" where
  "BitwiseXor_PosPos Z X Y =
     (let (X, Y) = (if length Y < length X then (Y, X) else (X, Y));
          pairs = length X
      in do {
        Z \<leftarrow> for_up 0 pairs (\<lambda>i Z. do { x \<leftarrow> rd X i; y \<leftarrow> rd Y i; wr Z i (x XOR y) }) Z;
        Z \<leftarrow> copy_loop Y pairs (length Y) Z;
        zero_from (max pairs (length Y)) Z })"

definition BitwiseXor_NegNeg :: "digits \<Rightarrow> digits \<Rightarrow> digits \<Rightarrow> digits option" where
  "BitwiseXor_NegNeg Z X Y =
     (let pairs = min (length X) (length Y)
      in do {
        (Z, x_borrow, y_borrow) \<leftarrow> for_up 0 pairs (\<lambda>i (Z, x_borrow, y_borrow). do {
          x \<leftarrow> rd X i;
          let (dx, x_borrow) = digit_sub x x_borrow;
          y \<leftarrow> rd Y i;
          let (dy, y_borrow) = digit_sub y y_borrow;
          Z \<leftarrow> wr Z i (dx XOR dy);
          Some (Z, x_borrow, y_borrow) }) (Z, 1, 1);
        (Z, x_borrow) \<leftarrow> sub_loop (\<lambda>_. X) pairs (length X) (Z, x_borrow);
        let i = max pairs (length X);
        (Z, y_borrow) \<leftarrow> sub_loop (\<lambda>_. Y) i (length Y) (Z, y_borrow);
        zero_from (max i (length Y)) Z })"

definition BitwiseXor_PosNeg :: "digits \<Rightarrow> digits \<Rightarrow> digits \<Rightarrow> digits option" where
  "BitwiseXor_PosNeg Z X Y =
     (let pairs = min (length X) (length Y)
      in do {
        (Z, borrow) \<leftarrow> for_up 0 pairs (\<lambda>i (Z, borrow). do {
          x \<leftarrow> rd X i;
          y \<leftarrow> rd Y i;
          let (dy, borrow) = digit_sub y borrow;
          Z \<leftarrow> wr Z i (x XOR dy);
          Some (Z, borrow) }) (Z, 1);
        Z \<leftarrow> copy_loop X pairs (length X) Z;
        let i = max pairs (length X);
        (Z, borrow) \<leftarrow> sub_loop (\<lambda>_. Y) i (length Y) (Z, borrow);
        Z \<leftarrow> zero_from (max i (length Y)) Z;
        Add_digit Z 1 })"

section \<open>Result lengths\<close>

definition BitwiseAnd_PosPos_ResultLength :: "nat \<Rightarrow> nat \<Rightarrow> nat" where
  "BitwiseAnd_PosPos_ResultLength x_length y_length = min x_length y_length"

definition BitwiseAnd_NegNeg_ResultLength :: "nat \<Rightarrow> nat \<Rightarrow> nat" where
  "BitwiseAnd_NegNeg_ResultLength x_length y_length = max x_length y_length + 1"

definition BitwiseAnd_PosNeg_ResultLength :: "nat \<Rightarrow> nat" where
  "BitwiseAnd_PosNeg_ResultLength x_length = x_length"

definition BitwiseOrResultLength :: "nat \<Rightarrow> nat \<Rightarrow> nat" where
  "BitwiseOrResultLength x_length y_length = max x_length y_length"

definition BitwiseXor_PosPos_ResultLength :: "nat \<Rightarrow> nat \<Rightarrow> nat" where
  "BitwiseXor_PosPos_ResultLength x_length y_length = max x_length y_length"

definition BitwiseXor_NegNeg_ResultLength :: "nat \<Rightarrow> nat \<Rightarrow> nat" where
  "BitwiseXor_NegNeg_ResultLength x_length y_length = max x_length y_length"

definition BitwiseXor_PosNeg_ResultLength :: "nat \<Rightarrow> nat \<Rightarrow> nat" where
  "BitwiseXor_PosNeg_ResultLength x_length y_length = max x_length y_length + 1"

section \<open>Each loop writes a known digit sequence\<close>

lemma for_up_nop: "n \<le> i \<Longrightarrow> for_up i n body s = Some s"
  by (simp add: for_up.simps)

lemma digit_sub_nth: "k < length X \<Longrightarrow> digit_sub (X ! k) (borrow_at X k) = (dec_at X k, borrow_at X (Suc k))"
  using digit_sub_at [of X k] by (simp add: digit_at_def)

lemma pair_loop:
  assumes "n \<le> length X" and "n \<le> length Y" and "n \<le> length Z"
    and "\<And>k. k < n \<Longrightarrow> G k = f (digit_at X k) (digit_at Y k)"
  shows "for_up 0 n (\<lambda>i Z. do { x \<leftarrow> rd X i; y \<leftarrow> rd Y i; wr Z i (f x y) }) Z = Some (fill G n Z)"
  using for_up_fill [of 0 n Z "\<lambda>i Z. do { x \<leftarrow> rd X i; y \<leftarrow> rd Y i; wr Z i (f x y) }" G] assms
  by (simp add: rd_def wr_def digit_at_def)

lemma neg_pair_loop:
  assumes "n \<le> length X" and "n \<le> length Y" and "n \<le> length Z"
    and "\<And>k. k < n \<Longrightarrow> G k = f (dec_at X k) (dec_at Y k)"
  shows "for_up 0 n (\<lambda>i (Z, x_borrow, y_borrow). do {
          x \<leftarrow> rd X i;
          let (dx, x_borrow) = digit_sub x x_borrow;
          y \<leftarrow> rd Y i;
          let (dy, y_borrow) = digit_sub y y_borrow;
          Z \<leftarrow> wr Z i (f dx dy);
          Some (Z, x_borrow, y_borrow) }) (Z, 1, 1) = Some (fill G n Z, borrow_at X n, borrow_at Y n)"
    (is "for_up 0 n ?body _ = _")
proof -
  have "for_up 0 n ?body (fill G 0 Z, borrow_at X 0, borrow_at Y 0) = Some (fill G n Z, borrow_at X n, borrow_at Y n)"
    using assms by (intro for_up_fill_state) (simp_all add: rd_def wr_def digit_sub_nth del: borrow_at.simps)
  then show ?thesis by simp
qed

lemma posneg_pair_loop:
  assumes "n \<le> length X" and "n \<le> length Y" and "n \<le> length Z"
    and "\<And>k. k < n \<Longrightarrow> G k = f (digit_at X k) (dec_at Y k)"
  shows "for_up 0 n (\<lambda>i (Z, borrow). do {
          x \<leftarrow> rd X i;
          y \<leftarrow> rd Y i;
          let (dy, borrow) = digit_sub y borrow;
          Z \<leftarrow> wr Z i (f x dy);
          Some (Z, borrow) }) (Z, 1) = Some (fill G n Z, borrow_at Y n)" (is "for_up 0 n ?body _ = _")
    and "for_up 0 n (\<lambda>i (Z, borrow). do {
          y \<leftarrow> rd Y i;
          let (dy, borrow) = digit_sub y borrow;
          x \<leftarrow> rd X i;
          Z \<leftarrow> wr Z i (f x dy);
          Some (Z, borrow) }) (Z, 1) = Some (fill G n Z, borrow_at Y n)" (is "for_up 0 n ?body' _ = _")
proof -
  have "for_up 0 n b (fill G 0 Z, borrow_at Y 0) = Some (fill G n Z, borrow_at Y n)" if "b = ?body \<or> b = ?body'" for b
    using assms that
    by (intro for_up_fill_state) (auto simp: rd_def wr_def digit_sub_nth digit_at_def simp del: borrow_at.simps)
  from this [of ?body] this [of ?body']
  show "for_up 0 n ?body (Z, 1) = Some (fill G n Z, borrow_at Y n)" "for_up 0 n ?body' (Z, 1) = Some (fill G n Z, borrow_at Y n)"
    by simp_all
qed

lemma sub_loop_fill:
  assumes "n \<le> length X" and "n \<le> length Z" and "\<And>k. i \<le> k \<Longrightarrow> k < n \<Longrightarrow> G k = dec_at X k"
  shows "sub_loop (\<lambda>_. X) i n (fill G i Z, borrow_at X i) = Some (fill G (max i n) Z, borrow_at X (max i n))"
proof (cases "i \<le> n")
  case True
  then show ?thesis unfolding sub_loop_def using assms
    by (subst for_up_fill_state)
      (simp_all add: rd_def wr_def digit_sub_nth max_absorb2 del: borrow_at.simps)
qed (simp add: sub_loop_def for_up_nop max_absorb1)

lemma sub_loop_skip: "n \<le> i \<Longrightarrow> sub_loop X i n s = Some s"
  by (simp add: sub_loop_def for_up_nop)

lemma copy_loop_fill:
  assumes "n \<le> length X" and "n \<le> length Z" and "\<And>k. i \<le> k \<Longrightarrow> k < n \<Longrightarrow> G k = digit_at X k"
  shows "copy_loop X i n (fill G i Z) = Some (fill G (max i n) Z)"
proof (cases "i \<le> n")
  case True
  then show ?thesis unfolding copy_loop_def using assms
    by (subst for_up_fill) (simp_all add: rd_def wr_def digit_at_def max_absorb2)
qed (simp add: copy_loop_def for_up_nop max_absorb1)

lemma copy_loop_skip: "n \<le> i \<Longrightarrow> copy_loop X i n Z = Some Z"
  by (simp add: copy_loop_def for_up_nop)

section \<open>From digit sequences to integers\<close>

lemma digit_at_beyond [simp]: "length X \<le> k \<Longrightarrow> digit_at X k = 0"
  by (simp add: digit_at_def)

lemma dval_digits:
  assumes "\<And>j. bit w j \<longleftrightarrow> bit (G (j div 64)) (j mod 64)" and "\<And>k. n \<le> k \<Longrightarrow> G k = 0"
  shows "int (dval (map G [0..<n])) = w"
proof (rule bit_eqI)
  fix j show "bit (int (dval (map G [0..<n]))) j = bit w j"
    using assms(2) [of "j div 64"] by (cases "j div 64 < n") (simp_all add: bit_int_dval_map assms(1))
qed

lemma minus_eq_not: "- y = NOT (y - 1 :: int)"
  by (simp add: not_int_def)

lemma Add_digit_1:
  assumes "r = Add_digit (map G [0..<n]) 1" and "int (dval (map G [0..<n])) = w"
    and "w + 1 < int digit_base ^ n" and "0 < n"
  shows "\<exists>Z'. r = Some Z' \<and> length Z' = n \<and> - int (dval Z') = NOT w"
proof -
  have "int (dval (map G [0..<n]) + 1) < int (digit_base ^ n)" using assms(2,3) by simp
  then have "dval (map G [0..<n]) + 1 < digit_base ^ n" by (simp only: of_nat_less_iff)
  with Add_digit_spec [of "map G [0..<n]" 1] assms(4) obtain Z' where
    "Add_digit (map G [0..<n]) 1 = Some Z'" "length Z' = n" "dval Z' = dval (map G [0..<n]) + 1" by auto
  with assms(1,2) show ?thesis by (simp add: not_int_def)
qed

lemma digits_lt: "length X \<le> n \<Longrightarrow> int (dval X) < int digit_base ^ n"
proof -
  assume "length X \<le> n"
  then have "digit_base ^ length X \<le> digit_base ^ n"
    by (intro power_increasing) (auto simp: Suc_leI)
  with dval_lt [of X] have "dval X < digit_base ^ n" by linarith
  then show ?thesis by (metis of_nat_less_iff of_nat_power)
qed

lemma succ_digits_lt:
  assumes "int (dval X) = w" and "Suc (length X) \<le> n"
  shows "w + 1 < int digit_base ^ n"
proof -
  have p: "0 < digit_base ^ length X" by simp
  have "dval X + 1 \<le> digit_base ^ length X" using dval_lt [of X] by simp
  also have "\<dots> < digit_base * digit_base ^ length X" using p digit_base_gt_1(3) by simp
  also have "\<dots> \<le> digit_base ^ n"
    using power_increasing [OF assms(2), of digit_base] by (simp add: Suc_leI)
  finally have "int (dval X + 1) < int (digit_base ^ n)" by (simp only: of_nat_less_iff)
  with assms(1) show ?thesis by simp
qed

section \<open>The bitwise operations compute the integer operations\<close>

lemmas bits_of_digits = bit_int_dval bit_dec bit_and_iff bit_or_iff bit_xor_iff bit_not_iff

lemma BitwiseAnd_PosPos_spec:
  assumes "BitwiseAnd_PosPos_ResultLength (length X) (length Y) \<le> length Z"
  shows "\<exists>Z'. BitwiseAnd_PosPos Z X Y = Some Z' \<and> length Z' = length Z \<and>
           int (dval Z') = int (dval X) AND int (dval Y)"
proof -
  let ?G = "\<lambda>k. digit_at X k AND digit_at Y k" and ?n = "min (length X) (length Y)"
  have zero: "?G k = 0" if "?n \<le> k" for k using that by (auto simp: min_le_iff_disj)
  have n: "?n \<le> length Z" using assms by (simp add: BitwiseAnd_PosPos_ResultLength_def)
  have "BitwiseAnd_PosPos Z X Y = zero_from ?n (fill ?G ?n Z)"
    using n by (simp add: BitwiseAnd_PosPos_def Let_def pair_loop [where G = ?G])
  also have "\<dots> = Some (map ?G [0..<length Z])" by (rule zero_from_fill [OF n zero])
  finally have "BitwiseAnd_PosPos Z X Y = Some (map ?G [0..<length Z])" .
  moreover have "int (dval (map ?G [0..<length Z])) = int (dval X) AND int (dval Y)"
    by (rule dval_digits) (use n zero in \<open>auto simp: bits_of_digits simp del: digit_at_beyond\<close>)
  ultimately show ?thesis by simp
qed

lemma BitwiseOr_PosPos_spec:
  assumes "BitwiseOrResultLength (length X) (length Y) \<le> length Z"
  shows "\<exists>Z'. BitwiseOr_PosPos Z X Y = Some Z' \<and> length Z' = length Z \<and>
           int (dval Z') = int (dval X) OR int (dval Y)"
proof -
  let ?G = "\<lambda>k. digit_at X k OR digit_at Y k" and ?n = "min (length X) (length Y)"
  have n: "length X \<le> length Z" "length Y \<le> length Z" using assms by (simp_all add: BitwiseOrResultLength_def)
  have "BitwiseOr_PosPos Z X Y = Some (map ?G [0..<length Z])"
    using n by (cases "length X \<le> length Y")
      (simp_all add: BitwiseOr_PosPos_def pair_loop [where G = ?G] copy_loop_fill [where G = ?G] zero_from_fill max_absorb1 max_absorb2 min_absorb1 min_absorb2)
  moreover have "int (dval (map ?G [0..<length Z])) = int (dval X) OR int (dval Y)"
    by (rule dval_digits) (use n in \<open>auto simp: bits_of_digits\<close>)
  ultimately show ?thesis by simp
qed

lemma BitwiseXor_PosPos_spec:
  assumes "BitwiseXor_PosPos_ResultLength (length X) (length Y) \<le> length Z"
  shows "\<exists>Z'. BitwiseXor_PosPos Z X Y = Some Z' \<and> length Z' = length Z \<and>
           int (dval Z') = int (dval X) XOR int (dval Y)"
proof -
  let ?G = "\<lambda>k. digit_at X k XOR digit_at Y k"
  have n: "length X \<le> length Z" "length Y \<le> length Z" using assms by (simp_all add: BitwiseXor_PosPos_ResultLength_def)
  have "BitwiseXor_PosPos Z X Y = Some (map ?G [0..<length Z])"
    using n by (cases "length Y < length X")
      (simp_all add: BitwiseXor_PosPos_def pair_loop [where G = ?G] copy_loop_fill [where G = ?G] zero_from_fill max_absorb1 max_absorb2 xor.commute)
  moreover have "int (dval (map ?G [0..<length Z])) = int (dval X) XOR int (dval Y)"
    by (rule dval_digits) (use n in \<open>auto simp: bits_of_digits\<close>)
  ultimately show ?thesis by simp
qed

lemma BitwiseAnd_PosNeg_spec:
  assumes "BitwiseAnd_PosNeg_ResultLength (length X) \<le> length Z" and "0 < dval Y"
  shows "\<exists>Z'. BitwiseAnd_PosNeg Z X Y = Some Z' \<and> length Z' = length Z \<and>
           int (dval Z') = int (dval X) AND - int (dval Y)"
proof -
  let ?G = "\<lambda>k. digit_at X k AND NOT (dec_at Y k)"
  have n: "length X \<le> length Z" using assms by (simp add: BitwiseAnd_PosNeg_ResultLength_def)
  have beyond: "dec_at Y k = 0" if "length Y \<le> k" for k using dec_at_beyond [OF assms(2) that] .
  have "BitwiseAnd_PosNeg Z X Y = Some (map ?G [0..<length Z])"
    using n beyond by (cases "length X \<le> length Y")
      (simp_all add: BitwiseAnd_PosNeg_def Let_def posneg_pair_loop(1) [unfolded Let_def, where G = ?G] copy_loop_fill [where G = ?G] zero_from_fill max_absorb1 max_absorb2 min_absorb1 min_absorb2)
  moreover have "int (dval (map ?G [0..<length Z])) = int (dval X) AND - int (dval Y)"
    unfolding minus_eq_not [of "int (dval Y)"]
    by (rule dval_digits) (use n assms(2) in \<open>auto simp: bits_of_digits\<close>)
  ultimately show ?thesis by simp
qed

lemma not_bits:
  fixes a b :: int
  shows "NOT (a OR b) = NOT a AND NOT b" and "NOT (a AND b) = NOT a OR NOT b"
    and "NOT (b AND NOT a) = a OR NOT b" and "NOT (a XOR b) = a XOR NOT b" and "a XOR b = NOT a XOR NOT b"
  by (rule bit_eqI, auto simp: bit_simps)+

lemma neg_neg_bits:
  fixes x y :: int
  shows "NOT ((x - 1) OR (y - 1)) = - x AND - y" and "NOT ((x - 1) AND (y - 1)) = - x OR - y"
    and "NOT ((y - 1) AND NOT x) = x OR - y" and "NOT (x XOR (y - 1)) = x XOR - y"
    and "(x - 1) XOR (y - 1) = - x XOR - y"
  unfolding minus_eq_not [of x] minus_eq_not [of y] by (rule not_bits)+

lemma BitwiseXor_NegNeg_spec:
  assumes "BitwiseXor_NegNeg_ResultLength (length X) (length Y) \<le> length Z" and "0 < dval X" and "0 < dval Y"
  shows "\<exists>Z'. BitwiseXor_NegNeg Z X Y = Some Z' \<and> length Z' = length Z \<and>
           int (dval Z') = (- int (dval X)) XOR (- int (dval Y))"
proof -
  let ?G = "\<lambda>k. dec_at X k XOR dec_at Y k"
  have n: "length X \<le> length Z" "length Y \<le> length Z" using assms by (simp_all add: BitwiseXor_NegNeg_ResultLength_def)
  note beyond = dec_at_beyond [OF assms(2)] dec_at_beyond [OF assms(3)]
  have "BitwiseXor_NegNeg Z X Y = Some (map ?G [0..<length Z])"
    using n beyond by (cases "length X \<le> length Y")
      (simp_all add: BitwiseXor_NegNeg_def Let_def neg_pair_loop [unfolded Let_def, where G = ?G] sub_loop_fill [where G = ?G] sub_loop_skip
        zero_from_fill max_absorb1 max_absorb2 min_absorb1 min_absorb2)
  moreover have "int (dval (map ?G [0..<length Z])) = (int (dval X) - 1) XOR (int (dval Y) - 1)"
    by (rule dval_digits) (use n beyond assms(2,3) in \<open>auto simp: bits_of_digits\<close>)
  ultimately show ?thesis by (simp only: neg_neg_bits) simp
qed

lemma BitwiseAnd_NegNeg_spec:
  assumes "BitwiseAnd_NegNeg_ResultLength (length X) (length Y) \<le> length Z" and "0 < dval X" and "0 < dval Y"
  shows "\<exists>Z'. BitwiseAnd_NegNeg Z X Y = Some Z' \<and> length Z' = length Z \<and>
           - int (dval Z') = (- int (dval X)) AND (- int (dval Y))"
proof -
  let ?G = "\<lambda>k. dec_at X k OR dec_at Y k" and ?w = "(int (dval X) - 1) OR (int (dval Y) - 1)"
  let ?n = "max (length X) (length Y)"
  have n: "length X \<le> length Z" "length Y \<le> length Z" "Suc ?n \<le> length Z"
    using assms by (simp_all add: BitwiseAnd_NegNeg_ResultLength_def)
  note beyond = dec_at_beyond [OF assms(2)] dec_at_beyond [OF assms(3)]
  have call: "BitwiseAnd_NegNeg Z X Y = Add_digit (map ?G [0..<length Z]) 1"
    using n(1,2) beyond by (cases "length X \<le> length Y")
      (simp_all add: BitwiseAnd_NegNeg_def Let_def neg_pair_loop [unfolded Let_def, where G = ?G] sub_loop_fill [where G = ?G] sub_loop_skip
        zero_from_fill max_absorb1 max_absorb2 min_absorb1 min_absorb2)
  have G: "int (dval (map ?G [0..<m])) = ?w" if "?n \<le> m" for m
    by (rule dval_digits) (use that beyond assms(2,3) in \<open>auto simp: bits_of_digits\<close>)
  have bound: "?w + 1 < int digit_base ^ length Z"
    by (rule succ_digits_lt [of "map ?G [0..<?n]"]) (use n G in simp_all)
  have pos: "0 < length Z" and le: "?n \<le> length Z" using n(3) by linarith+
  show ?thesis using Add_digit_1 [OF call G [OF le] bound pos] by (simp only: neg_neg_bits)
qed

lemma BitwiseOr_NegNeg_spec:
  assumes "BitwiseOrResultLength (length X) (length Y) \<le> length Z" and "0 < dval X" and "0 < dval Y"
  shows "\<exists>Z'. BitwiseOr_NegNeg Z X Y = Some Z' \<and> length Z' = length Z \<and>
           - int (dval Z') = (- int (dval X)) OR (- int (dval Y))"
proof -
  let ?G = "\<lambda>k. dec_at X k AND dec_at Y k" and ?w = "(int (dval X) - 1) AND (int (dval Y) - 1)"
  have n: "length X \<le> length Z" "length Y \<le> length Z" using assms by (simp_all add: BitwiseOrResultLength_def)
  note beyond = dec_at_beyond [OF assms(2)] dec_at_beyond [OF assms(3)]
  have call: "BitwiseOr_NegNeg Z X Y = Add_digit (map ?G [0..<length Z]) 1"
    using n beyond by (cases "length X \<le> length Y")
      (simp_all add: BitwiseOr_NegNeg_def Let_def neg_pair_loop [unfolded Let_def, where G = ?G] zero_from_fill min_absorb1 min_absorb2)
  have G: "int (dval (map ?G [0..<length Z])) = ?w"
    by (rule dval_digits) (use n beyond assms(2,3) in \<open>auto simp: bits_of_digits\<close>)
  have bound: "?w + 1 < int digit_base ^ length Z"
    using AND_upper1 [of "int (dval X) - 1" "int (dval Y) - 1"] digits_lt [OF n(1)] assms(2) by linarith
  have pos: "0 < length Z" using assms(2) n(1) by (cases X) auto
  show ?thesis using Add_digit_1 [OF call G bound pos] by (simp only: neg_neg_bits)
qed

lemma BitwiseOr_PosNeg_spec:
  assumes "BitwiseOrResultLength (length X) (length Y) \<le> length Z" and "0 < dval Y"
  shows "\<exists>Z'. BitwiseOr_PosNeg Z X Y = Some Z' \<and> length Z' = length Z \<and>
           - int (dval Z') = int (dval X) OR (- int (dval Y))"
proof -
  let ?G = "\<lambda>k. dec_at Y k AND NOT (digit_at X k)" and ?w = "(int (dval Y) - 1) AND NOT (int (dval X))"
  have n: "length X \<le> length Z" "length Y \<le> length Z" using assms by (simp_all add: BitwiseOrResultLength_def)
  note beyond = dec_at_beyond [OF assms(2)]
  have call: "BitwiseOr_PosNeg Z X Y = Add_digit (map ?G [0..<length Z]) 1"
    using n beyond by (cases "length X \<le> length Y")
      (simp_all add: BitwiseOr_PosNeg_def Let_def posneg_pair_loop(2) [unfolded Let_def, where G = ?G] sub_loop_fill [where G = ?G]
        zero_from_fill max_absorb1 max_absorb2 min_absorb1 min_absorb2)
  have G: "int (dval (map ?G [0..<length Z])) = ?w"
    by (rule dval_digits) (use n beyond assms(2) in \<open>auto simp: bits_of_digits\<close>)
  have bound: "?w + 1 < int digit_base ^ length Z"
    using AND_upper1 [of "int (dval Y) - 1" "NOT (int (dval X))"] digits_lt [OF n(2)] assms(2) by linarith
  have pos: "0 < length Z" using assms(2) n(2) by (cases Y) auto
  show ?thesis using Add_digit_1 [OF call G bound pos] by (simp only: neg_neg_bits)
qed

lemma BitwiseXor_PosNeg_spec:
  assumes "BitwiseXor_PosNeg_ResultLength (length X) (length Y) \<le> length Z" and "0 < dval Y"
  shows "\<exists>Z'. BitwiseXor_PosNeg Z X Y = Some Z' \<and> length Z' = length Z \<and>
           - int (dval Z') = int (dval X) XOR (- int (dval Y))"
proof -
  let ?G = "\<lambda>k. digit_at X k XOR dec_at Y k" and ?w = "int (dval X) XOR (int (dval Y) - 1)"
  let ?n = "max (length X) (length Y)"
  have n: "length X \<le> length Z" "length Y \<le> length Z" "Suc ?n \<le> length Z"
    using assms by (simp_all add: BitwiseXor_PosNeg_ResultLength_def)
  note beyond = dec_at_beyond [OF assms(2)]
  have call: "BitwiseXor_PosNeg Z X Y = Add_digit (map ?G [0..<length Z]) 1"
    using n(1,2) beyond by (cases "length X \<le> length Y")
      (simp_all add: BitwiseXor_PosNeg_def Let_def posneg_pair_loop(1) [unfolded Let_def, where G = ?G] sub_loop_fill [where G = ?G] sub_loop_skip
        copy_loop_fill [where G = ?G] zero_from_fill max_absorb1 max_absorb2 min_absorb1 min_absorb2)
  have G: "int (dval (map ?G [0..<m])) = ?w" if "?n \<le> m" for m
    by (rule dval_digits) (use that beyond assms(2) in \<open>auto simp: bits_of_digits\<close>)
  have bound: "?w + 1 < int digit_base ^ length Z"
    by (rule succ_digits_lt [of "map ?G [0..<?n]"]) (use n G in simp_all)
  have pos: "0 < length Z" and le: "?n \<le> length Z" using n(3) by linarith+
  show ?thesis using Add_digit_1 [OF call G [OF le] bound pos] by (simp only: neg_neg_bits)
qed

end
