(* ===== verification/Bigint_Shift.thy ===== *)
theory Bigint_Shift
  imports Bigint_Bitwise
begin

text \<open>
  The shifts of \<open>bigint/bitwise.cc\<close>.  The digit part of a shift count is narrowed to a 32-bit \<open>int\<close>, as in the
  source; the theorems ask for a shift count whose digit part survives the narrowing, which holds for every
  BigInt the engine can allocate.
\<close>

definition static_cast_int :: "digit_t \<Rightarrow> int" where
  "static_cast_int x = sint (ucast x :: 32 word)"

record RightShiftState =
  must_round_down :: bool

definition LeftShift_ResultLength :: "nat \<Rightarrow> digit_t \<Rightarrow> digit_t \<Rightarrow> int" where
  "LeftShift_ResultLength x_length x_most_significant_digit shift =
     (let digit_shift = static_cast_int (shift div 64);
          bits_shift = unat (shift mod 64);
          grow = (bits_shift \<noteq> 0 \<and> drop_bit (kDigitBits - bits_shift) x_most_significant_digit \<noteq> 0)
      in int x_length + digit_shift + of_bool grow)"

definition LeftShift :: "digits \<Rightarrow> digits \<Rightarrow> digit_t \<Rightarrow> digits option" where
  "LeftShift Z X shift =
     (let digit_shift = static_cast_int (shift div 64);
          bits_shift = unat (shift mod 64);
          n = nat (int (length X) + digit_shift)
      in do {
        Z \<leftarrow> for_up 0 (nat digit_shift) (\<lambda>i Z. wr Z i 0) Z;
        let i = nat digit_shift;
        if bits_shift = 0 then do {
          Z \<leftarrow> for_up i n (\<lambda>i Z. do { d \<leftarrow> rd X (nat (int i - digit_shift)); wr Z i d }) Z;
          zero_from (max i n) Z
        } else do {
          (Z, carry) \<leftarrow> for_up i n (\<lambda>i (Z, carry). do {
            d \<leftarrow> rd X (nat (int i - digit_shift));
            Z \<leftarrow> wr Z i (push_bit bits_shift d OR carry);
            Some (Z, drop_bit (kDigitBits - bits_shift) d) }) (Z, 0);
          let i = max i n;
          (Z, i) \<leftarrow> (if carry \<noteq> 0 then do { Z \<leftarrow> wr Z i carry; Some (Z, Suc i) } else Some (Z, i));
          zero_from i Z
        }
      })"

fun any_nonzero_below :: "digits \<Rightarrow> nat \<Rightarrow> nat \<Rightarrow> bool option" where
  "any_nonzero_below X i 0 = Some False"
| "any_nonzero_below X i (Suc n) = do { x \<leftarrow> rd X i; if x \<noteq> 0 then Some True else any_nonzero_below X (Suc i) n }"

definition RightShift_ResultLength :: "digits \<Rightarrow> bool \<Rightarrow> digit_t \<Rightarrow> RightShiftState \<Rightarrow> (int \<times> RightShiftState) option" where
  "RightShift_ResultLength X x_sign shift state =
     (let digit_shift = static_cast_int (shift div 64);
          bits_shift = unat (shift mod 64);
          result_length = int (length X) - digit_shift
      in if result_length \<le> 0 then Some (0, state)
         else do {
           round \<leftarrow> (if x_sign then do {
               let mask = push_bit bits_shift 1 - 1;
               x \<leftarrow> rd X (nat digit_shift);
               if x AND mask \<noteq> 0 then Some True else any_nonzero_below X 0 (nat digit_shift)
             } else Some False);
           result_length \<leftarrow> (if round \<and> bits_shift = 0 then do {
               m \<leftarrow> msd X;
               Some (if digit_ismax m then result_length + 1 else result_length)
             } else Some result_length);
           Some (result_length, state\<lparr>must_round_down := round\<rparr>)
         })"

definition RightShift :: "digits \<Rightarrow> digits \<Rightarrow> digit_t \<Rightarrow> RightShiftState \<Rightarrow> digits option" where
  "RightShift Z X shift state =
     (let digit_shift = static_cast_int (shift div 64);
          bits_shift = unat (shift mod 64)
      in do {
        (Z, i) \<leftarrow> (if bits_shift = 0 then do {
            let n = nat (int (length X) - digit_shift);
            Z \<leftarrow> for_up 0 n (\<lambda>i Z. do { d \<leftarrow> rd X (nat (int i + digit_shift)); wr Z i d }) Z;
            Some (Z, n)
          } else do {
            d \<leftarrow> rd X (nat digit_shift);
            let carry = drop_bit bits_shift d;
            let n = nat (int (length X) - digit_shift - 1);
            (Z, carry) \<leftarrow> for_up 0 n (\<lambda>i (Z, carry). do {
              d \<leftarrow> rd X (nat (int i + digit_shift + 1));
              Z \<leftarrow> wr Z i (push_bit (kDigitBits - bits_shift) d OR carry);
              Some (Z, drop_bit bits_shift d) }) (Z, carry);
            Z \<leftarrow> wr Z n carry;
            Some (Z, Suc n)
          });
        Z \<leftarrow> zero_from i Z;
        if must_round_down state then Add_digit Z 1 else Some Z
      })"

section \<open>Left shift\<close>

lemma static_cast_int_small:
  assumes "unat x < 2 ^ 31"
  shows "static_cast_int x = int (unat x)"
proof -
  have u: "uint x < 2 ^ 31" using assms unfolding unat_eq_nat_uint by (metis of_nat_less_iff uint_nat unat_eq_nat_uint of_nat_numeral of_nat_power)
  have 1: "take_bit 32 (uint x) = uint x"
    by (rule take_bit_int_eq_self) (use u in simp_all)
  have 2: "signed_take_bit 31 (uint x) = uint x"
    by (rule signed_take_bit_int_eq_self) (use u in \<open>simp_all add: order_trans [OF _ uint_ge_0]\<close>)
  show ?thesis unfolding static_cast_int_def
    by (simp only: sint_uint unsigned_ucast_eq) (simp add: 1 2)
qed

definition lsh_carry :: "nat \<Rightarrow> digits \<Rightarrow> nat \<Rightarrow> digit_t" where
  "lsh_carry b X k = (if k = 0 then 0 else drop_bit (64 - b) (digit_at X (k - 1)))"

definition lsh_at :: "nat \<Rightarrow> nat \<Rightarrow> digits \<Rightarrow> nat \<Rightarrow> digit_t" where
  "lsh_at ds b X k = (if k < ds then 0 else push_bit b (digit_at X (k - ds)) OR lsh_carry b X (k - ds))"

lemma lsh_at_beyond: "ds + length X + 1 \<le> k \<Longrightarrow> lsh_at ds b X k = 0"
  by (auto simp: lsh_at_def lsh_carry_def)

lemma bit_lsh_at:
  assumes "b < 64" and "m < 64"
  shows "bit (lsh_at ds b X k) m \<longleftrightarrow>
    (if m < b then ds < k \<and> bit (digit_at X (k - ds - 1)) (64 + m - b) else ds \<le> k \<and> bit (digit_at X (k - ds)) (m - b))"
proof (cases "m < b")
  case True
  have "64 - b + m = 64 + m - b" using assms by simp
  with True assms show ?thesis
    by (simp add: lsh_at_def lsh_carry_def bit_or_iff bit_push_bit_iff bit_drop_bit_eq)
next
  case False
  have "\<not> bit (digit_at X n) (64 - b + m)" for n
    using False assms bit_imp_le_length [of "digit_at X n" "64 - b + m"] by auto
  with False assms show ?thesis
    by (simp add: lsh_at_def lsh_carry_def bit_or_iff bit_push_bit_iff bit_drop_bit_eq)
qed

lemma bit_dval_digit: "c < 64 \<Longrightarrow> bit (int (dval X)) (64 * a + c) = bit (digit_at X a) c"
  by (simp add: bit_int_dval)

lemma bit_push_dval:
  assumes "b < 64"
  shows "bit (push_bit (64 * ds + b) (int (dval X))) j \<longleftrightarrow> bit (lsh_at ds b X (j div 64)) (j mod 64)"
proof -
  define k m where "k = j div 64" and "m = j mod 64"
  then have j: "j = 64 * k + m" and m: "m < 64" by simp_all
  have "bit (push_bit (64 * ds + b) (int (dval X))) j \<longleftrightarrow> 64 * ds + b \<le> j \<and> bit (int (dval X)) (j - (64 * ds + b))"
    by (simp add: bit_push_bit_iff)
  also have "\<dots> \<longleftrightarrow> bit (lsh_at ds b X k) m"
  proof (cases "m < b")
    case True
    then have "64 * ds + b \<le> j \<longleftrightarrow> ds < k" unfolding j using assms m by (intro iffI; linarith)
    moreover have "j - (64 * ds + b) = 64 * (k - ds - 1) + (64 + m - b)" if "ds < k"
    proof -
      from that obtain r where "k = Suc (ds + r)" using less_imp_Suc_add by blast
      with True assms show ?thesis by (simp add: j)
    qed
    moreover have "64 + m - b < 64" using True by simp
    ultimately show ?thesis using True bit_lsh_at [OF assms m] bit_dval_digit by metis
  next
    case False
    then have "64 * ds + b \<le> j \<longleftrightarrow> ds \<le> k" unfolding j using assms m by (intro iffI; linarith)
    moreover have "j - (64 * ds + b) = 64 * (k - ds) + (m - b)" if "ds \<le> k"
    proof -
      from that obtain r where "k = ds + r" using le_Suc_ex by blast
      with False show ?thesis by (simp add: j)
    qed
    moreover have "m - b < 64" using m by simp
    ultimately show ?thesis using False bit_lsh_at [OF assms m] bit_dval_digit by metis
  qed
  finally show ?thesis by (simp only: k_def m_def)
qed

lemma lsh_at_zero:
  assumes "ds + length X + of_bool (lsh_carry b X (length X) \<noteq> 0) \<le> k"
  shows "lsh_at ds b X k = 0"
proof (cases "k = ds + length X")
  case True
  with assms have "lsh_carry b X (length X) = 0" by (cases "lsh_carry b X (length X) = 0") auto
  with True show ?thesis by (simp add: lsh_at_def)
next
  case False
  with assms show ?thesis by (intro lsh_at_beyond) linarith
qed

lemma dval_lsh:
  assumes "b < 64" and "ds + length X + of_bool (lsh_carry b X (length X) \<noteq> 0) \<le> n"
  shows "int (dval (map (lsh_at ds b X) [0..<n])) = push_bit (64 * ds + b) (int (dval X))"
  by (rule dval_digits) (use bit_push_dval [OF assms(1)] lsh_at_zero assms(2) order_trans in blast)+

lemma shift_parts:
  assumes "unat shift div 64 < 2 ^ 31"
  shows "static_cast_int (shift div 64) = int (unat shift div 64)" and "unat (shift mod 64) = unat shift mod 64"
  using static_cast_int_small [of "shift div 64"] assms
  by (simp_all add: unat_div_distrib unat_mod_distrib)

lemma lsh_loops:
  assumes "ds + length X \<le> length Z" and "b < 64"
  shows "for_up 0 ds (\<lambda>i Z. wr Z i 0) Z = Some (fill (lsh_at ds b X) ds Z)" (is ?zero)
    and "b = 0 \<Longrightarrow> for_up ds (ds + length X) (\<lambda>i Z. do { d \<leftarrow> rd X (i - ds); wr Z i d }) (fill (lsh_at ds b X) ds Z) =
      Some (fill (lsh_at ds b X) (ds + length X) Z)"
    and "for_up ds (ds + length X) (\<lambda>i (Z, carry). do {
            d \<leftarrow> rd X (i - ds);
            Z \<leftarrow> wr Z i (push_bit b d OR carry);
            Some (Z, drop_bit (kDigitBits - b) d) }) (fill (lsh_at ds b X) ds Z, 0) =
      Some (fill (lsh_at ds b X) (ds + length X) Z, lsh_carry b X (length X))" (is "for_up _ _ ?body _ = _")
proof -
  show ?zero
    using for_up_fill [of 0 ds Z "\<lambda>i Z. wr Z i 0" "lsh_at ds b X"] assms by (simp add: wr_def lsh_at_def)
next
  assume "b = 0"
  then show "for_up ds (ds + length X) (\<lambda>i Z. do { d \<leftarrow> rd X (i - ds); wr Z i d }) (fill (lsh_at ds b X) ds Z) =
      Some (fill (lsh_at ds b X) (ds + length X) Z)"
    using assms by (intro for_up_fill) (auto simp: rd_def wr_def lsh_at_def lsh_carry_def digit_at_def less_diff_conv2)
next
  have "for_up ds (ds + length X) ?body (fill (lsh_at ds b X) ds Z, lsh_carry b X (ds - ds)) =
      Some (fill (lsh_at ds b X) (ds + length X) Z, lsh_carry b X (ds + length X - ds))"
    by (rule for_up_fill_state [where st = "\<lambda>k. lsh_carry b X (k - ds)"])
      (use assms in \<open>auto simp: rd_def wr_def lsh_at_def lsh_carry_def digit_at_def less_diff_conv2 Suc_diff_le\<close>)
  then show "for_up ds (ds + length X) ?body (fill (lsh_at ds b X) ds Z, 0) =
      Some (fill (lsh_at ds b X) (ds + length X) Z, lsh_carry b X (length X))"
    by (simp add: lsh_carry_def)
qed

lemma nat_int_plus: "nat (int n + int m) = n + m" "nat (int i - int m) = i - m"
  by simp_all

lemma LeftShift_spec:
  assumes "unat shift div 64 < 2 ^ 31" and "X \<noteq> []"
    and "LeftShift_ResultLength (length X) (last X) shift \<le> int (length Z)"
  shows "\<exists>Z'. LeftShift Z X shift = Some Z' \<and> length Z' = length Z \<and>
           int (dval Z') = push_bit (unat shift) (int (dval X))"
proof -
  define ds b where "ds = unat shift div 64" and "b = unat shift mod 64"
  have s: "static_cast_int (shift div 64) = int ds" "unat (shift mod 64) = b" "b < 64" "unat shift = 64 * ds + b"
    using shift_parts [OF assms(1)] by (simp_all add: ds_def b_def)
  let ?G = "lsh_at ds b X" and ?c = "lsh_carry b X (length X)"
  have c: "?c = drop_bit (64 - b) (last X)" using assms(2) by (simp add: lsh_carry_def digit_at_def last_conv_nth)
  have c0: "b = 0 \<Longrightarrow> ?c = 0" by (simp add: lsh_carry_def)
  have len: "ds + length X + of_bool (?c \<noteq> 0) \<le> length Z"
    using assms(3) c c0 by (cases "b = 0") (auto simp: LeftShift_ResultLength_def s Let_def)
  then have le: "ds + length X \<le> length Z" by simp
  have fin: "zero_from (ds + length X) (fill ?G (ds + length X) Z) = Some (map ?G [0..<length Z])" if "?c = 0"
    by (rule zero_from_fill) (use le that in \<open>auto intro: lsh_at_zero\<close>)
  have "LeftShift Z X shift = Some (map ?G [0..<length Z])"
  proof (cases "?c = 0")
    case True
    then show ?thesis using fin lsh_loops [OF le s(3)]
      by (cases "b = 0") (simp_all add: LeftShift_def s Let_def nat_int_plus add.commute)
  next
    case False
    then have lt: "ds + length X < length Z" and b: "b \<noteq> 0" using len c0 by (simp, metis)
    have "(fill ?G (ds + length X) Z)[ds + length X := ?c] = fill ?G (Suc (ds + length X)) Z"
      using fill_update [OF lt, of ?G] by (simp add: lsh_at_def)
    moreover have "zero_from (Suc (ds + length X)) (fill ?G (Suc (ds + length X)) Z) = Some (map ?G [0..<length Z])"
      by (rule zero_from_fill) (use lt lsh_at_beyond in auto)
    ultimately show ?thesis using False b lt lsh_loops [OF le s(3)]
      by (simp add: LeftShift_def s Let_def nat_int_plus add.commute wr_def)
  qed
  with dval_lsh [OF s(3) len] show ?thesis by (simp add: s(4))
qed

section \<open>Right shift\<close>

definition rsh_at :: "nat \<Rightarrow> nat \<Rightarrow> digits \<Rightarrow> nat \<Rightarrow> digit_t" where
  "rsh_at ds b X k = push_bit (64 - b) (digit_at X (k + ds + 1)) OR drop_bit b (digit_at X (k + ds))"

lemma rsh_at_beyond: "length X \<le> k + ds \<Longrightarrow> rsh_at ds b X k = 0"
  by (simp add: rsh_at_def)

lemma bit_rsh_at:
  assumes "b < 64" and "m < 64"
  shows "bit (rsh_at ds b X k) m \<longleftrightarrow>
    (if m + b < 64 then bit (digit_at X (k + ds)) (m + b) else bit (digit_at X (k + ds + 1)) (m + b - 64))"
proof (cases "m + b < 64")
  case True
  with assms show ?thesis
    by (auto simp: rsh_at_def bit_or_iff bit_push_bit_iff bit_drop_bit_eq add.commute)
next
  case False
  have "\<not> bit (digit_at X n) (b + m)" for n
    using False bit_imp_le_length [of "digit_at X n" "b + m"] by auto
  with False assms show ?thesis
    by (auto simp: rsh_at_def bit_or_iff bit_push_bit_iff bit_drop_bit_eq le_diff_conv)
qed

lemma bit_drop_dval:
  assumes "b < 64"
  shows "bit (drop_bit (64 * ds + b) (int (dval X))) j \<longleftrightarrow> bit (rsh_at ds b X (j div 64)) (j mod 64)"
proof -
  define k m where "k = j div 64" and "m = j mod 64"
  then have j: "j = 64 * k + m" and m: "m < 64" by simp_all
  have "bit (drop_bit (64 * ds + b) (int (dval X))) j \<longleftrightarrow> bit (int (dval X)) (64 * (k + ds) + (m + b))"
    by (simp add: bit_drop_bit_eq j algebra_simps)
  also have "\<dots> \<longleftrightarrow> bit (rsh_at ds b X k) m"
  proof (cases "m + b < 64")
    case True
    then show ?thesis using bit_rsh_at [OF assms m] bit_dval_digit by metis
  next
    case False
    then have "64 * (k + ds) + (m + b) = 64 * (k + ds + 1) + (m + b - 64)" "m + b - 64 < 64"
      using assms m by simp_all
    then show ?thesis using False bit_rsh_at [OF assms m] bit_dval_digit by metis
  qed
  finally show ?thesis by (simp only: k_def m_def)
qed

lemma dval_rsh:
  assumes "b < 64" and "length X \<le> n + ds"
  shows "int (dval (map (rsh_at ds b X) [0..<n])) = drop_bit (64 * ds + b) (int (dval X))"
  by (rule dval_digits) (use bit_drop_dval [OF assms(1)] rsh_at_beyond assms(2) in auto)

lemma any_nonzero_below_eq:
  "i + n \<le> length X \<Longrightarrow> any_nonzero_below X i n = Some (\<exists>k. i \<le> k \<and> k < i + n \<and> X ! k \<noteq> 0)"
proof (induction n arbitrary: i)
  case (Suc n)
  then show ?case
    by (auto simp: rd_def Suc_le_eq) (metis Suc_le_eq le_eq_less_or_eq)+
qed auto

lemma dval_eq_0_iff: "dval X = 0 \<longleftrightarrow> (\<forall>k < length X. X ! k = 0)"
proof (induction X)
  case (Cons x X)
  have "dval (x # X) = 0 \<longleftrightarrow> x = 0 \<and> dval X = 0"
    by (simp add: unat_eq_0 digit_base_def)
  with Cons.IH show ?case by (auto simp: less_Suc_eq_0_disj)
qed simp

lemma dval_mod_power:
  assumes "ds < length X" and "b < 64"
  shows "dval X mod 2 ^ (64 * ds + b) = dval (take ds X) + digit_base ^ ds * unat (take_bit b (X ! ds))"
proof -
  have p: "(2::nat) ^ (64 * ds + b) = digit_base ^ ds * 2 ^ b"
    by (simp add: power_add power_mult digit_base_def)
  have lo: "dval (take ds X) < digit_base ^ ds" using dval_lt [of "take ds X"] assms(1) by simp
  have "dval (drop ds X) = unat (X ! ds) + digit_base * dval (drop (Suc ds) X)"
    using assms(1) by (simp add: Cons_nth_drop_Suc [symmetric])
  moreover have "digit_base = 2 ^ b * 2 ^ (64 - b)"
    using assms(2) by (simp add: digit_base_def flip: power_add)
  ultimately have "dval (drop ds X) mod 2 ^ b = unat (X ! ds) mod 2 ^ b"
    by (metis mod_mult_self2 mult.assoc)
  also have "\<dots> = unat (take_bit b (X ! ds))"
    by (simp only: unsigned_take_bit_eq) (simp add: take_bit_eq_mod)
  finally show ?thesis using lo
    by (subst dval_take_drop [of X ds], unfold p)
      (simp add: mod_mult2_eq)
qed

lemma round_down_iff:
  assumes "ds < length X" and "b < 64"
  shows "(X ! ds AND (push_bit b 1 - 1) \<noteq> 0 \<or> (\<exists>k < ds. X ! k \<noteq> 0)) \<longleftrightarrow> dval X mod 2 ^ (64 * ds + b) \<noteq> 0"
proof -
  have "X ! ds AND (push_bit b 1 - 1) = take_bit b (X ! ds)"
    by (simp add: take_bit_eq_mask mask_eq_exp_minus_1)
  moreover have "dval (take ds X) = 0 \<longleftrightarrow> (\<forall>k < ds. X ! k = 0)"
    using assms(1) by (auto simp: dval_eq_0_iff)
  ultimately show ?thesis unfolding dval_mod_power [OF assms]
    by (auto simp: unat_eq_0)
qed

lemma RightShift_ResultLength_eq:
  assumes "unat shift div 64 < 2 ^ 31" and "unat shift div 64 < length X"
  shows "RightShift_ResultLength X x_sign shift st =
    (let round = x_sign \<and> dval X mod 2 ^ unat shift \<noteq> 0;
         n = int (length X - unat shift div 64)
     in Some (if round \<and> unat shift mod 64 = 0 \<and> digit_ismax (last X) then n + 1 else n, st\<lparr>must_round_down := round\<rparr>))"
proof -
  define ds b where "ds = unat shift div 64" and "b = unat shift mod 64"
  have s: "static_cast_int (shift div 64) = int ds" "unat (shift mod 64) = b" "b < 64" "unat shift = 64 * ds + b"
    using shift_parts [OF assms(1)] by (simp_all add: ds_def b_def)
  have ds: "ds < length X" and X: "X \<noteq> []" using assms(2) by (auto simp: ds_def)
  have any: "any_nonzero_below X 0 ds = Some (\<exists>k < ds. X ! k \<noteq> 0)"
    using any_nonzero_below_eq [of 0 ds X] ds by simp
  have "(if X ! ds AND (push_bit b 1 - 1) \<noteq> 0 then Some True else any_nonzero_below X 0 ds) =
        Some (dval X mod 2 ^ unat shift \<noteq> 0)"
    using round_down_iff [OF ds s(3)] by (auto simp: any s(4))
  with ds X show ?thesis
    by (cases x_sign) (auto simp: RightShift_ResultLength_def s Let_def rd_def msd_def last_conv_nth of_nat_diff
      simp flip: ds_def b_def)
qed

lemma rsh_loops:
  assumes "length X - ds \<le> length Z" and "ds < length X" and "b < 64"
  shows "b = 0 \<Longrightarrow> for_up 0 (length X - ds) (\<lambda>i Z. do { d \<leftarrow> rd X (i + ds); wr Z i d }) Z =
      Some (fill (rsh_at ds b X) (length X - ds) Z)"
    and "for_up 0 (length X - ds - 1) (\<lambda>i (Z, carry). do {
            d \<leftarrow> rd X (i + ds + 1);
            Z \<leftarrow> wr Z i (push_bit (kDigitBits - b) d OR carry);
            Some (Z, drop_bit b d) }) (Z, drop_bit b (X ! ds)) =
      Some (fill (rsh_at ds b X) (length X - ds - 1) Z, drop_bit b (last X))" (is "for_up _ _ ?body _ = _")
proof -
  assume "b = 0"
  then show "for_up 0 (length X - ds) (\<lambda>i Z. do { d \<leftarrow> rd X (i + ds); wr Z i d }) Z =
      Some (fill (rsh_at ds b X) (length X - ds) Z)"
    using for_up_fill [of 0 "length X - ds" Z "\<lambda>i Z. do { d \<leftarrow> rd X (i + ds); wr Z i d }" "rsh_at ds b X"] assms
    by (auto simp: rd_def wr_def rsh_at_def digit_at_def less_diff_conv)
next
  have "for_up 0 (length X - ds - 1) ?body (fill (rsh_at ds b X) 0 Z, drop_bit b (digit_at X (0 + ds))) =
      Some (fill (rsh_at ds b X) (length X - ds - 1) Z, drop_bit b (digit_at X (length X - ds - 1 + ds)))"
    by (rule for_up_fill_state [where st = "\<lambda>k. drop_bit b (digit_at X (k + ds))"])
      (use assms in \<open>auto simp: rd_def wr_def rsh_at_def digit_at_def less_diff_conv\<close>)
  moreover have "X \<noteq> []" using assms(2) by auto
  ultimately show "for_up 0 (length X - ds - 1) ?body (Z, drop_bit b (X ! ds)) =
      Some (fill (rsh_at ds b X) (length X - ds - 1) Z, drop_bit b (last X))"
    using assms by (simp add: digit_at_def last_conv_nth)
qed

lemma RightShift_eq:
  assumes "unat shift div 64 < 2 ^ 31" and "unat shift div 64 < length X"
    and "length X - unat shift div 64 \<le> length Z"
  shows "RightShift Z X shift st =
    (let Z' = map (rsh_at (unat shift div 64) (unat shift mod 64) X) [0..<length Z]
     in if must_round_down st then Add_digit Z' 1 else Some Z')"
proof -
  define ds b where "ds = unat shift div 64" and "b = unat shift mod 64"
  have s: "static_cast_int (shift div 64) = int ds" "unat (shift mod 64) = b" "b < 64"
    using shift_parts [OF assms(1)] by (simp_all add: ds_def b_def)
  have ds: "ds < length X" and le: "length X - ds \<le> length Z" and X: "X \<noteq> []" using assms(2,3) by (auto simp: ds_def)
  let ?G = "rsh_at ds b X" and ?n = "length X - ds"
  have n: "nat (int (length X) - int ds) = ?n" "nat (int (length X) - int ds - 1) = ?n - 1" "Suc (?n - 1) = ?n"
    using ds by simp_all
  have i: "nat (int i + int ds) = i + ds" "nat (int i + int ds + 1) = i + ds + 1" for i by simp_all
  have zf: "zero_from ?n (fill ?G ?n Z) = Some (map ?G [0..<length Z])"
    by (rule zero_from_fill) (use le rsh_at_beyond in auto)
  have "(fill ?G (?n - 1) Z)[?n - 1 := drop_bit b (last X)] = fill ?G ?n Z"
    using fill_update [of "?n - 1" Z ?G, unfolded n] ds le X by (simp add: rsh_at_def digit_at_def last_conv_nth)
  then have top: "wr (fill ?G (?n - 1) Z) (?n - 1) (drop_bit b (last X)) = Some (fill ?G ?n Z)"
    using ds le by (simp add: wr_def)
  show ?thesis unfolding ds_def [symmetric] b_def [symmetric] using rsh_loops [OF le ds s(3)] zf top ds
    by (cases "b = 0") (simp_all add: RightShift_def s Let_def n i rd_def [of X ds] del: One_nat_def diff_diff_left)
qed

lemma digit_ismax_iff: "digit_ismax x \<longleftrightarrow> unat x + 1 = digit_base"
proof -
  have "digit_ismax x \<longleftrightarrow> x = - 1" unfolding digit_ismax_def by (metis bit.double_compl not_eq_complement bit.compl_zero)
  also have "\<dots> \<longleftrightarrow> unat x = unat (- 1 :: digit_t)" by (simp only: word_unat_eq_iff)
  also have "\<dots> \<longleftrightarrow> unat x + 1 = digit_base" by (simp add: unsigned_minus_1_eq_mask mask_eq_exp_minus_1 digit_base_def)
  finally show ?thesis .
qed

lemma dval_last: "X \<noteq> [] \<Longrightarrow> dval X = dval (butlast X) + digit_base ^ (length X - 1) * unat (last X)"
  by (metis append_butlast_last_id dval_append dval.simps add_cancel_left_right length_butlast mult_0_right add_0_right)

lemma round_up_not_max:
  assumes "X \<noteq> []" and "\<not> digit_ismax (last X)"
  shows "dval X + 1 < digit_base ^ length X"
proof -
  have "unat (last X) + 2 \<le> digit_base" using assms(2) unat_lt_base [of "last X"] by (simp add: digit_ismax_iff)
  then have "digit_base ^ (length X - 1) * unat (last X) + 2 * digit_base ^ (length X - 1) \<le> digit_base * digit_base ^ (length X - 1)"
    by (metis mult.commute mult_le_mono2 add_mult_distrib)
  moreover have "digit_base * digit_base ^ (length X - 1) = digit_base ^ length X"
    using assms(1) by (cases X) simp_all
  moreover have "dval (butlast X) < digit_base ^ (length X - 1)" using dval_lt [of "butlast X"] by simp
  moreover have "1 \<le> digit_base ^ (length X - 1)" by (simp add: Suc_leI)
  ultimately show ?thesis using dval_last [OF assms(1)] by linarith
qed

lemma round_up_fits:
  assumes "ds < length X" and "b < 64"
    and "length X - ds + of_bool (b = 0 \<and> digit_ismax (last X)) \<le> n"
  shows "dval X div 2 ^ (64 * ds + b) + 1 < digit_base ^ n"
proof -
  let ?Y = "drop ds X"
  have Y: "?Y \<noteq> []" "last ?Y = last X" using assms(1) by auto
  have "dval (take ds X) < digit_base ^ ds" using dval_lt [of "take ds X"] assms(1) by simp
  then have "dval X div digit_base ^ ds = dval ?Y" by (subst dval_take_drop [of X ds]) simp
  then have q: "dval X div 2 ^ (64 * ds + b) = dval ?Y div 2 ^ b"
    by (simp add: power_add power_mult div_mult2_eq digit_base_def)
  have n: "digit_base ^ length ?Y \<le> digit_base ^ n"
    using assms(3) by (intro power_increasing) (auto simp: Suc_leI)
  consider "b \<noteq> 0" | "b = 0" "\<not> digit_ismax (last X)" | "b = 0" "digit_ismax (last X)" by blast
  then show ?thesis
  proof cases
    case 1
    then have "(2::nat) \<le> 2 ^ b" by (cases b) simp_all
    then have "dval ?Y div 2 ^ b \<le> dval ?Y div 2" by (rule div_le_mono2 [rotated]) simp
    moreover have "4 \<le> digit_base ^ length ?Y"
      using self_le_power [of digit_base "length ?Y"] Y(1) by (simp add: digit_base_def)
    ultimately have "dval ?Y div 2 ^ b + 1 < digit_base ^ length ?Y" using dval_lt [of ?Y] by linarith
    with n q show ?thesis by linarith
  next
    case 2
    with Y(2) have "dval ?Y + 1 < digit_base ^ length ?Y" by (intro round_up_not_max [OF Y(1)]) simp
    from less_le_trans [OF this n] q 2 show ?thesis by simp
  next
    case 3
    then have "Suc (length ?Y) \<le> n" using assms by simp
    from succ_digits_lt [OF refl this] have "int (dval ?Y + 1) < int (digit_base ^ n)" by simp
    with 3 q show ?thesis by (simp only: of_nat_less_iff) simp
  qed
qed

lemma floor_shift:
  "drop_bit s (- int x) = (if x mod 2 ^ s = 0 then - int (x div 2 ^ s) else - int (x div 2 ^ s) - 1)"
proof -
  have "int (x mod 2 ^ s) = int x mod 2 ^ s" "int (x div 2 ^ s) = int x div 2 ^ s"
    by (simp_all add: zmod_int zdiv_int)
  then show ?thesis using zdiv_zminus1_eq_if [of "2 ^ s" "int x"] by (auto simp: drop_bit_eq_div)
qed

lemma RightShift_spec:
  assumes "unat shift div 64 < 2 ^ 31"
    and "RightShift_ResultLength X x_sign shift st0 = Some (len, st)" and "0 < len" and "nat len \<le> length Z"
  shows "\<exists>Z'. RightShift Z X shift st = Some Z' \<and> length Z' = length Z \<and>
           sval x_sign Z' = drop_bit (unat shift) (sval x_sign X)"
proof -
  define ds b where "ds = unat shift div 64" and "b = unat shift mod 64"
  have s: "b < 64" "unat shift = 64 * ds + b" by (simp_all add: ds_def b_def)
  have ds: "ds < length X"
    using assms(2,3) shift_parts [OF assms(1)]
    by (auto simp: RightShift_ResultLength_def Let_def ds_def split: if_splits)
  define r where "r \<longleftrightarrow> x_sign \<and> dval X mod 2 ^ unat shift \<noteq> 0"
  from RightShift_ResultLength_eq [OF assms(1) ds [unfolded ds_def], of x_sign st0] assms(2)
  have st: "must_round_down st = r"
    and len: "len = int (length X - ds) + of_bool (r \<and> b = 0 \<and> digit_ismax (last X))"
    by (auto simp: Let_def r_def ds_def b_def split: if_splits)
  have le: "length X - ds \<le> length Z" using len assms(4) by (cases "r \<and> b = 0 \<and> digit_ismax (last X)") auto
  let ?Z = "map (rsh_at ds b X) [0..<length Z]"
  have "int (dval ?Z) = drop_bit (64 * ds + b) (int (dval X))" by (rule dval_rsh [OF s(1)]) (use le in simp)
  then have "int (dval ?Z) = int (dval X div 2 ^ unat shift)" by (simp add: drop_bit_eq_div zdiv_int s(2))
  then have Z: "dval ?Z = dval X div 2 ^ unat shift" by (simp only: of_nat_eq_iff)
  have call: "RightShift Z X shift st = (if r then Add_digit ?Z 1 else Some ?Z)"
    using RightShift_eq [OF assms(1) ds [unfolded ds_def] le [unfolded ds_def], of st] st
    by (simp add: Let_def ds_def b_def)
  show ?thesis
  proof (cases r)
    case False
    with call Z show ?thesis
      by (cases x_sign) (simp_all add: r_def sval_def floor_shift, simp add: drop_bit_eq_div zdiv_int)
  next
    case True
    with len assms(4) have fit: "length X - ds + of_bool (b = 0 \<and> digit_ismax (last X)) \<le> length Z"
      by (cases "b = 0 \<and> digit_ismax (last X)") auto
    have "dval ?Z + unat (1 :: digit_t) < digit_base ^ length ?Z"
      using round_up_fits [OF ds s(1) fit] by (simp add: Z s(2) del: map_map)
    moreover have "?Z \<noteq> []" using ds le by auto
    ultimately obtain Z' where "Add_digit ?Z 1 = Some Z'" "length Z' = length ?Z" "dval Z' = dval ?Z + unat (1 :: digit_t)"
      using Add_digit_spec [of ?Z 1] by blast
    with True call Z show ?thesis by (auto simp: r_def sval_def floor_shift)
  qed
qed

end
