(* ===== verification/Bigint_Truncate.thy ===== *)
theory Bigint_Truncate
  imports Bigint_Shift
begin

text \<open>
  The \<open>asIntN\<close> and \<open>asUintN\<close> operations of \<open>bigint/bitwise.cc\<close>.  They are proved to be the reductions of the
  signed value to \<open>n\<close> bits (\<open>signed_take_bit (n - 1)\<close> and \<open>take_bit n\<close>), including the cases in which the
  result length is -1 and the caller keeps its operand.
\<close>

definition DIV_CEIL :: "nat \<Rightarrow> nat \<Rightarrow> nat" where
  "DIV_CEIL x y = (x - 1) div y + 1"

definition TruncateToNBits :: "digits \<Rightarrow> digits \<Rightarrow> nat \<Rightarrow> digits option" where
  "TruncateToNBits Z X n =
     (let digits = DIV_CEIL n kDigitBits;
          bits = n mod kDigitBits;
          last = digits - 1
      in do {
        Z \<leftarrow> for_up 0 last (\<lambda>i Z. do { x \<leftarrow> rd X i; wr Z i x }) Z;
        msd \<leftarrow> rd X last;
        let msd = (if bits \<noteq> 0 then (let drop = kDigitBits - bits in drop_bit drop (push_bit drop msd)) else msd);
        wr Z last msd })"

definition TruncateAndSubFromPowerOfTwo :: "digits \<Rightarrow> digits \<Rightarrow> nat \<Rightarrow> digits option" where
  "TruncateAndSubFromPowerOfTwo Z X n =
     (let digits = DIV_CEIL n kDigitBits;
          bits = n mod kDigitBits;
          last = digits - 1;
          have_x = min last (length X)
      in do {
        (Z, borrow) \<leftarrow> for_up 0 have_x (\<lambda>i (Z, borrow). do {
          x \<leftarrow> rd X i;
          let (z, borrow) = digit_sub2 0 x borrow;
          Z \<leftarrow> wr Z i z;
          Some (Z, borrow) }) (Z, 0);
        (Z, borrow) \<leftarrow> for_up have_x last (\<lambda>i (Z, borrow). do {
          let (z, borrow) = digit_sub 0 borrow;
          Z \<leftarrow> wr Z i z;
          Some (Z, borrow) }) (Z, borrow);
        msd \<leftarrow> (if last < length X then rd X last else Some 0);
        if bits = 0 then wr Z last (fst (digit_sub2 0 msd borrow))
        else do {
          let drop = kDigitBits - bits;
          let msd = drop_bit drop (push_bit drop msd);
          let minuend_msd = push_bit bits 1;
          let result_msd = fst (digit_sub2 minuend_msd msd borrow);
          wr Z last (result_msd AND (minuend_msd - 1)) } })"

fun all_zero_below :: "digits \<Rightarrow> nat \<Rightarrow> bool option" where
  "all_zero_below X 0 = Some True"
| "all_zero_below X (Suc i) = do { x \<leftarrow> rd X i; if x \<noteq> 0 then Some False else all_zero_below X i }"

definition AsIntNResultLength :: "digits \<Rightarrow> bool \<Rightarrow> nat \<Rightarrow> int option" where
  "AsIntNResultLength X x_negative n =
     (let needed_digits = DIV_CEIL n kDigitBits
      in if length X < needed_digits then Some (- 1)
         else if length X > needed_digits then Some (int needed_digits)
         else do {
           top_digit \<leftarrow> rd X (needed_digits - 1);
           let compare_digit = push_bit ((n - 1) mod kDigitBits) 1;
           if top_digit < compare_digit then Some (- 1)
           else if top_digit > compare_digit then Some (int needed_digits)
           else if \<not> x_negative then Some (int needed_digits)
           else do {
             zeros \<leftarrow> all_zero_below X (needed_digits - 1);
             Some (if zeros then - 1 else int needed_digits) } })"

definition AsIntN :: "digits \<Rightarrow> digits \<Rightarrow> bool \<Rightarrow> nat \<Rightarrow> (digits \<times> bool) option" where
  "AsIntN Z X x_negative n =
     (let needed_digits = DIV_CEIL n kDigitBits
      in do {
        top_digit \<leftarrow> rd X (needed_digits - 1);
        let compare_digit = push_bit ((n - 1) mod kDigitBits) 1;
        let has_bit = (top_digit AND compare_digit = compare_digit);
        if \<not> has_bit then do {
          Z \<leftarrow> TruncateToNBits Z X n;
          Some (Z, x_negative)
        } else do {
          Z \<leftarrow> TruncateAndSubFromPowerOfTwo Z X n;
          if \<not> x_negative then Some (Z, True)
          else if top_digit AND (compare_digit - 1) \<noteq> 0 then Some (Z, False)
          else do {
            zeros \<leftarrow> all_zero_below X (needed_digits - 1);
            Some (Z, zeros) } } })"

definition AsUintN_Pos_ResultLength :: "digits \<Rightarrow> nat \<Rightarrow> int option" where
  "AsUintN_Pos_ResultLength X n =
     (let needed_digits = DIV_CEIL n kDigitBits
      in if length X < needed_digits then Some (- 1)
         else if length X > needed_digits then Some (int needed_digits)
         else (let bits_in_top_digit = n mod kDigitBits
               in if bits_in_top_digit = 0 then Some (- 1)
                  else do {
                    top_digit \<leftarrow> rd X (needed_digits - 1);
                    Some (if drop_bit bits_in_top_digit top_digit = 0 then - 1 else int needed_digits) }))"

definition AsUintN_Pos :: "digits \<Rightarrow> digits \<Rightarrow> nat \<Rightarrow> digits option" where
  "AsUintN_Pos Z X n = TruncateToNBits Z X n"

definition AsUintN_Neg :: "digits \<Rightarrow> digits \<Rightarrow> nat \<Rightarrow> digits option" where
  "AsUintN_Neg Z X n = TruncateAndSubFromPowerOfTwo Z X n"

definition AsUintN_Neg_ResultLength :: "nat \<Rightarrow> nat" where
  "AsUintN_Neg_ResultLength n = (n - 1) div kDigitBits + 1"

section \<open>Truncation\<close>

lemma drop_push_bit_digit: "drop_bit (64 - b) (push_bit (64 - b) (w :: digit_t)) = take_bit b w" if "b < 64"
proof (rule bit_eqI)
  fix j assume "possible_bit TYPE(digit_t) j"
  then have "j < 64" by (simp add: possible_bit_word)
  with that show "bit (drop_bit (64 - b) (push_bit (64 - b) w)) j = bit (take_bit b w) j"
    by (auto simp: bit_drop_bit_eq bit_push_bit_iff bit_take_bit_iff)
qed

lemma bit_take_dval:
  "bit (take_bit n (int (dval X))) j \<longleftrightarrow> bit (take_bit (n - 64 * (j div 64)) (digit_at X (j div 64))) (j mod 64)"
proof -
  have "j < n \<longleftrightarrow> j mod 64 < n - 64 * (j div 64)" using div_mult_mod_eq [of j 64] by linarith
  then show ?thesis by (simp add: bit_take_bit_iff bit_int_dval)
qed

lemma take_bit_beyond:
  fixes f :: "nat \<Rightarrow> digit_t"
  assumes "0 < n" and "DIV_CEIL n 64 \<le> k"
  shows "take_bit (n - 64 * k) (f k) = 0"
proof -
  have "n \<le> 64 * k" using assms div_mult_mod_eq [of "n - 1" 64] mod_less_divisor [of 64 "n - 1"]
    unfolding DIV_CEIL_def by linarith
  then show ?thesis by simp
qed

lemma dval_take_bit:
  assumes "0 < n" and "DIV_CEIL n 64 \<le> m"
  shows "int (dval (map (\<lambda>k. take_bit (n - 64 * k) (digit_at X k)) [0..<m])) = take_bit n (int (dval X))"
  by (rule dval_digits) (use bit_take_dval take_bit_beyond [OF assms(1)] assms(2) in auto)

lemma last_digit_bits:
  assumes "0 < n"
  shows "k < DIV_CEIL n 64 - 1 \<Longrightarrow> 64 \<le> n - 64 * k"
    and "n mod 64 \<noteq> 0 \<Longrightarrow> n - 64 * (DIV_CEIL n 64 - 1) = n mod 64"
    and "n mod 64 = 0 \<Longrightarrow> n - 64 * (DIV_CEIL n 64 - 1) = 64"
proof -
  have e: "n - 1 = 64 * ((n - 1) div 64) + (n - 1) mod 64" by simp
  show "64 \<le> n - 64 * k" if "k < DIV_CEIL n 64 - 1"
    using that e assms unfolding DIV_CEIL_def by linarith
  obtain q r where n: "n = 64 * q + r" and r: "r < 64"
    using div_mult_mod_eq [of n 64] mod_less_divisor [of 64 n] by (metis mult.commute zero_less_numeral)
  then have m: "n mod 64 = r" by simp
  show "n - 64 * (DIV_CEIL n 64 - 1) = n mod 64" if "n mod 64 \<noteq> 0"
  proof -
    from that m n have "n - 1 = 64 * q + (r - 1)" by simp
    moreover have "r - 1 < 64" using r by simp
    ultimately have "(n - 1) div 64 = q" by simp
    then show ?thesis using n r by (simp add: DIV_CEIL_def)
  qed
  show "n - 64 * (DIV_CEIL n 64 - 1) = 64" if "n mod 64 = 0"
  proof -
    from that m n assms obtain p where p: "n = 64 * p + 64" by (cases q) simp_all
    then have "n - 1 = 64 * p + 63" by simp
    then have "(n - 1) div 64 = p" by simp
    with p show ?thesis by (simp add: DIV_CEIL_def)
  qed
qed

lemma TruncateToNBits_eq:
  assumes "0 < n" and "DIV_CEIL n 64 \<le> length X" and "length Z = DIV_CEIL n 64"
  shows "TruncateToNBits Z X n = Some (map (\<lambda>k. take_bit (n - 64 * k) (digit_at X k)) [0..<length Z])"
    (is "_ = Some (map ?G _)")
proof -
  define l where "l = DIV_CEIL n 64 - 1"
  have l: "DIV_CEIL n 64 = Suc l" by (simp add: l_def DIV_CEIL_def)
  have "for_up 0 l (\<lambda>i Z. do { x \<leftarrow> rd X i; wr Z i x }) (fill ?G 0 Z) = Some (fill ?G l Z)"
    by (rule for_up_fill)
      (use assms l last_digit_bits(1) [OF assms(1), folded l_def] in \<open>auto simp: rd_def wr_def digit_at_def take_bit_word_eq_self\<close>)
  moreover have "(if n mod 64 \<noteq> 0 then drop_bit (64 - n mod 64) (push_bit (64 - n mod 64) (X ! l)) else X ! l) = ?G l"
    using last_digit_bits(2,3) [OF assms(1), folded l_def] assms(2) l
    by (auto simp: drop_push_bit_digit digit_at_def take_bit_word_eq_self)
  moreover have "(fill ?G l Z)[l := ?G l] = map ?G [0..<length Z]"
    using fill_update [of l Z ?G] fill_all [of ?G Z] assms(3) l by simp
  ultimately show ?thesis using assms l
    by (simp add: TruncateToNBits_def Let_def rd_def wr_def split: if_splits)
qed

section \<open>Digits of the two's complement\<close>

primrec nborrow_at :: "digits \<Rightarrow> nat \<Rightarrow> digit_t" where
  "nborrow_at X 0 = 0"
| "nborrow_at X (Suc i) = snd (digit_sub2 0 (digit_at X i) (nborrow_at X i))"

definition neg_at :: "digits \<Rightarrow> nat \<Rightarrow> digit_t" where
  "neg_at X i = fst (digit_sub2 0 (digit_at X i) (nborrow_at X i))"

lemma neg_sub2_at: "digit_sub2 0 (digit_at X i) (nborrow_at X i) = (neg_at X i, nborrow_at X (Suc i))"
  by (simp add: neg_at_def)

lemma neg_sub2_nth: "i < length X \<Longrightarrow> digit_sub2 0 (X ! i) (nborrow_at X i) = (neg_at X i, nborrow_at X (Suc i))"
  using neg_sub2_at [of X i] by (simp add: digit_at_def del: nborrow_at.simps)

lemma nborrow_le: "unat (nborrow_at X i) \<le> 1"
proof (induction i)
  case (Suc i)
  from digit_sub2_eq(2) [OF neg_sub2_at [of X i]] Suc show ?case by simp
qed simp

lemma neg_at_eq:
  "unat (neg_at X i) + unat (digit_at X i) + unat (nborrow_at X i) = digit_base * unat (nborrow_at X (Suc i))"
  using digit_sub2_eq(1) [OF neg_sub2_at [of X i] nborrow_le] by simp

lemma dval_neg_at:
  "dval (map (neg_at X) [0..<n]) + dval (map (digit_at X) [0..<n]) = digit_base ^ n * unat (nborrow_at X n)"
proof (induction n)
  case (Suc n)
  let ?p = "digit_base ^ n"
  have "?p * unat (neg_at X n) + ?p * unat (digit_at X n) + ?p * unat (nborrow_at X n) = ?p * digit_base * unat (nborrow_at X (Suc n))"
    using arg_cong [OF neg_at_eq [of X n], of "\<lambda>v. ?p * v"] by (simp only: add_mult_distrib2 mult.assoc)
  with Suc.IH show ?case
    by (simp add: mult.commute [of digit_base] del: nborrow_at.simps)
qed simp

lemma bit_neg: "bit (- int (dval X)) j \<longleftrightarrow> bit (neg_at X (j div 64)) (j mod 64)"
proof -
  let ?n = "max (length X) (Suc (j div 64))"
  have d: "dval (map (digit_at X) [0..<?n]) = dval X" by (rule dval_digit_at) simp
  have lt: "dval (map (neg_at X) [0..<?n]) < digit_base ^ ?n"
    using dval_lt [of "map (neg_at X) [0..<?n]"] by simp
  have "int (dval (map (neg_at X) [0..<?n])) = (- int (dval X)) mod int (digit_base ^ ?n)"
  proof (rule mod_pos_pos_trivial [symmetric, THEN trans])
    show "0 \<le> int (dval (map (neg_at X) [0..<?n]))" "int (dval (map (neg_at X) [0..<?n])) < int (digit_base ^ ?n)"
      using lt by simp_all
    have "int (dval (map (neg_at X) [0..<?n])) = - int (dval X) + int (digit_base ^ ?n) * int (unat (nborrow_at X ?n))"
      using arg_cong [OF dval_neg_at [of X ?n, unfolded d], of int] by (simp only: of_nat_add of_nat_mult)
    then show "int (dval (map (neg_at X) [0..<?n])) mod int (digit_base ^ ?n) = (- int (dval X)) mod int (digit_base ^ ?n)"
      by (simp only: mod_mult_self2)
  qed
  also have "\<dots> = take_bit (64 * ?n) (- int (dval X))"
    by (simp add: take_bit_eq_mod digit_base_def power_mult)
  finally have "bit (take_bit (64 * ?n) (- int (dval X))) j \<longleftrightarrow> bit (int (dval (map (neg_at X) [0..<?n]))) j" by simp
  moreover have k: "j div 64 < ?n" by (simp add: less_max_iff_disj)
  moreover have "j < 64 * ?n" using k by (simp only: div_less_iff_less_mult [OF zero_less_numeral] mult.commute)
  ultimately show ?thesis by (simp add: bit_take_bit_iff bit_int_dval_map)
qed

lemma dval_neg_bits:
  assumes "0 < n" and "DIV_CEIL n 64 \<le> m"
  shows "int (dval (map (\<lambda>k. take_bit (n - 64 * k) (neg_at X k)) [0..<m])) = take_bit n (- int (dval X))"
proof (rule dval_digits)
  fix j
  have "j < n \<longleftrightarrow> j mod 64 < n - 64 * (j div 64)" using div_mult_mod_eq [of j 64] by linarith
  then show "bit (take_bit n (- int (dval X))) j \<longleftrightarrow> bit (take_bit (n - 64 * (j div 64)) (neg_at X (j div 64))) (j mod 64)"
    by (simp add: bit_take_bit_iff bit_neg)
qed (use take_bit_beyond [OF assms(1)] assms(2) in auto)

lemma digit_sub2_zero: "digit_sub2 0 0 b = digit_sub 0 b"
  by (simp add: digit_sub2_def digit_sub_def)

lemma neg_loops:
  assumes "l \<le> length Z" and "\<And>k. k < l \<Longrightarrow> G k = neg_at X k"
  shows "for_up 0 (min l (length X)) (\<lambda>i (Z, borrow). do {
          x \<leftarrow> rd X i;
          let (z, borrow) = digit_sub2 0 x borrow;
          Z \<leftarrow> wr Z i z;
          Some (Z, borrow) }) (Z, 0) = Some (fill G (min l (length X)) Z, nborrow_at X (min l (length X)))"
      (is "for_up _ _ ?b1 _ = _")
    and "for_up (min l (length X)) l (\<lambda>i (Z, borrow). do {
          let (z, borrow) = digit_sub 0 borrow;
          Z \<leftarrow> wr Z i z;
          Some (Z, borrow) }) (fill G (min l (length X)) Z, nborrow_at X (min l (length X))) = Some (fill G l Z, nborrow_at X l)"
proof -
  have "for_up 0 (min l (length X)) ?b1 (fill G 0 Z, nborrow_at X 0) =
      Some (fill G (min l (length X)) Z, nborrow_at X (min l (length X)))"
    by (rule for_up_fill_state)
      (use assms in \<open>auto simp: rd_def wr_def neg_sub2_nth simp del: nborrow_at.simps\<close>)
  then show "for_up 0 (min l (length X)) ?b1 (Z, 0) = Some (fill G (min l (length X)) Z, nborrow_at X (min l (length X)))"
    by simp
  have "digit_sub 0 (nborrow_at X k) = (neg_at X k, nborrow_at X (Suc k))" if "length X \<le> k" for k
    using neg_sub2_at [of X k] that by (simp add: digit_sub2_zero)
  then show "for_up (min l (length X)) l (\<lambda>i (Z, borrow). do {
          let (z, borrow) = digit_sub 0 borrow;
          Z \<leftarrow> wr Z i z;
          Some (Z, borrow) }) (fill G (min l (length X)) Z, nborrow_at X (min l (length X))) = Some (fill G l Z, nborrow_at X l)"
    using assms by (intro for_up_fill_state) (auto simp: wr_def simp del: nborrow_at.simps)
qed

lemma fst_digit_sub2:
  assumes "unat c \<le> 1"
  shows "fst (digit_sub2 a b c) = a - (b + c)"
proof -
  obtain r k where rk: "digit_sub2 a b c = (r, k)" by fastforce
  have "word_of_nat (unat r + unat b + unat c) = (word_of_nat (unat a + digit_base * unat k) :: digit_t)"
    using digit_sub2_eq(1) [OF rk assms] by simp
  moreover have "(word_of_nat digit_base :: digit_t) = 0" by (simp only: word_of_nat_eq_0_iff digit_base_def) simp
  ultimately have "r + b + c = a" by simp
  with rk show ?thesis by (simp add: algebra_simps)
qed

lemma take_bit_sub_power_int: "take_bit b (push_bit b 1 - (take_bit b i + j)) = take_bit b (- i - j)" for i j :: int
proof -
  have "(2::int) ^ b - (i mod 2 ^ b + j) = (- i - j) + 2 ^ b * (1 + i div 2 ^ b)"
    using mult_div_mod_eq [of "2 ^ b" i] unfolding distrib_left by linarith
  then have "(2 ^ b - (i mod 2 ^ b + j)) mod 2 ^ b = (- i - j) mod 2 ^ b" by (simp only: mod_mult_self2)
  then show ?thesis by (simp only: take_bit_eq_mod push_bit_eq_mult mult_1_left)
qed

lemma take_bit_sub_power:
  fixes d c :: digit_t
  assumes "b < 64"
  shows "take_bit b (push_bit b 1 - (take_bit b d + c)) = take_bit b (0 - (d + c))"
proof -
  have "take_bit b (push_bit b 1 - (take_bit b d + c)) = take_bit b (- d - c)"
    using assms
    apply transfer
    apply (subst take_bit_take_bit)+
    subgoal for b d c using take_bit_sub_power_int [of b d c] by (simp add: min_absorb2)
    done
  then show ?thesis by simp
qed

lemma TruncateAndSubFromPowerOfTwo_eq:
  assumes "0 < n" and "length Z = DIV_CEIL n 64"
  shows "TruncateAndSubFromPowerOfTwo Z X n = Some (map (\<lambda>k. take_bit (n - 64 * k) (neg_at X k)) [0..<length Z])"
    (is "_ = Some (map ?G _)")
proof -
  define l where "l = DIV_CEIL n 64 - 1"
  have l: "DIV_CEIL n 64 = Suc l" by (simp add: l_def DIV_CEIL_def)
  have lZ: "l \<le> length Z" using assms(2) l by simp
  have full: "?G k = neg_at X k" if "k < l" for k
    using last_digit_bits(1) [OF assms(1), folded l_def] that by (simp add: take_bit_word_eq_self)
  note loops = neg_loops [OF lZ full, unfolded Let_def]
  have msd: "rd X l = Some (digit_at X l)" if "l < length X" using that by (simp add: rd_def digit_at_def)
  have exact: "fst (digit_sub2 0 (digit_at X l) (nborrow_at X l)) = ?G l" if "n mod 64 = 0"
    using last_digit_bits(3) [OF assms(1) that, folded l_def] by (simp add: neg_at_def take_bit_word_eq_self)
  have part: "fst (digit_sub2 (push_bit (n mod 64) 1) (drop_bit (64 - n mod 64) (push_bit (64 - n mod 64) (digit_at X l))) (nborrow_at X l))
      AND (push_bit (n mod 64) 1 - 1) = ?G l" if "n mod 64 \<noteq> 0"
  proof -
    have "w AND (push_bit (n mod 64) 1 - 1) = take_bit (n mod 64) w" for w :: digit_t
      by (simp add: take_bit_eq_mask mask_eq_exp_minus_1)
    then show ?thesis using last_digit_bits(2) [OF assms(1) that, folded l_def]
      by (simp only: drop_push_bit_digit fst_digit_sub2 [OF nborrow_le] take_bit_sub_power neg_at_def
        mod_less_divisor zero_less_numeral)
  qed
  have "wr (fill ?G l Z) l (?G l) = Some (map ?G [0..<length Z])"
    using fill_update [of l Z ?G] fill_all [of ?G Z] assms(2) l by (simp add: wr_def)
  with loops msd exact part show ?thesis
    by (cases "n mod 64 = 0"; cases "l < length X") (simp_all add: TruncateAndSubFromPowerOfTwo_def Let_def l)
qed

section \<open>asUintN\<close>

lemma AsUintN_Pos_spec:
  assumes "0 < n" and "AsUintN_Pos_ResultLength X n = Some (int (length Z))"
  shows "\<exists>Z'. AsUintN_Pos Z X n = Some Z' \<and> length Z' = length Z \<and> int (dval Z') = take_bit n (int (dval X))"
proof -
  have "DIV_CEIL n 64 \<le> length X" "length Z = DIV_CEIL n 64"
    using assms(2) by (auto simp: AsUintN_Pos_ResultLength_def Let_def rd_def split: if_splits)
  from TruncateToNBits_eq [OF assms(1) this] dval_take_bit [OF assms(1), of "length Z" X] \<open>length Z = DIV_CEIL n 64\<close>
  show ?thesis by (simp add: AsUintN_Pos_def)
qed

lemma AsUintN_Neg_spec:
  assumes "0 < n" and "length Z = AsUintN_Neg_ResultLength n"
  shows "\<exists>Z'. AsUintN_Neg Z X n = Some Z' \<and> length Z' = length Z \<and> int (dval Z') = take_bit n (- int (dval X))"
  using TruncateAndSubFromPowerOfTwo_eq [OF assms(1), of Z X] dval_neg_bits [OF assms(1), of "length Z" X] assms(2)
  by (simp add: AsUintN_Neg_def AsUintN_Neg_ResultLength_def DIV_CEIL_def)

section \<open>asIntN\<close>

lemma all_zero_below_eq: "n \<le> length X \<Longrightarrow> all_zero_below X n = Some (dval (take n X) = 0)"
proof (induction n)
  case (Suc n)
  have "digit_base ^ n \<noteq> 0" by (simp add: digit_base_def)
  with Suc show ?case by (auto simp: rd_def dval_take_Suc unat_eq_0)
qed simp

lemma signed_take_bit_unique:
  fixes z z' c :: int
  assumes "z = z' + 2 ^ Suc m * c" and "- (2 ^ m) \<le> z'" and "z' < 2 ^ m"
  shows "signed_take_bit m z = z'"
proof -
  have "z + 2 ^ m = (z' + 2 ^ m) + 2 ^ Suc m * c" using assms(1) by simp
  then have "(z + 2 ^ m) mod 2 ^ Suc m = (z' + 2 ^ m) mod 2 ^ Suc m" by (simp only: mod_mult_self2)
  also have "\<dots> = z' + 2 ^ m" using assms(2,3) by simp
  finally show ?thesis by (simp add: signed_take_bit_eq_take_bit_shift take_bit_eq_mod)
qed

lemma bit_top:
  fixes t :: nat
  assumes "t < 2 * 2 ^ m"
  shows "bit t m \<longleftrightarrow> 2 ^ m \<le> t"
proof -
  have "t div 2 ^ m < 2" using assms by (simp add: div_less_iff_less_mult)
  then have "odd (t div 2 ^ m) \<longleftrightarrow> t div 2 ^ m \<noteq> 0" by (cases "t div 2 ^ m") auto
  then show ?thesis by (auto simp: bit_iff_odd div_eq_0_iff not_less)
qed

text \<open>The sign decision of \<open>AsIntN\<close>, on the magnitude alone.\<close>

lemma signed_take_bit_sign_magnitude:
  fixes x m :: nat
  defines "t \<equiv> take_bit (Suc m) x"
  shows "\<not> bit x m \<Longrightarrow> signed_take_bit m (int x) = int t"
    and "\<not> bit x m \<Longrightarrow> signed_take_bit m (- int x) = - int t"
    and "bit x m \<Longrightarrow> take_bit (Suc m) (- int x) = 2 * 2 ^ m - int t"
    and "bit x m \<Longrightarrow> signed_take_bit m (int x) = - (2 * 2 ^ m - int t)"
    and "bit x m \<Longrightarrow> t \<noteq> 2 ^ m \<Longrightarrow> signed_take_bit m (- int x) = 2 * 2 ^ m - int t"
    and "bit x m \<Longrightarrow> t = 2 ^ m \<Longrightarrow> signed_take_bit m (- int x) = - (2 * 2 ^ m - int t)"
proof -
  define q where "q = x div 2 ^ Suc m"
  have "x = t + 2 ^ Suc m * q" unfolding t_def q_def take_bit_eq_mod by simp
  then have x: "int x = int t + 2 ^ Suc m * int q" by simp
  have tn: "t < 2 * 2 ^ m" using take_bit_nat_less_exp [of "Suc m" x] by (simp add: t_def)
  have "bit x m \<longleftrightarrow> bit t m" by (simp add: t_def bit_take_bit_iff)
  with bit_top [OF tn] have b: "bit x m \<longleftrightarrow> 2 ^ m \<le> t" by simp
  from tn have "int t < int (2 * 2 ^ m)" by (simp only: of_nat_less_iff)
  then have tl: "int t < 2 * 2 ^ m" by simp
  have e: "int x = int t + 2 ^ Suc m * int q" "- int x = - int t + 2 ^ Suc m * (- int q)"
    "int x = - (2 * 2 ^ m - int t) + 2 ^ Suc m * (int q + 1)"
    "- int x = (2 * 2 ^ m - int t) + 2 ^ Suc m * (- int q - 1)"
    unfolding x power_Suc by (simp_all add: algebra_simps)
  have hi: "int t < 2 ^ m" if "\<not> bit x m"
  proof -
    from that b have "int t < int (2 ^ m)" by (simp only: of_nat_less_iff not_le)
    then show ?thesis by simp
  qed
  have lo: "2 ^ m \<le> int t" if "bit x m"
  proof -
    from that b have "int (2 ^ m) \<le> int t" by (simp only: of_nat_le_iff)
    then show ?thesis by simp
  qed
  have pos: "(0::int) < 2 ^ m" by simp
  show "take_bit (Suc m) (- int x) = 2 * 2 ^ m - int t" if "bit x m"
  proof -
    have "(- int x) mod 2 ^ Suc m = (2 * 2 ^ m - int t) mod 2 ^ Suc m" by (simp only: e(4) mod_mult_self2)
    also have "\<dots> = 2 * 2 ^ m - int t"
      by (rule mod_pos_pos_trivial) (use lo [OF that] tl pos power_Suc [of "2::int" m] in linarith)+
    finally show ?thesis by (simp only: take_bit_eq_mod)
  qed
  show "signed_take_bit m (int x) = int t" "signed_take_bit m (- int x) = - int t" if "\<not> bit x m"
    by (rule signed_take_bit_unique [OF e(1)] signed_take_bit_unique [OF e(2)]; use hi [OF that] pos in linarith)+
  show "signed_take_bit m (int x) = - (2 * 2 ^ m - int t)" if "bit x m"
    by (rule signed_take_bit_unique [OF e(3)]; use lo [OF that] tl pos in linarith)
  show "signed_take_bit m (- int x) = 2 * 2 ^ m - int t" if "bit x m" "t \<noteq> 2 ^ m"
  proof -
    have "int t \<noteq> 2 ^ m" using that(2) of_nat_eq_iff [of t "2 ^ m", where 'a = int] by simp
    then show ?thesis by (intro signed_take_bit_unique [OF e(4)]; use lo [OF that(1)] tl pos in linarith)
  qed
  show "signed_take_bit m (- int x) = - (2 * 2 ^ m - int t)" if "bit x m" "t = 2 ^ m"
  proof -
    from that(2) have "int t = int (2 ^ m)" by (simp only: of_nat_eq_iff)
    then have t: "int t = 2 ^ m" by simp
    have "- int x = - (2 * 2 ^ m - int t) + 2 ^ Suc m * (- int q)" using e(2) t by simp
    then show ?thesis by (rule signed_take_bit_unique; use t pos in linarith)
  qed
qed

lemma has_bit_iff:
  fixes w :: digit_t
  assumes "k < 64"
  shows "w AND push_bit k 1 = push_bit k 1 \<longleftrightarrow> bit w k"
proof
  assume "w AND push_bit k 1 = push_bit k 1"
  then have "bit (w AND push_bit k 1) k = bit (push_bit k 1 :: digit_t) k" by simp
  with assms show "bit w k" by (simp add: bit_and_iff bit_push_bit_iff del: push_bit_of_1)
next
  assume "bit w k"
  then show "w AND push_bit k 1 = push_bit k 1"
    by (intro bit_eqI) (auto simp: bit_and_iff bit_push_bit_iff bit_1_iff simp del: push_bit_of_1)
qed

lemma unat_power_digit: "b < 64 \<Longrightarrow> unat (push_bit b (1 :: digit_t)) = 2 ^ b"
proof -
  assume "b < 64"
  then have "(2::nat) ^ b < digit_base" unfolding digit_base_def by (rule power_strict_increasing) simp
  then show ?thesis unfolding unat_push_digit by simp
qed

lemma msd_split:
  assumes "ds < length X" and "length X = Suc ds"
  shows "dval X = dval (take ds X) + digit_base ^ ds * unat (X ! ds)"
  using dval_take_Suc [OF assms(1)] assms(2) by simp

lemma AsIntN_spec:
  assumes "0 < n" and "AsIntNResultLength X x_negative n = Some (int (length Z))"
  shows "\<exists>Z' neg. AsIntN Z X x_negative n = Some (Z', neg) \<and> length Z' = length Z \<and>
           sval neg Z' = signed_take_bit (n - 1) (sval x_negative X)"
proof -
  define m ds b where "m = n - 1" and "ds = m div 64" and "b = m mod 64"
  have n: "n = Suc m" using assms(1) by (simp add: m_def)
  have m: "m = 64 * ds + b" and b: "b < 64" by (simp_all add: ds_def b_def)
  have dc: "DIV_CEIL n 64 = Suc ds" by (simp add: DIV_CEIL_def ds_def m_def)
  have ds: "ds < length X" and Z: "length Z = DIV_CEIL n 64"
    using assms(2) by (auto simp: AsIntNResultLength_def Let_def dc rd_def all_zero_below_eq split: if_splits)
  have top: "bit (X ! ds) b \<longleftrightarrow> bit (dval X) m" using ds b by (simp add: bit_dval m)
  have pw: "w AND (push_bit b 1 - 1) = take_bit b w" for w :: digit_t
    by (simp add: take_bit_eq_mask mask_eq_exp_minus_1)
  have nm: "(n - Suc 0) mod 64 = b" by (simp add: b_def m_def)
  let ?T = "map (\<lambda>k. take_bit (n - 64 * k) (digit_at X k)) [0..<length Z]"
    and ?S = "map (\<lambda>k. take_bit (n - 64 * k) (neg_at X k)) [0..<length Z]"
  have T: "TruncateToNBits Z X n = Some ?T" "int (dval ?T) = take_bit n (int (dval X))"
    using TruncateToNBits_eq [OF assms(1) _ Z, of X] dval_take_bit [OF assms(1), of "length Z" X] ds Z dc by simp_all
  have S: "TruncateAndSubFromPowerOfTwo Z X n = Some ?S" "int (dval ?S) = take_bit n (- int (dval X))"
    using TruncateAndSubFromPowerOfTwo_eq [OF assms(1) Z] dval_neg_bits [OF assms(1), of "length Z" X] Z by simp_all
  note sm = signed_take_bit_sign_magnitude [of "dval X" m, folded n]
  have t: "int (take_bit n (dval X)) = take_bit n (int (dval X))" by (simp add: take_bit_of_nat)
  have scan: "take_bit b (X ! ds) = 0 \<and> dval (take ds X) = 0 \<longleftrightarrow> take_bit n (dval X) = 2 ^ m" if "bit (dval X) m"
  proof -
    have "take_bit n (dval X) = 2 ^ m + dval X mod 2 ^ m"
      using that take_bit_eq_mod [of m "dval X"] by (simp only: n take_bit_Suc_from_most) simp
    then show ?thesis using dval_mod_power [OF ds b] digit_base_gt_1(2) by (auto simp: m unat_eq_0)
  qed
  have A: "AsIntN Z X x_negative n =
    (if \<not> bit (dval X) m then Some (?T, x_negative)
     else Some (?S, \<not> x_negative \<or> take_bit n (dval X) = 2 ^ m))"
    using ds scan all_zero_below_eq [of ds X] T(1) S(1)
    by (auto simp: AsIntN_def Let_def dc rd_def nm has_bit_iff [OF b] top pw simp del: push_bit_of_1)
  show ?thesis unfolding A m_def [symmetric] using sm T(2) S(2) t Z
    by (cases "bit (dval X) m"; cases x_negative; cases "take_bit n (dval X) = 2 ^ m") (simp_all add: sval_def ex_bool_eq)
qed

lemma AsIntN_noop:
  assumes "0 < n" and "AsIntNResultLength X x_negative n = Some (- 1)"
  shows "signed_take_bit (n - 1) (sval x_negative X) = sval x_negative X"
proof -
  define m ds b where "m = n - 1" and "ds = m div 64" and "b = m mod 64"
  have n: "n = Suc m" using assms(1) by (simp add: m_def)
  have m: "m = 64 * ds + b" and b: "b < 64" by (simp_all add: ds_def b_def)
  have dc: "DIV_CEIL (Suc m) 64 = Suc ds" by (simp add: DIV_CEIL_def ds_def)
  have p: "digit_base ^ ds * 2 ^ b = 2 ^ m" by (simp add: m power_add power_mult digit_base_def)
  have lo: "dval (take ds X) < digit_base ^ ds" if "length X = Suc ds" using dval_lt [of "take ds X"] that by simp
  consider "length X < Suc ds" | "length X = Suc ds" "X ! ds < push_bit b 1"
    | "length X = Suc ds" "X ! ds = push_bit b 1" "x_negative" "dval (take ds X) = 0"
    using assms(2) by (auto simp: AsIntNResultLength_def Let_def dc rd_def all_zero_below_eq
      n b_def [symmetric] simp del: push_bit_of_1 split: if_splits)
  then have "dval X < 2 ^ m \<or> dval X = 2 ^ m \<and> x_negative"
  proof cases
    case 1
    then have "digit_base ^ length X \<le> digit_base ^ ds" by (intro power_increasing) (auto simp: Suc_leI)
    also have "\<dots> \<le> 2 ^ m" by (simp flip: p)
    finally show ?thesis using dval_lt [of X] by simp
  next
    case 2
    then have "unat (X ! ds) < 2 ^ b" using unat_power_digit [OF b] by (simp only: word_less_nat_alt)
    then have "digit_base ^ ds * unat (X ! ds) + digit_base ^ ds \<le> 2 ^ m"
      by (metis Suc_leI mult_le_mono2 mult_Suc_right add.commute p)
    with 2 lo msd_split [of ds X] show ?thesis by simp
  next
    case 3
    then have "unat (X ! ds) = 2 ^ b" using unat_power_digit [OF b] by (simp only:)
    with 3 msd_split [of ds X] p show ?thesis by simp
  qed
  then have "int (dval X) < int (2 ^ m) \<or> int (dval X) = int (2 ^ m) \<and> x_negative"
    by (simp only: of_nat_less_iff of_nat_eq_iff)
  then have "int (dval X) < 2 ^ m \<or> int (dval X) = 2 ^ m \<and> x_negative" by simp
  moreover have "(0::int) < 2 ^ m" "0 \<le> int (dval X)" by simp_all
  ultimately have "- (2 ^ m) \<le> sval x_negative X" "sval x_negative X < 2 ^ m"
    unfolding sval_def by (cases x_negative; simp only: if_True if_False; linarith)+
  then show ?thesis unfolding m_def [symmetric] by (simp add: signed_take_bit_int_eq_self)
qed

lemma AsUintN_Pos_noop:
  assumes "0 < n" and "AsUintN_Pos_ResultLength X n = Some (- 1)"
  shows "take_bit n (int (dval X)) = int (dval X)"
proof -
  have le: "length X \<le> DIV_CEIL n 64"
    using assms(2) by (auto simp: AsUintN_Pos_ResultLength_def Let_def split: if_splits)
  have G: "take_bit (n - 64 * k) (digit_at X k) = digit_at X k" for k
  proof (cases "k < DIV_CEIL n 64 - 1")
    case True
    then show ?thesis using last_digit_bits(1) [OF assms(1)] by (simp add: take_bit_word_eq_self)
  next
    case False
    show ?thesis
    proof (cases "k < length X")
      case True
      with False le have k: "k = DIV_CEIL n 64 - 1" "length X = DIV_CEIL n 64" by simp_all
      show ?thesis
      proof (cases "n mod 64 = 0")
        case True
        with k last_digit_bits(3) [OF assms(1)] show ?thesis by (simp add: take_bit_word_eq_self)
      next
        case b: False
        then have "drop_bit (n mod 64) (X ! k) = 0"
          using assms(2) k by (auto simp: AsUintN_Pos_ResultLength_def Let_def rd_def split: if_splits)
        then have "take_bit (n mod 64) (X ! k) = X ! k"
          using bits_ident [of "n mod 64" "X ! k"] by simp
        with b k last_digit_bits(2) [OF assms(1)] \<open>k < length X\<close> show ?thesis by (simp add: digit_at_def)
      qed
    qed simp
  qed
  have "int (dval (map (\<lambda>k. take_bit (n - 64 * k) (digit_at X k)) [0..<DIV_CEIL n 64])) = take_bit n (int (dval X))"
    by (rule dval_take_bit [OF assms(1) order_refl])
  then show ?thesis by (simp add: G dval_digit_at [OF le])
qed

end
