(* ===== verification/BigInt_Object.thy ===== *)
theory BigInt_Object
  imports Bigint_Truncate
begin

text \<open>
  \<open>objects/bigint.h\<close> and the object layer of \<open>objects/bigint.cc\<close>: sign-magnitude BigInt objects, allocation,
  canonicalisation, comparison, addition, subtraction, negation, increment and decrement.

  A \<open>MaybeHandle\<close> is a value \<open>Inl error\<close> (a pending exception) or \<open>Inr object\<close>; an outer \<open>None\<close> stands for a
  crash (a failed \<open>ToHandleChecked\<close>, an access outside of an object).  The digits of a freshly allocated object
  are arbitrary: they are a parameter \<open>junk\<close> of every allocating operation, and the theorems hold for every
  \<open>junk\<close>.  The heap (\<open>Factory::NewBigInt\<close>, object size notifications) is not modelled.
\<close>

record BigIntBase =
  sign :: bool
  digits :: digits

datatype BigIntError = kBigIntTooBig | kBigIntDivZero | kMustBePositive | kBigIntShr | kBigIntMixedTypes | kTerminated

datatype ComparisonResult = kLessThan | kEqual | kGreaterThan | kUndefined

type_synonym MaybeBigInt = "(BigIntError + BigIntBase) option"
type_synonym memory = "nat \<Rightarrow> digit_t"

definition kMaxLengthBits :: nat where
  "kMaxLengthBits = 2 ^ 30"

definition kMaxLength :: nat where
  "kMaxLength = kMaxLengthBits div kDigitBits"

definition is_zero :: "BigIntBase \<Rightarrow> bool" where
  "is_zero x \<longleftrightarrow> length (digits x) = 0"

definition digit :: "BigIntBase \<Rightarrow> nat \<Rightarrow> digit_t option" where
  "digit x n = rd (digits x) n"

definition set_digit :: "nat \<Rightarrow> digit_t \<Rightarrow> BigIntBase \<Rightarrow> BigIntBase option" where
  "set_digit n v x = do { ds \<leftarrow> wr (digits x) n v; Some (x\<lparr>digits := ds\<rparr>) }"

definition New :: "memory \<Rightarrow> nat \<Rightarrow> BigIntError + BigIntBase" where
  "New junk len =
     (if len > kMaxLength then Inl kBigIntTooBig
      else Inr \<lparr>sign = False, digits = map junk [0..<len]\<rparr>)"

definition ToHandleChecked :: "BigIntError + BigIntBase \<Rightarrow> BigIntBase option" where
  "ToHandleChecked m = (case m of Inl _ \<Rightarrow> None | Inr r \<Rightarrow> Some r)"

definition Canonicalize :: "BigIntBase \<Rightarrow> BigIntBase" where
  "Canonicalize result =
     (let old_length = length (digits result);
          trimmed = Normalize (digits result);
          new_length = length trimmed;
          to_trim = old_length - new_length
      in if to_trim \<noteq> 0 then
           (let result = result\<lparr>digits := trimmed\<rparr>
            in if new_length = 0 then result\<lparr>sign := False\<rparr> else result)
         else result)"

definition MakeImmutable :: "BigIntBase \<Rightarrow> BigIntBase" where
  "MakeImmutable result = Canonicalize result"

definition Zero :: "memory \<Rightarrow> BigIntBase option" where
  "Zero junk = do { z \<leftarrow> ToHandleChecked (New junk 0); Some (MakeImmutable z) }"

definition NewFromInt :: "memory \<Rightarrow> int \<Rightarrow> BigIntBase option" where
  "NewFromInt junk value =
     (if value = 0 then Zero junk
      else (let negative = value < 0;
                result = \<lparr>sign = negative, digits = map junk [0..<1]\<rparr>
            in do {
              result \<leftarrow>
                (if \<not> negative then set_digit 0 (of_int value) result
                 else if value = - (2 ^ 31) then set_digit 0 (of_int (2 ^ 31 - 1) + 1) result
                 else set_digit 0 (of_int (- value)) result);
              Some (MakeImmutable result) }))"

definition Copy :: "memory \<Rightarrow> BigIntBase \<Rightarrow> BigIntBase option" where
  "Copy junk source = do {
     result \<leftarrow> ToHandleChecked (New junk (length (digits source)));
     ds \<leftarrow> copy_loop (digits source) 0 (length (digits source)) (digits result);
     Some (result\<lparr>digits := ds\<rparr>) }"

definition UnaryMinus :: "memory \<Rightarrow> BigIntBase \<Rightarrow> BigIntBase option" where
  "UnaryMinus junk x =
     (if is_zero x then Some x
      else do {
        result \<leftarrow> Copy junk x;
        Some (MakeImmutable (result\<lparr>sign := \<not> sign x\<rparr>)) })"

definition AddResultLength :: "nat \<Rightarrow> nat \<Rightarrow> nat" where
  "AddResultLength x_length y_length = max x_length y_length + 1"

definition AddSignedResultLength :: "nat \<Rightarrow> nat \<Rightarrow> bool \<Rightarrow> nat" where
  "AddSignedResultLength x_length y_length same_sign =
     (if same_sign then AddResultLength x_length y_length else max x_length y_length)"

definition SubtractSignedResultLength :: "nat \<Rightarrow> nat \<Rightarrow> bool \<Rightarrow> nat" where
  "SubtractSignedResultLength x_length y_length same_sign =
     (if same_sign then max x_length y_length else AddResultLength x_length y_length)"

definition BigInt_Add :: "memory \<Rightarrow> BigIntBase \<Rightarrow> BigIntBase \<Rightarrow> MaybeBigInt" where
  "BigInt_Add junk x y =
     (if is_zero x then Some (Inr y)
      else if is_zero y then Some (Inr x)
      else (let xsign = sign x; ysign = sign y;
                result_length = AddSignedResultLength (length (digits x)) (length (digits y)) (xsign = ysign)
            in case New junk result_length of
                 Inl e \<Rightarrow> Some (Inl e)
               | Inr result \<Rightarrow> do {
                   (Z, result_sign) \<leftarrow> AddSigned (digits result) (digits x) xsign (digits y) ysign;
                   Some (Inr (MakeImmutable (result\<lparr>digits := Z, sign := result_sign\<rparr>))) }))"

definition BigInt_Subtract :: "memory \<Rightarrow> BigIntBase \<Rightarrow> BigIntBase \<Rightarrow> MaybeBigInt" where
  "BigInt_Subtract junk x y =
     (if is_zero y then Some (Inr x)
      else if is_zero x then do { z \<leftarrow> UnaryMinus junk y; Some (Inr z) }
      else (let xsign = sign x; ysign = sign y;
                result_length = SubtractSignedResultLength (length (digits x)) (length (digits y)) (xsign = ysign)
            in case New junk result_length of
                 Inl e \<Rightarrow> Some (Inl e)
               | Inr result \<Rightarrow> do {
                   (Z, result_sign) \<leftarrow> SubtractSigned (digits result) (digits x) xsign (digits y) ysign;
                   Some (Inr (MakeImmutable (result\<lparr>digits := Z, sign := result_sign\<rparr>))) }))"

fun all_digits_max :: "digits \<Rightarrow> bool" where
  "all_digits_max [] \<longleftrightarrow> True"
| "all_digits_max (d # ds) \<longleftrightarrow> (if \<not> digit_ismax d then False else all_digits_max ds)"

definition AbsoluteAddOne :: "memory \<Rightarrow> BigIntBase \<Rightarrow> bool \<Rightarrow> MaybeBigInt" where
  "AbsoluteAddOne junk x negative =
     (let input_length = length (digits x);
          will_overflow = all_digits_max (digits x);
          result_length = input_length + of_bool will_overflow
      in case New junk result_length of
           Inl e \<Rightarrow> Some (Inl e)
         | Inr result \<Rightarrow> do {
             result \<leftarrow>
               (if input_length = 0 then set_digit 0 1 result
                else if input_length = 1 \<and> \<not> will_overflow then do { d \<leftarrow> digit x 0; set_digit 0 (d + 1) result }
                else do { Z \<leftarrow> AddOne (digits result) (digits x); Some (result\<lparr>digits := Z\<rparr>) });
             Some (Inr (result\<lparr>sign := negative\<rparr>)) })"

definition AbsoluteSubOne :: "memory \<Rightarrow> BigIntBase \<Rightarrow> BigIntBase option" where
  "AbsoluteSubOne junk x =
     (let len = length (digits x)
      in do {
        result \<leftarrow> ToHandleChecked (New junk len);
        (if len = 1 then do { d \<leftarrow> digit x 0; set_digit 0 (d - 1) result }
         else do { Z \<leftarrow> SubtractOne (digits result) (digits x); Some (result\<lparr>digits := Z\<rparr>) }) })"

definition MakeImmutable_maybe :: "MaybeBigInt \<Rightarrow> MaybeBigInt" where
  "MakeImmutable_maybe m = do {
     r \<leftarrow> m;
     Some (case r of Inl e \<Rightarrow> Inl e | Inr result \<Rightarrow> Inr (MakeImmutable result)) }"

definition BigInt_BitwiseNot :: "memory \<Rightarrow> BigIntBase \<Rightarrow> MaybeBigInt" where
  "BigInt_BitwiseNot junk x =
     MakeImmutable_maybe
       (if sign x then do { r \<leftarrow> AbsoluteSubOne junk x; Some (Inr r) }
        else AbsoluteAddOne junk x True)"

definition BigInt_Increment :: "memory \<Rightarrow> BigIntBase \<Rightarrow> MaybeBigInt" where
  "BigInt_Increment junk x =
     (if sign x then do {
        result \<leftarrow> AbsoluteSubOne junk x;
        Some (Inr (MakeImmutable (result\<lparr>sign := True\<rparr>)))
      } else MakeImmutable_maybe (AbsoluteAddOne junk x False))"

definition BigInt_Decrement :: "memory \<Rightarrow> BigIntBase \<Rightarrow> MaybeBigInt" where
  "BigInt_Decrement junk x =
     (if sign x then MakeImmutable_maybe (AbsoluteAddOne junk x True)
      else if is_zero x then do { r \<leftarrow> NewFromInt junk (- 1); Some (Inr r) }
      else do { r \<leftarrow> AbsoluteSubOne junk x; Some (Inr (MakeImmutable r)) })"

definition UnequalSign :: "bool \<Rightarrow> ComparisonResult" where
  "UnequalSign left_negative = (if left_negative then kLessThan else kGreaterThan)"

definition AbsoluteGreater :: "bool \<Rightarrow> ComparisonResult" where
  "AbsoluteGreater both_negative = (if both_negative then kLessThan else kGreaterThan)"

definition AbsoluteLess :: "bool \<Rightarrow> ComparisonResult" where
  "AbsoluteLess both_negative = (if both_negative then kGreaterThan else kLessThan)"

definition CompareToBigInt :: "BigIntBase \<Rightarrow> BigIntBase \<Rightarrow> ComparisonResult" where
  "CompareToBigInt x y =
     (let x_sign = sign x
      in if x_sign \<noteq> sign y then UnequalSign x_sign
         else (let result = Compare (digits x) (digits y)
               in if result > 0 then AbsoluteGreater x_sign
                  else if result < 0 then AbsoluteLess x_sign
                  else kEqual))"

fun equal_digits :: "digits \<Rightarrow> digits \<Rightarrow> nat \<Rightarrow> nat \<Rightarrow> bool option" where
  "equal_digits xs ys i 0 = Some True"
| "equal_digits xs ys i (Suc n) = do {
     a \<leftarrow> rd xs i;
     b \<leftarrow> rd ys i;
     if a \<noteq> b then Some False else equal_digits xs ys (Suc i) n }"

definition EqualToBigInt :: "BigIntBase \<Rightarrow> BigIntBase \<Rightarrow> bool option" where
  "EqualToBigInt x y =
     (if sign x \<noteq> sign y then Some False
      else if length (digits x) \<noteq> length (digits y) then Some False
      else equal_digits (digits x) (digits y) 0 (length (digits x)))"

section \<open>Canonical objects\<close>

definition bigint_val :: "BigIntBase \<Rightarrow> int" where
  "bigint_val x = sval (sign x) (digits x)"

definition canonical :: "BigIntBase \<Rightarrow> bool" where
  "canonical x \<longleftrightarrow> IsDigitNormalized (digits x) \<and> (digits x = [] \<longrightarrow> \<not> sign x) \<and> length (digits x) \<le> kMaxLength"

definition returns :: "MaybeBigInt \<Rightarrow> int \<Rightarrow> bool" where
  "returns r v \<longleftrightarrow> (\<exists>z. r = Some (Inr z) \<and> canonical z \<and> bigint_val z = v)"

lemma Normalize_Nil [simp]: "Normalize X = [] \<longleftrightarrow> dval X = 0"
proof -
  have "Normalize X = [] \<Longrightarrow> dval X = 0" by (metis dval_Normalize dval.simps(1))
  moreover have "Normalize X \<noteq> [] \<Longrightarrow> dval X \<noteq> 0"
    using normalized_length_less [of "Normalize X" "[]"] by simp
  ultimately show ?thesis by blast
qed

lemma dval_inj: "length X = length Y \<Longrightarrow> dval X = dval Y \<Longrightarrow> X = Y"
proof (induction X Y rule: list_induct2')
  case (4 x X y Y)
  have "unat x = unat y"
    using arg_cong [OF 4(3), of "\<lambda>n. n mod digit_base"] unat_lt_base [of x] unat_lt_base [of y] by simp
  with 4 show ?case by (simp add: word_unat_eq_iff)
qed simp_all

lemma normalized_inj:
  assumes "IsDigitNormalized X" and "IsDigitNormalized Y" and "dval X = dval Y"
  shows "X = Y"
proof (rule dval_inj [OF _ assms(3)])
  show "length X = length Y"
    using normalized_length_less [of X Y] normalized_length_less [of Y X] assms by (metis less_irrefl linorder_neqE_nat)
qed

lemma normalized_0: "IsDigitNormalized X \<Longrightarrow> dval X = 0 \<longleftrightarrow> X = []"
  using Normalize_Nil [of X] by (simp add: Normalize_id)

lemma canonical_zero: "canonical x \<Longrightarrow> bigint_val x = 0 \<longleftrightarrow> is_zero x"
  by (auto simp: canonical_def bigint_val_def sval_def is_zero_def normalized_0)

lemma canonical_pos: "canonical x \<Longrightarrow> \<not> is_zero x \<Longrightarrow> 0 < dval (digits x)"
  by (auto simp: canonical_def is_zero_def normalized_0 intro: Nat.gr0I)

lemma canonical_sign: "canonical x \<Longrightarrow> sign x \<longleftrightarrow> bigint_val x < 0"
  using canonical_pos [of x] by (auto simp: canonical_def bigint_val_def sval_def is_zero_def)

lemma canonical_abs: "nat \<bar>bigint_val x\<bar> = dval (digits x)"
  by (simp add: bigint_val_def sval_def)

text \<open>A BigInt has one representation.\<close>

lemma canonical_inj:
  assumes "canonical x" and "canonical y" and "bigint_val x = bigint_val y"
  shows "x = y"
proof -
  have "dval (digits x) = dval (digits y)" using assms(3) canonical_abs by metis
  then have "digits x = digits y" using assms(1,2) by (auto simp: canonical_def intro: normalized_inj)
  moreover have "sign x = sign y" using assms canonical_sign by simp
  ultimately show ?thesis by simp
qed

lemma Canonicalize_eq:
  "Canonicalize r = r\<lparr>digits := Normalize (digits r), sign := sign r \<and> (dval (digits r) \<noteq> 0 \<or> digits r = [])\<rparr>"
proof (cases "length (Normalize (digits r)) = length (digits r)")
  case True
  obtain n where n: "digits r = Normalize (digits r) @ replicate n 0" using Normalize_prefix [of "digits r"] by blast
  with True have e: "Normalize (digits r) = digits r"
    by (metis append.right_neutral add_cancel_right_right length_append length_replicate replicate_0)
  then have "dval (digits r) = 0 \<longleftrightarrow> digits r = []" by (metis Normalize_Nil)
  with True e show ?thesis by (simp add: Canonicalize_def Let_def)
next
  case False
  then have "length (Normalize (digits r)) < length (digits r)" using length_Normalize [of "digits r"] by simp
  moreover from this have "digits r \<noteq> []" by auto
  ultimately show ?thesis by (simp add: Canonicalize_def Let_def)
qed

lemma MakeImmutable_spec:
  assumes "length (digits r) \<le> kMaxLength" and "digits r = [] \<Longrightarrow> \<not> sign r"
  shows "canonical (MakeImmutable r)" and "bigint_val (MakeImmutable r) = bigint_val r"
  using assms length_Normalize [of "digits r"]
  by (auto simp: MakeImmutable_def Canonicalize_eq canonical_def bigint_val_def sval_def)

lemma returns_MakeImmutable:
  assumes "length (digits r) \<le> kMaxLength" and "digits r = [] \<Longrightarrow> \<not> sign r" and "bigint_val r = v"
  shows "returns (Some (Inr (MakeImmutable r))) v"
  using MakeImmutable_spec [OF assms(1,2)] assms(3) by (simp add: returns_def)

lemma returns_self: "canonical x \<Longrightarrow> bigint_val x = v \<Longrightarrow> returns (Some (Inr x)) v"
  by (simp add: returns_def)

lemma New_ok: "len \<le> kMaxLength \<Longrightarrow> New junk len = Inr \<lparr>sign = False, digits = map junk [0..<len]\<rparr>"
  by (simp add: New_def)

lemma New_too_big: "kMaxLength < len \<Longrightarrow> New junk len = Inl kBigIntTooBig"
  by (simp add: New_def)

lemma kMaxLength_bounds: "1 \<le> kMaxLength" "kMaxLength + 2 < digit_base"
  by (simp_all add: kMaxLength_def kMaxLengthBits_def digit_base_def)

lemma returns_unique: "returns r v \<Longrightarrow> returns r' v \<Longrightarrow> r = r'"
  using canonical_inj by (fastforce simp: returns_def)

section \<open>Interface of the arithmetic operations\<close>

text \<open>
  What every binary operation promises: on canonical operands it throws exactly the announced error or returns
  the canonical object of the mathematical result.  It follows once and for all that the operation never
  crashes, that its result does not depend on uninitialised memory, and that it commutes when the
  mathematical operation does.
\<close>

locale bigint_operation =
  fixes op :: "memory \<Rightarrow> BigIntBase \<Rightarrow> BigIntBase \<Rightarrow> MaybeBigInt"
    and f :: "int \<Rightarrow> int \<Rightarrow> int"
    and fails :: "BigIntBase \<Rightarrow> BigIntBase \<Rightarrow> BigIntError option"
  assumes throws: "canonical x \<Longrightarrow> canonical y \<Longrightarrow> fails x y = Some e \<Longrightarrow> op junk x y = Some (Inl e)"
    and computes: "canonical x \<Longrightarrow> canonical y \<Longrightarrow> fails x y = None \<Longrightarrow> returns (op junk x y) (f (bigint_val x) (bigint_val y))"
begin

lemma total:
  assumes "canonical x" and "canonical y"
  shows "op junk x y \<noteq> None"
  using throws [OF assms] computes [OF assms, of junk] by (cases "fails x y") (auto simp: returns_def)

lemma outcome:
  assumes "canonical x" and "canonical y"
  shows "case fails x y of None \<Rightarrow> returns (op junk x y) (f (bigint_val x) (bigint_val y)) | Some e \<Rightarrow> op junk x y = Some (Inl e)"
  using throws [OF assms] computes [OF assms] by (cases "fails x y") simp_all

lemma memory_independent:
  assumes "canonical x" and "canonical y"
  shows "op junk x y = op junk' x y"
proof (cases "fails x y")
  case None
  with computes [OF assms] show ?thesis by (blast intro: returns_unique)
next
  case (Some e)
  with throws [OF assms] show ?thesis by simp
qed

lemma commutes:
  assumes "\<And>a b. f a b = f b a" and "fails x y = fails y x" and "canonical x" and "canonical y"
  shows "op junk x y = op junk y x"
proof (cases "fails x y")
  case None
  with assms(2) computes [OF assms(3,4), of junk] computes [OF assms(4,3), of junk] assms(1) [of "bigint_val y"] show ?thesis
    by (intro returns_unique) simp_all
next
  case (Some e)
  with throws [OF assms(3,4)] throws [OF assms(4,3)] assms(2) [symmetric] show ?thesis by simp
qed

lemma agrees:
  assumes "canonical x" and "canonical y" and "canonical z" and "fails x y = None" and "f (bigint_val x) (bigint_val y) = bigint_val z"
  shows "op junk x y = Some (Inr z)"
  using computes [OF assms(1,2,4), of junk] returns_self [OF assms(3) assms(5) [symmetric]] by (rule returns_unique)

end

section \<open>Addition and subtraction\<close>

definition Add_fails :: "BigIntBase \<Rightarrow> BigIntBase \<Rightarrow> BigIntError option" where
  "Add_fails x y =
     (if \<not> is_zero x \<and> \<not> is_zero y \<and>
         kMaxLength < AddSignedResultLength (length (digits x)) (length (digits y)) (sign x = sign y)
      then Some kBigIntTooBig else None)"

definition Subtract_fails :: "BigIntBase \<Rightarrow> BigIntBase \<Rightarrow> BigIntError option" where
  "Subtract_fails x y =
     (if \<not> is_zero x \<and> \<not> is_zero y \<and>
         kMaxLength < SubtractSignedResultLength (length (digits x)) (length (digits y)) (sign x = sign y)
      then Some kBigIntTooBig else None)"

lemma sum_fits: "dval X + dval Y < digit_base ^ (max (length X) (length Y) + 1)"
proof -
  let ?n = "max (length X) (length Y)"
  have "digit_base ^ length X \<le> digit_base ^ ?n" "digit_base ^ length Y \<le> digit_base ^ ?n"
    by (intro power_increasing; simp add: Suc_leI)+
  then have "dval X + dval Y < 2 * digit_base ^ ?n" using dval_lt [of X] dval_lt [of Y] by linarith
  also have "\<dots> \<le> digit_base * digit_base ^ ?n" by (intro mult_le_mono1) (simp add: digit_base_def)
  finally show ?thesis by simp
qed

lemma digits_nonempty: "canonical x \<Longrightarrow> \<not> is_zero x \<Longrightarrow> 0 < length (digits x)"
  by (simp add: is_zero_def)

lemma BigInt_Add_computes:
  assumes "canonical x" and "canonical y" and "Add_fails x y = None"
  shows "returns (BigInt_Add junk x y) (bigint_val x + bigint_val y)"
proof (cases "is_zero x \<or> is_zero y")
  case True
  then show ?thesis using assms(1,2) canonical_zero [of x] canonical_zero [of y]
    by (auto simp: BigInt_Add_def intro!: returns_self)
next
  case False
  let ?n = "AddSignedResultLength (length (digits x)) (length (digits y)) (sign x = sign y)"
  let ?Z = "map junk [0..<?n]"
  have n: "?n \<le> kMaxLength" using assms(3) False by (simp add: Add_fails_def split: if_splits)
  have lens: "length (digits x) \<le> length ?Z" "length (digits y) \<le> length ?Z"
    and fits: "sign x = sign y \<Longrightarrow> dval (digits x) + dval (digits y) < digit_base ^ length ?Z"
    using sum_fits [of "digits x" "digits y"] by (simp_all add: AddSignedResultLength_def AddResultLength_def le_SucI)
  from AddSigned_spec [of _ _ _ "sign x" "sign y", OF lens fits] obtain Z' neg where
    "AddSigned ?Z (digits x) (sign x) (digits y) (sign y) = Some (Z', neg)" and Z': "length Z' = ?n"
    and v: "sval neg Z' = sval (sign x) (digits x) + sval (sign y) (digits y)" by auto
  then have "BigInt_Add junk x y = Some (Inr (MakeImmutable \<lparr>sign = neg, digits = Z'\<rparr>))"
    using False n by (simp add: BigInt_Add_def Let_def New_ok)
  moreover have "Z' \<noteq> []" using Z' lens(1) False by (auto simp: is_zero_def)
  ultimately show ?thesis using Z' n v by (auto simp: bigint_val_def intro!: returns_MakeImmutable)
qed

interpretation bigint_add: bigint_operation BigInt_Add "(+)" Add_fails
proof unfold_locales
  fix x y e junk assume "Add_fails x y = Some e"
  then show "BigInt_Add junk x y = Some (Inl e)"
    by (auto simp: Add_fails_def BigInt_Add_def Let_def New_too_big split: if_splits)
qed (rule BigInt_Add_computes)

lemma UnaryMinus_spec:
  assumes "canonical x"
  shows "\<exists>z. UnaryMinus junk x = Some z \<and> canonical z \<and> bigint_val z = - bigint_val x"
proof (cases "is_zero x")
  case True
  then show ?thesis using assms canonical_zero [of x] by (simp add: UnaryMinus_def)
next
  case False
  let ?r = "\<lparr>sign = \<not> sign x, digits = digits x\<rparr>"
  have len: "length (digits x) \<le> kMaxLength" using assms by (simp add: canonical_def)
  then have "UnaryMinus junk x = Some (MakeImmutable ?r)"
    using False by (simp add: UnaryMinus_def Copy_def ToHandleChecked_def New_ok copy_loop_eq)
  moreover have "bigint_val ?r = - bigint_val x" by (simp add: bigint_val_def sval_def)
  ultimately show ?thesis using MakeImmutable_spec [of ?r] len False by (simp add: is_zero_def)
qed

lemma BigInt_Subtract_computes:
  assumes "canonical x" and "canonical y" and "Subtract_fails x y = None"
  shows "returns (BigInt_Subtract junk x y) (bigint_val x - bigint_val y)"
proof (cases "is_zero x \<or> is_zero y")
  case True
  then show ?thesis using assms(1,2) canonical_zero [of x] canonical_zero [of y] UnaryMinus_spec [of y junk]
    by (auto simp: BigInt_Subtract_def intro!: returns_self)
next
  case False
  let ?n = "SubtractSignedResultLength (length (digits x)) (length (digits y)) (sign x = sign y)"
  let ?Z = "map junk [0..<?n]"
  have n: "?n \<le> kMaxLength" using assms(3) False by (simp add: Subtract_fails_def split: if_splits)
  have lens: "length (digits x) \<le> length ?Z" "length (digits y) \<le> length ?Z"
    and fits: "sign x \<noteq> sign y \<Longrightarrow> dval (digits x) + dval (digits y) < digit_base ^ length ?Z"
    using sum_fits [of "digits x" "digits y"] by (simp_all add: SubtractSignedResultLength_def AddResultLength_def le_SucI)
  from SubtractSigned_spec [of _ _ _ "sign x" "sign y", OF lens fits] obtain Z' neg where
    "SubtractSigned ?Z (digits x) (sign x) (digits y) (sign y) = Some (Z', neg)" and Z': "length Z' = ?n"
    and v: "sval neg Z' = sval (sign x) (digits x) - sval (sign y) (digits y)" by auto
  then have "BigInt_Subtract junk x y = Some (Inr (MakeImmutable \<lparr>sign = neg, digits = Z'\<rparr>))"
    using False n by (simp add: BigInt_Subtract_def Let_def New_ok)
  moreover have "Z' \<noteq> []" using Z' lens(1) False by (auto simp: is_zero_def)
  ultimately show ?thesis using Z' n v by (auto simp: bigint_val_def intro!: returns_MakeImmutable)
qed

interpretation bigint_subtract: bigint_operation BigInt_Subtract "(-)" Subtract_fails
proof unfold_locales
  fix x y e junk assume "Subtract_fails x y = Some e"
  then show "BigInt_Subtract junk x y = Some (Inl e)"
    by (auto simp: Subtract_fails_def BigInt_Subtract_def Let_def New_too_big split: if_splits)
qed (rule BigInt_Subtract_computes)

section \<open>Adding and subtracting one\<close>

lemma all_digits_max_iff: "all_digits_max X \<longleftrightarrow> dval X + 1 = digit_base ^ length X"
proof (induction X)
  case (Cons d X)
  have le: "dval X + 1 \<le> digit_base ^ length X" using dval_lt [of X] by simp
  have d: "unat d + 1 \<le> digit_base" using unat_lt_base [of d] by simp
  have "dval (d # X) + 1 = digit_base ^ length (d # X) \<longleftrightarrow> unat d + 1 + digit_base * dval X = digit_base * digit_base ^ length X"
    by simp
  also have "\<dots> \<longleftrightarrow> unat d + 1 = digit_base \<and> dval X + 1 = digit_base ^ length X"
  proof
    assume e: "unat d + 1 + digit_base * dval X = digit_base * digit_base ^ length X"
    have "digit_base * (dval X + 1) = digit_base * dval X + digit_base" by simp
    moreover have "digit_base * (dval X + 1) \<le> digit_base * digit_base ^ length X" using le by (rule mult_le_mono2)
    ultimately have "unat d + 1 = digit_base" using e d by linarith
    with e have "digit_base * (dval X + 1) = digit_base * digit_base ^ length X" by simp
    then have "dval X + 1 = digit_base ^ length X" by (simp only: mult_cancel1 digit_base_neq_0 simp_thms)
    with \<open>unat d + 1 = digit_base\<close> show "unat d + 1 = digit_base \<and> dval X + 1 = digit_base ^ length X" by blast
  next
    assume "unat d + 1 = digit_base \<and> dval X + 1 = digit_base ^ length X"
    then show "unat d + 1 + digit_base * dval X = digit_base * digit_base ^ length X"
      by (metis add.commute mult_Suc_right Suc_eq_plus1)
  qed
  also have "\<dots> \<longleftrightarrow> all_digits_max (d # X)" using Cons.IH by (simp add: digit_ismax_iff)
  finally show ?case by simp
qed simp

definition AddOne_fails :: "BigIntBase \<Rightarrow> bool" where
  "AddOne_fails x \<longleftrightarrow> length (digits x) = kMaxLength \<and> all_digits_max (digits x)"

lemma single_digit: "length X = 1 \<Longrightarrow> X = [X ! 0]"
  by (cases X) auto

lemma AbsoluteAddOne_spec:
  assumes "canonical x" and "\<not> AddOne_fails x"
  shows "\<exists>ds. AbsoluteAddOne junk x negative = Some (Inr \<lparr>sign = negative, digits = ds\<rparr>) \<and>
    length ds \<le> kMaxLength \<and> ds \<noteq> [] \<and> dval ds = dval (digits x) + 1"
proof -
  let ?X = "digits x"
  let ?n = "length ?X + of_bool (all_digits_max ?X)"
  let ?Z = "map junk [0..<?n]"
  have n: "?n \<le> kMaxLength" using assms by (auto simp: canonical_def AddOne_fails_def)
  consider "?X = []" | "length ?X = 1" "\<not> all_digits_max ?X" | "?X \<noteq> []" "length ?X \<noteq> 1 \<or> all_digits_max ?X" by blast
  then show ?thesis
  proof cases
    case 1
    then show ?thesis using n by (simp add: AbsoluteAddOne_def Let_def New_ok set_digit_def wr_def)
  next
    case 2
    then obtain d where d: "?X = [d]" using single_digit by blast
    with 2(2) have "unat d + unat (1 :: digit_t) < digit_base" using unat_lt_base [of d] by (simp add: digit_ismax_iff split: if_splits)
    from unat_digit_plus [OF this] have "unat (d + 1) = unat d + 1" by simp
    then show ?thesis using 2 n d
      by (simp add: AbsoluteAddOne_def Let_def New_ok set_digit_def wr_def digit_def rd_def)
  next
    case 3
    have "dval ?X + 1 < digit_base ^ length ?Z"
    proof (cases "all_digits_max ?X")
      case True
      have "max (length ?X) (length [1 :: digit_t]) = length ?X" using 3(1) by (cases ?X) simp_all
      with sum_fits [of ?X "[1]"] True show ?thesis by simp
    next
      case False
      then show ?thesis using dval_lt [of ?X] by (simp add: all_digits_max_iff)
    qed
    from AddOne_spec [OF _ this] obtain Z' where
      "AddOne ?Z ?X = Some Z'" "length Z' = length ?Z" "dval Z' = dval ?X + 1" by auto
    then show ?thesis using 3 n by (auto simp: AbsoluteAddOne_def Let_def New_ok)
  qed
qed

lemma AbsoluteAddOne_fails:
  assumes "AddOne_fails x"
  shows "AbsoluteAddOne junk x negative = Some (Inl kBigIntTooBig)"
  using assms by (simp add: AddOne_fails_def AbsoluteAddOne_def Let_def New_too_big)

lemma AbsoluteSubOne_spec:
  assumes "canonical x" and "\<not> is_zero x"
  shows "\<exists>ds. AbsoluteSubOne junk x = Some \<lparr>sign = False, digits = ds\<rparr> \<and>
    length ds \<le> kMaxLength \<and> ds \<noteq> [] \<and> dval ds = dval (digits x) - 1"
proof -
  let ?X = "digits x"
  let ?Z = "map junk [0..<length ?X]"
  have n: "length ?X \<le> kMaxLength" and ne: "?X \<noteq> []" using assms by (auto simp: canonical_def is_zero_def)
  have pos: "0 < dval ?X" using canonical_pos [OF assms] .
  show ?thesis
  proof (cases "length ?X = 1")
    case True
    then obtain d where d: "?X = [d]" using single_digit by blast
    with pos have "unat (d - 1) = unat d - 1" by (intro unat_minus_one) auto
    then show ?thesis using True n d
      by (simp add: AbsoluteSubOne_def ToHandleChecked_def New_ok set_digit_def wr_def digit_def rd_def)
  next
    case False
    from SubtractOne_spec [of ?X ?Z] pos obtain Z' where
      "SubtractOne ?Z ?X = Some Z'" "length Z' = length ?Z" "dval Z' = dval ?X - 1" by auto
    then show ?thesis using False n ne by (auto simp: AbsoluteSubOne_def ToHandleChecked_def New_ok)
  qed
qed

lemma negative_not_zero: "canonical x \<Longrightarrow> sign x \<Longrightarrow> \<not> is_zero x"
  by (auto simp: canonical_def is_zero_def)

lemma BigInt_BitwiseNot_spec:
  assumes "canonical x" and "\<not> sign x \<Longrightarrow> \<not> AddOne_fails x"
  shows "returns (BigInt_BitwiseNot junk x) (NOT (bigint_val x))"
proof (cases "sign x")
  case True
  with AbsoluteSubOne_spec [OF assms(1) negative_not_zero [OF assms(1)], of junk] canonical_pos [OF assms(1) negative_not_zero [OF assms(1)]]
  show ?thesis
    by (auto simp: BigInt_BitwiseNot_def MakeImmutable_maybe_def bigint_val_def sval_def not_int_def of_nat_diff
      intro!: returns_MakeImmutable)
next
  case False
  with AbsoluteAddOne_spec [OF assms(1) assms(2), of junk True] show ?thesis
    by (auto simp: BigInt_BitwiseNot_def MakeImmutable_maybe_def bigint_val_def sval_def not_int_def
      intro!: returns_MakeImmutable)
qed

lemma BigInt_Increment_spec:
  assumes "canonical x" and "\<not> sign x \<Longrightarrow> \<not> AddOne_fails x"
  shows "returns (BigInt_Increment junk x) (bigint_val x + 1)"
proof (cases "sign x")
  case True
  with AbsoluteSubOne_spec [OF assms(1) negative_not_zero [OF assms(1)], of junk] canonical_pos [OF assms(1) negative_not_zero [OF assms(1)]]
  show ?thesis
    by (auto simp: BigInt_Increment_def bigint_val_def sval_def of_nat_diff intro!: returns_MakeImmutable)
next
  case False
  with AbsoluteAddOne_spec [OF assms(1) assms(2), of junk False] show ?thesis
    by (auto simp: BigInt_Increment_def MakeImmutable_maybe_def bigint_val_def sval_def intro!: returns_MakeImmutable)
qed

lemma NewFromInt_spec:
  assumes "- (2 ^ 31) \<le> v" and "v < 2 ^ 31"
  shows "\<exists>z. NewFromInt junk v = Some z \<and> canonical z \<and> bigint_val z = v"
proof (cases "v = 0")
  case True
  then show ?thesis
    by (simp add: NewFromInt_def Zero_def ToHandleChecked_def New_ok MakeImmutable_def Canonicalize_def canonical_def
      IsDigitNormalized_def bigint_val_def sval_def)
next
  case False
  let ?r = "\<lparr>sign = v < 0, digits = [of_int \<bar>v\<bar>]\<rparr>"
  have "NewFromInt junk v = Some (MakeImmutable ?r)"
    using False by (auto simp: NewFromInt_def Let_def set_digit_def wr_def)
  moreover have "unat (of_int \<bar>v\<bar> :: digit_t) = nat \<bar>v\<bar>"
    using assms by (simp add: unat_eq_nat_uint uint_word_of_int_eq take_bit_int_eq_self)
  then have "dval [of_int \<bar>v\<bar>] = nat \<bar>v\<bar>" by (simp only: dval.simps mult_0_right add_0_right)
  then have "bigint_val ?r = v" by (simp only: bigint_val_def sval_def BigIntBase.simps) simp
  ultimately show ?thesis using MakeImmutable_spec [of ?r] kMaxLength_bounds(1) by simp
qed

lemma BigInt_Decrement_spec:
  assumes "canonical x" and "sign x \<Longrightarrow> \<not> AddOne_fails x"
  shows "returns (BigInt_Decrement junk x) (bigint_val x - 1)"
proof -
  consider "sign x" | "is_zero x" "\<not> sign x" | "\<not> is_zero x" "\<not> sign x" by blast
  then show ?thesis
  proof cases
    case 1
    with AbsoluteAddOne_spec [OF assms(1) assms(2), of junk True] show ?thesis
      by (auto simp: BigInt_Decrement_def MakeImmutable_maybe_def bigint_val_def sval_def intro!: returns_MakeImmutable)
  next
    case 2
    then show ?thesis using NewFromInt_spec [of "- 1" junk] canonical_zero [OF assms(1)]
      by (auto simp: BigInt_Decrement_def intro!: returns_self)
  next
    case 3
    with AbsoluteSubOne_spec [OF assms(1), of junk] canonical_pos [OF assms(1)] show ?thesis
      by (auto simp: BigInt_Decrement_def bigint_val_def sval_def of_nat_diff intro!: returns_MakeImmutable)
  qed
qed

section \<open>Comparison\<close>

lemma CompareToBigInt_spec:
  assumes "canonical x" and "canonical y"
  shows "CompareToBigInt x y =
    (if bigint_val x < bigint_val y then kLessThan else if bigint_val x = bigint_val y then kEqual else kGreaterThan)"
proof (cases "sign x = sign y")
  case True
  have "Compare (digits x) (digits y) > 0 \<longleftrightarrow> dval (digits y) < dval (digits x)"
    using Compare_less [of "digits x" "digits y"] Compare_eq [of "digits x" "digits y"] by linarith
  then show ?thesis using True
    by (auto simp: CompareToBigInt_def Let_def Compare_less AbsoluteGreater_def AbsoluteLess_def bigint_val_def sval_def)
next
  case False
  then show ?thesis using canonical_sign [OF assms(1)] canonical_sign [OF assms(2)]
    by (auto simp: CompareToBigInt_def Let_def UnequalSign_def)
qed

lemma equal_digits_eq:
  "i + n \<le> length xs \<Longrightarrow> i + n \<le> length ys \<Longrightarrow>
   equal_digits xs ys i n = Some (\<forall>k. i \<le> k \<and> k < i + n \<longrightarrow> xs ! k = ys ! k)"
proof (induction n arbitrary: i)
  case (Suc n)
  then have IH: "equal_digits xs ys (Suc i) n = Some (\<forall>k. Suc i \<le> k \<and> k < Suc i + n \<longrightarrow> xs ! k = ys ! k)" by simp
  have "(\<forall>k. i \<le> k \<and> k < i + Suc n \<longrightarrow> xs ! k = ys ! k) \<longleftrightarrow>
      xs ! i = ys ! i \<and> (\<forall>k. Suc i \<le> k \<and> k < Suc i + n \<longrightarrow> xs ! k = ys ! k)"
    by (metis Suc_leI add_Suc_right add_Suc le_eq_less_or_eq less_add_Suc1 Suc_leD)
  with IH Suc.prems show ?case by (simp add: rd_def)
qed auto

lemma EqualToBigInt_spec:
  assumes "canonical x" and "canonical y"
  shows "EqualToBigInt x y = Some (bigint_val x = bigint_val y)"
proof -
  have "EqualToBigInt x y = Some (x = y)"
    by (auto simp: EqualToBigInt_def equal_digits_eq intro!: BigIntBase.equality nth_equalityI)
  then show ?thesis using canonical_inj [OF assms] by auto
qed

section \<open>Properties\<close>

lemmas bigint_eval = canonical_def IsDigitNormalized_def kMaxLength_def kMaxLengthBits_def is_zero_def
  AddSignedResultLength_def SubtractSignedResultLength_def AddResultLength_def

text \<open>
  C1.  Addition and subtraction of canonical BigInts throw a RangeError exactly when both operands
  are nonzero and the digits reserved for the result exceed the maximal length; otherwise they return the canonical
  object of the exact sum and difference, whatever the allocated memory contained.
\<close>
theorem BigInt_Add_Subtract_correct:
  assumes "canonical x" and "canonical y"
  shows "(case Add_fails x y of None \<Rightarrow> returns (BigInt_Add junk x y) (bigint_val x + bigint_val y)
          | Some e \<Rightarrow> BigInt_Add junk x y = Some (Inl e)) \<and>
         (case Subtract_fails x y of None \<Rightarrow> returns (BigInt_Subtract junk x y) (bigint_val x - bigint_val y)
          | Some e \<Rightarrow> BigInt_Subtract junk x y = Some (Inl e))"
  using bigint_add.outcome [OF assms] bigint_subtract.outcome [OF assms] by blast

theorem BigInt_Add_Subtract_correct_witness:
  "returns (BigInt_Add (\<lambda>_. 9) \<lparr>sign = True, digits = [5]\<rparr> \<lparr>sign = False, digits = [0, 7]\<rparr>)
     (bigint_val \<lparr>sign = True, digits = [5]\<rparr> + bigint_val \<lparr>sign = False, digits = [0, 7]\<rparr>)"
  using BigInt_Add_Subtract_correct [of "\<lparr>sign = True, digits = [5]\<rparr>" "\<lparr>sign = False, digits = [0, 7]\<rparr>" "\<lambda>_. 9"]
  by (simp add: bigint_eval Add_fails_def Subtract_fails_def)



text \<open>
  C20.  Comparison and equality of canonical BigInts decide the order and the equality of the integers they
  represent, and equal integers are represented by equal objects.
\<close>
theorem BigInt_comparison_correct:
  assumes "canonical x" and "canonical y"
  shows "CompareToBigInt x y =
      (if bigint_val x < bigint_val y then kLessThan else if bigint_val x = bigint_val y then kEqual else kGreaterThan) \<and>
    EqualToBigInt x y = Some (bigint_val x = bigint_val y) \<and> (bigint_val x = bigint_val y) = (x = y)"
  using CompareToBigInt_spec [OF assms] EqualToBigInt_spec [OF assms] canonical_inj [OF assms] by auto

theorem BigInt_comparison_correct_witness:
  "CompareToBigInt \<lparr>sign = True, digits = [5]\<rparr> \<lparr>sign = True, digits = [0, 7]\<rparr> = kGreaterThan"
  using BigInt_comparison_correct [of "\<lparr>sign = True, digits = [5]\<rparr>" "\<lparr>sign = True, digits = [0, 7]\<rparr>"]
  by (simp add: bigint_eval bigint_val_def sval_def digit_base_def)

end
