(* ===== verification/BigInt_Bits.thy ===== *)
theory BigInt_Bits
  imports BigInt_Object
begin

text \<open>
  The bitwise operations, shifts and width reductions of \<open>objects/bigint.cc\<close>.  The object layer dispatches on
  the signs of its operands and allocates the result; together with \<open>bigint/bitwise.cc\<close> it computes the
  infinite two's complement operations of the language.
\<close>

definition BigInt_BitwiseAnd :: "memory \<Rightarrow> BigIntBase \<Rightarrow> BigIntBase \<Rightarrow> MaybeBigInt" where
  "BigInt_BitwiseAnd junk x y =
     (let x_sign = sign x; y_sign = sign y
      in if \<not> x_sign \<and> \<not> y_sign then do {
           let result_length = BitwiseAnd_PosPos_ResultLength (length (digits x)) (length (digits y));
           result \<leftarrow> ToHandleChecked (New junk result_length);
           Z \<leftarrow> BitwiseAnd_PosPos (digits result) (digits x) (digits y);
           Some (Inr (MakeImmutable (result\<lparr>digits := Z\<rparr>)))
         } else if x_sign \<and> y_sign then
           (let result_length = BitwiseAnd_NegNeg_ResultLength (length (digits x)) (length (digits y))
            in case New junk result_length of
                 Inl e \<Rightarrow> Some (Inl e)
               | Inr result \<Rightarrow> do {
                   Z \<leftarrow> BitwiseAnd_NegNeg (digits result) (digits x) (digits y);
                   Some (Inr (MakeImmutable (result\<lparr>digits := Z, sign := True\<rparr>))) })
         else do {
           let (x, y) = (if x_sign then (y, x) else (x, y));
           let result_length = BitwiseAnd_PosNeg_ResultLength (length (digits x));
           result \<leftarrow> ToHandleChecked (New junk result_length);
           Z \<leftarrow> BitwiseAnd_PosNeg (digits result) (digits x) (digits y);
           Some (Inr (MakeImmutable (result\<lparr>digits := Z\<rparr>)))
         })"

definition BigInt_BitwiseXor :: "memory \<Rightarrow> BigIntBase \<Rightarrow> BigIntBase \<Rightarrow> MaybeBigInt" where
  "BigInt_BitwiseXor junk x y =
     (let x_sign = sign x; y_sign = sign y
      in if \<not> x_sign \<and> \<not> y_sign then do {
           let result_length = BitwiseXor_PosPos_ResultLength (length (digits x)) (length (digits y));
           result \<leftarrow> ToHandleChecked (New junk result_length);
           Z \<leftarrow> BitwiseXor_PosPos (digits result) (digits x) (digits y);
           Some (Inr (MakeImmutable (result\<lparr>digits := Z\<rparr>)))
         } else if x_sign \<and> y_sign then do {
           let result_length = BitwiseXor_NegNeg_ResultLength (length (digits x)) (length (digits y));
           result \<leftarrow> ToHandleChecked (New junk result_length);
           Z \<leftarrow> BitwiseXor_NegNeg (digits result) (digits x) (digits y);
           Some (Inr (MakeImmutable (result\<lparr>digits := Z\<rparr>)))
         } else
           (let (x, y) = (if x_sign then (y, x) else (x, y));
                result_length = BitwiseXor_PosNeg_ResultLength (length (digits x)) (length (digits y))
            in case New junk result_length of
                 Inl e \<Rightarrow> Some (Inl e)
               | Inr result \<Rightarrow> do {
                   Z \<leftarrow> BitwiseXor_PosNeg (digits result) (digits x) (digits y);
                   Some (Inr (MakeImmutable (result\<lparr>digits := Z, sign := True\<rparr>))) }))"

definition BigInt_BitwiseOr :: "memory \<Rightarrow> BigIntBase \<Rightarrow> BigIntBase \<Rightarrow> MaybeBigInt" where
  "BigInt_BitwiseOr junk x y =
     (let x_sign = sign x; y_sign = sign y;
          result_length = BitwiseOrResultLength (length (digits x)) (length (digits y))
      in do {
        result \<leftarrow> ToHandleChecked (New junk result_length);
        if \<not> x_sign \<and> \<not> y_sign then do {
          Z \<leftarrow> BitwiseOr_PosPos (digits result) (digits x) (digits y);
          Some (Inr (MakeImmutable (result\<lparr>digits := Z\<rparr>)))
        } else if x_sign \<and> y_sign then do {
          Z \<leftarrow> BitwiseOr_NegNeg (digits result) (digits x) (digits y);
          Some (Inr (MakeImmutable (result\<lparr>digits := Z, sign := True\<rparr>)))
        } else do {
          let (x, y) = (if x_sign then (y, x) else (x, y));
          Z \<leftarrow> BitwiseOr_PosNeg (digits result) (digits x) (digits y);
          Some (Inr (MakeImmutable (result\<lparr>digits := Z, sign := True\<rparr>)))
        } })"

definition ToShiftAmount :: "BigIntBase \<Rightarrow> digit_t option option" where
  "ToShiftAmount x =
     (if length (digits x) > 1 then Some None
      else do {
        value \<leftarrow> digit x 0;
        Some (if value > of_nat kMaxLengthBits then None else Some value) })"

definition RightShiftByMaximum :: "memory \<Rightarrow> bool \<Rightarrow> BigIntBase option" where
  "RightShiftByMaximum junk negative = (if negative then NewFromInt junk (- 1) else Zero junk)"

definition LeftShiftByAbsolute :: "memory \<Rightarrow> BigIntBase \<Rightarrow> BigIntBase \<Rightarrow> MaybeBigInt" where
  "LeftShiftByAbsolute junk x y = do {
     maybe_shift \<leftarrow> ToShiftAmount y;
     case maybe_shift of
       None \<Rightarrow> Some (Inl kBigIntTooBig)
     | Some shift \<Rightarrow> do {
         m \<leftarrow> digit x (length (digits x) - 1);
         let result_length = LeftShift_ResultLength (length (digits x)) m shift;
         if result_length > int kMaxLength then Some (Inl kBigIntTooBig)
         else (case New junk (nat result_length) of
                 Inl e \<Rightarrow> Some (Inl e)
               | Inr result \<Rightarrow> do {
                   Z \<leftarrow> LeftShift (digits result) (digits x) shift;
                   Some (Inr (MakeImmutable (result\<lparr>digits := Z, sign := sign x\<rparr>))) }) } }"

definition RightShiftByAbsolute :: "memory \<Rightarrow> BigIntBase \<Rightarrow> BigIntBase \<Rightarrow> BigIntBase option" where
  "RightShiftByAbsolute junk x y =
     (let negative = sign x
      in do {
        maybe_shift \<leftarrow> ToShiftAmount y;
        case maybe_shift of
          None \<Rightarrow> RightShiftByMaximum junk negative
        | Some shift \<Rightarrow> do {
            (result_length, state) \<leftarrow> RightShift_ResultLength (digits x) negative shift \<lparr>must_round_down = False\<rparr>;
            if result_length \<le> 0 then RightShiftByMaximum junk negative
            else do {
              result \<leftarrow> ToHandleChecked (New junk (nat result_length));
              Z \<leftarrow> RightShift (digits result) (digits x) shift state;
              let result = result\<lparr>digits := Z\<rparr>;
              let result = (if negative then result\<lparr>sign := True\<rparr> else result);
              Some (MakeImmutable result) } } })"

definition BigInt_LeftShift :: "memory \<Rightarrow> BigIntBase \<Rightarrow> BigIntBase \<Rightarrow> MaybeBigInt" where
  "BigInt_LeftShift junk x y =
     (if is_zero y \<or> is_zero x then Some (Inr x)
      else if sign y then do { r \<leftarrow> RightShiftByAbsolute junk x y; Some (Inr r) }
      else LeftShiftByAbsolute junk x y)"

definition BigInt_SignedRightShift :: "memory \<Rightarrow> BigIntBase \<Rightarrow> BigIntBase \<Rightarrow> MaybeBigInt" where
  "BigInt_SignedRightShift junk x y =
     (if is_zero y \<or> is_zero x then Some (Inr x)
      else if sign y then LeftShiftByAbsolute junk x y
      else do { r \<leftarrow> RightShiftByAbsolute junk x y; Some (Inr r) })"

definition BigInt_UnsignedRightShift :: "memory \<Rightarrow> BigIntBase \<Rightarrow> BigIntBase \<Rightarrow> MaybeBigInt" where
  "BigInt_UnsignedRightShift junk x y = Some (Inl kBigIntShr)"

definition BigInt_AsIntN :: "memory \<Rightarrow> nat \<Rightarrow> BigIntBase \<Rightarrow> BigIntBase option" where
  "BigInt_AsIntN junk n x =
     (if is_zero x \<or> n > kMaxLengthBits then Some x
      else if n = 0 then Zero junk
      else do {
        needed_length \<leftarrow> AsIntNResultLength (digits x) (sign x) n;
        if needed_length = - 1 then Some x
        else do {
          result \<leftarrow> ToHandleChecked (New junk (nat needed_length));
          (Z, negative) \<leftarrow> AsIntN (digits result) (digits x) (sign x) n;
          Some (MakeImmutable (result\<lparr>digits := Z, sign := negative\<rparr>)) } })"

definition BigInt_AsUintN :: "memory \<Rightarrow> nat \<Rightarrow> BigIntBase \<Rightarrow> MaybeBigInt" where
  "BigInt_AsUintN junk n x =
     (if is_zero x then Some (Inr x)
      else if n = 0 then do { z \<leftarrow> Zero junk; Some (Inr z) }
      else if sign x then
        (if n > kMaxLengthBits then Some (Inl kBigIntTooBig)
         else do {
           result \<leftarrow> ToHandleChecked (New junk (AsUintN_Neg_ResultLength n));
           Z \<leftarrow> AsUintN_Neg (digits result) (digits x) n;
           Some (Inr (MakeImmutable (result\<lparr>digits := Z\<rparr>))) })
      else if n \<ge> kMaxLengthBits then Some (Inr x)
      else do {
        result_length \<leftarrow> AsUintN_Pos_ResultLength (digits x) n;
        if result_length < 0 then Some (Inr x)
        else do {
          result \<leftarrow> ToHandleChecked (New junk (nat result_length));
          Z \<leftarrow> AsUintN_Pos (digits result) (digits x) n;
          Some (Inr (MakeImmutable (result\<lparr>digits := Z\<rparr>))) } })"

section \<open>Bitwise operations\<close>

lemma checked_New: "len \<le> kMaxLength \<Longrightarrow> ToHandleChecked (New junk len) = Some \<lparr>sign = False, digits = map junk [0..<len]\<rparr>"
  by (simp add: ToHandleChecked_def New_ok)

lemma canonical_len: "canonical x \<Longrightarrow> length (digits x) \<le> kMaxLength"
  by (simp add: canonical_def)

lemma returns_result:
  assumes "length Z \<le> kMaxLength" and "int (dval Z) = v"
  shows "returns (Some (Inr (MakeImmutable \<lparr>sign = False, digits = Z\<rparr>))) v"
  by (rule returns_MakeImmutable) (use assms in \<open>simp_all add: bigint_val_def sval_def\<close>)

lemma returns_negative:
  assumes "length Z \<le> kMaxLength" and "Z \<noteq> []" and "- int (dval Z) = v"
  shows "returns (Some (Inr (MakeImmutable \<lparr>sign = True, digits = Z\<rparr>))) v"
  by (rule returns_MakeImmutable) (use assms in \<open>simp_all add: bigint_val_def sval_def\<close>)

lemma negative_pos: "canonical x \<Longrightarrow> sign x \<Longrightarrow> 0 < dval (digits x)"
  using canonical_pos negative_not_zero by blast

lemma negative_len: "canonical x \<Longrightarrow> sign x \<Longrightarrow> digits x \<noteq> []"
  by (auto simp: canonical_def)

definition BitwiseAnd_fails :: "BigIntBase \<Rightarrow> BigIntBase \<Rightarrow> BigIntError option" where
  "BitwiseAnd_fails x y =
     (if sign x \<and> sign y \<and> max (length (digits x)) (length (digits y)) = kMaxLength then Some kBigIntTooBig else None)"

definition BitwiseXor_fails :: "BigIntBase \<Rightarrow> BigIntBase \<Rightarrow> BigIntError option" where
  "BitwiseXor_fails x y =
     (if sign x \<noteq> sign y \<and> max (length (digits x)) (length (digits y)) = kMaxLength then Some kBigIntTooBig else None)"

lemmas bitwise_lengths = BitwiseAnd_PosPos_ResultLength_def BitwiseAnd_NegNeg_ResultLength_def
  BitwiseAnd_PosNeg_ResultLength_def BitwiseOrResultLength_def BitwiseXor_PosPos_ResultLength_def
  BitwiseXor_NegNeg_ResultLength_def BitwiseXor_PosNeg_ResultLength_def

lemma bigint_val_signs:
  shows bigint_val_pos: "\<not> sign x \<Longrightarrow> bigint_val x = int (dval (digits x))"
    and bigint_val_neg: "sign x \<Longrightarrow> bigint_val x = - int (dval (digits x))"
  by (simp_all add: bigint_val_def sval_def)

lemma sign_cases:
  obtains "\<not> sign x" "\<not> sign y" | "sign x" "sign y" | "\<not> sign x" "sign y" | "sign x" "\<not> sign y"
  by blast

lemma BigInt_BitwiseAnd_computes:
  assumes "canonical x" and "canonical y" and "BitwiseAnd_fails x y = None"
  shows "returns (BigInt_BitwiseAnd junk x y) (bigint_val x AND bigint_val y)"
proof -
  note pos = negative_pos [OF assms(1)] negative_pos [OF assms(2)]
  note len = canonical_len [OF assms(1)] canonical_len [OF assms(2)]
  have room: "max (length (digits x)) (length (digits y)) < kMaxLength" if "sign x \<and> sign y"
    using that len assms(3) by (auto simp: BitwiseAnd_fails_def split: if_splits)
  show ?thesis
  proof (cases rule: sign_cases [of x y])
    case 1
    let ?n = "BitwiseAnd_PosPos_ResultLength (length (digits x)) (length (digits y))"
    have "?n \<le> kMaxLength" using 1 len room by (auto simp: bitwise_lengths)
    with 1 BitwiseAnd_PosPos_spec [of "digits x" "digits y" "map junk [0..<?n]"] show ?thesis
      by (auto simp: BigInt_BitwiseAnd_def Let_def checked_New bigint_val_signs intro!: returns_result)
  next
    case 2
    let ?n = "BitwiseAnd_NegNeg_ResultLength (length (digits x)) (length (digits y))"
    have "?n \<le> kMaxLength" "0 < ?n" using 2 len room by (auto simp: bitwise_lengths)
    with 2 pos BitwiseAnd_NegNeg_spec [of "digits x" "digits y" "map junk [0..<?n]"] show ?thesis
      by (auto simp: BigInt_BitwiseAnd_def Let_def New_ok bigint_val_signs intro!: returns_negative)
  next
    case 3
    let ?n = "BitwiseAnd_PosNeg_ResultLength (length (digits x))"
    have "?n \<le> kMaxLength" using 3 len room by (auto simp: bitwise_lengths)
    with 3 pos BitwiseAnd_PosNeg_spec [of "digits x" "map junk [0..<?n]" "digits y"] show ?thesis
      by (auto simp: BigInt_BitwiseAnd_def Let_def checked_New bigint_val_signs intro!: returns_result)
  next
    case 4
    let ?n = "BitwiseAnd_PosNeg_ResultLength (length (digits y))"
    have "?n \<le> kMaxLength" using 4 len room by (auto simp: bitwise_lengths)
    with 4 pos BitwiseAnd_PosNeg_spec [of "digits y" "map junk [0..<?n]" "digits x"] show ?thesis
      by (auto simp: BigInt_BitwiseAnd_def Let_def checked_New bigint_val_signs and.commute [of "- _"] intro!: returns_result)
  qed
qed

lemma BigInt_BitwiseXor_computes:
  assumes "canonical x" and "canonical y" and "BitwiseXor_fails x y = None"
  shows "returns (BigInt_BitwiseXor junk x y) (bigint_val x XOR bigint_val y)"
proof -
  note pos = negative_pos [OF assms(1)] negative_pos [OF assms(2)]
  note len = canonical_len [OF assms(1)] canonical_len [OF assms(2)]
  have room: "max (length (digits x)) (length (digits y)) < kMaxLength" if "sign x \<noteq> sign y"
    using that len assms(3) by (auto simp: BitwiseXor_fails_def split: if_splits)
  show ?thesis
  proof (cases rule: sign_cases [of x y])
    case 1
    let ?n = "BitwiseXor_PosPos_ResultLength (length (digits x)) (length (digits y))"
    have "?n \<le> kMaxLength" using 1 len room by (auto simp: bitwise_lengths)
    with 1 BitwiseXor_PosPos_spec [of "digits x" "digits y" "map junk [0..<?n]"] show ?thesis
      by (auto simp: BigInt_BitwiseXor_def Let_def checked_New bigint_val_signs intro!: returns_result)
  next
    case 2
    let ?n = "BitwiseXor_NegNeg_ResultLength (length (digits x)) (length (digits y))"
    have "?n \<le> kMaxLength" using 2 len room by (auto simp: bitwise_lengths)
    with 2 pos BitwiseXor_NegNeg_spec [of "digits x" "digits y" "map junk [0..<?n]"] show ?thesis
      by (auto simp: BigInt_BitwiseXor_def Let_def checked_New bigint_val_signs intro!: returns_result)
  next
    case 3
    let ?n = "BitwiseXor_PosNeg_ResultLength (length (digits x)) (length (digits y))"
    have "?n \<le> kMaxLength" "0 < ?n" using 3 len room by (auto simp: bitwise_lengths)
    with 3 pos BitwiseXor_PosNeg_spec [of "digits x" "digits y" "map junk [0..<?n]"] show ?thesis
      by (auto simp: BigInt_BitwiseXor_def Let_def New_ok bigint_val_signs intro!: returns_negative)
  next
    case 4
    let ?n = "BitwiseXor_PosNeg_ResultLength (length (digits y)) (length (digits x))"
    have "?n \<le> kMaxLength" "0 < ?n" using 4 len room by (auto simp: bitwise_lengths)
    with 4 pos BitwiseXor_PosNeg_spec [of "digits y" "digits x" "map junk [0..<?n]"] show ?thesis
      by (auto simp: BigInt_BitwiseXor_def Let_def New_ok bigint_val_signs xor.commute [of "- _"] intro!: returns_negative)
  qed
qed

interpretation bigint_and: bigint_operation BigInt_BitwiseAnd "(AND)" BitwiseAnd_fails
proof unfold_locales
  fix x y e junk assume "BitwiseAnd_fails x y = Some e"
  then show "BigInt_BitwiseAnd junk x y = Some (Inl e)"
    by (auto simp: BitwiseAnd_fails_def BigInt_BitwiseAnd_def Let_def New_def bitwise_lengths split: if_splits)
qed (rule BigInt_BitwiseAnd_computes)

interpretation bigint_xor: bigint_operation BigInt_BitwiseXor "(XOR)" BitwiseXor_fails
proof unfold_locales
  fix x y e junk assume "BitwiseXor_fails x y = Some e"
  then show "BigInt_BitwiseXor junk x y = Some (Inl e)"
    by (auto simp: BitwiseXor_fails_def BigInt_BitwiseXor_def Let_def New_def bitwise_lengths max.commute split: if_splits)
qed (rule BigInt_BitwiseXor_computes)

text \<open>Disjunction never needs more digits than its operands and never fails.\<close>

lemma BigInt_BitwiseOr_computes:
  assumes "canonical x" and "canonical y"
  shows "returns (BigInt_BitwiseOr junk x y) (bigint_val x OR bigint_val y)"
proof -
  note pos = negative_pos [OF assms(1)] negative_pos [OF assms(2)]
  let ?n = "BitwiseOrResultLength (length (digits x)) (length (digits y))" and ?m = "BitwiseOrResultLength (length (digits y)) (length (digits x))"
  have n: "?n \<le> kMaxLength" "?m = ?n" using canonical_len [OF assms(1)] canonical_len [OF assms(2)] by (auto simp: bitwise_lengths)
  have ne: "0 < ?n" if "sign x \<or> sign y"
    using that negative_len [OF assms(1)] negative_len [OF assms(2)] by (auto simp: bitwise_lengths less_max_iff_disj)
  let ?Z = "map junk [0..<?n]"
  show ?thesis
  proof (cases rule: sign_cases [of x y])
    case 1
    from BitwiseOr_PosPos_spec [of "digits x" "digits y" ?Z] 1 n show ?thesis
      by (auto simp: BigInt_BitwiseOr_def checked_New bigint_val_signs intro!: returns_result)
  next
    case 2
    from BitwiseOr_NegNeg_spec [of "digits x" "digits y" ?Z] 2 pos n ne show ?thesis
      by (auto simp: BigInt_BitwiseOr_def checked_New bigint_val_signs intro!: returns_negative)
  next
    case 3
    from BitwiseOr_PosNeg_spec [of "digits x" "digits y" ?Z] 3 pos n ne show ?thesis
      by (auto simp: BigInt_BitwiseOr_def checked_New bigint_val_signs intro!: returns_negative)
  next
    case 4
    from BitwiseOr_PosNeg_spec [of "digits y" "digits x" ?Z] 4 pos n ne show ?thesis
      by (auto simp: BigInt_BitwiseOr_def checked_New bigint_val_signs or.commute [of "- _"] intro!: returns_negative)
  qed
qed

interpretation bigint_or: bigint_operation BigInt_BitwiseOr "(OR)" "\<lambda>x y. None"
  by unfold_locales (simp, rule BigInt_BitwiseOr_computes)

section \<open>Shifts\<close>

definition shift_by :: "int \<Rightarrow> int \<Rightarrow> int" where
  "shift_by v n = (if 0 \<le> n then push_bit (nat n) v else drop_bit (nat (- n)) v)"

lemma canonical_dval_lt: "canonical x \<Longrightarrow> dval (digits x) < 2 ^ kMaxLengthBits"
proof -
  assume "canonical x"
  then have "digit_base ^ length (digits x) \<le> digit_base ^ kMaxLength"
    by (intro power_increasing) (simp_all add: canonical_def Suc_leI)
  also have "\<dots> = 2 ^ (64 * kMaxLength)" by (simp only: digit_base_def power_mult)
  also have "64 * kMaxLength = kMaxLengthBits" by (simp add: kMaxLength_def kMaxLengthBits_def)
  finally show ?thesis using dval_lt [of "digits x"] by linarith
qed

lemma single_digit_of_small:
  assumes "canonical y" and "\<not> is_zero y" and "dval (digits y) < digit_base"
  obtains d where "digits y = [d]"
proof -
  have "digit_base ^ (length (digits y) - 1) < digit_base ^ 1"
    using dval_ge_normalized [of "digits y"] assms by (auto simp: canonical_def is_zero_def)
  then have "length (digits y) - 1 < 1" by (rule power_less_imp_less_exp [rotated]) simp
  then have "length (digits y) = Suc 0" using assms(2) by (cases "length (digits y)") (auto simp: is_zero_def)
  then show ?thesis using that by (auto simp: length_Suc_conv)
qed

lemma ToShiftAmount_spec:
  assumes "canonical y" and "\<not> is_zero y"
  shows "ToShiftAmount y = Some (if dval (digits y) > kMaxLengthBits then None else Some (of_nat (dval (digits y))))"
proof (cases "dval (digits y) < digit_base")
  case True
  from single_digit_of_small [OF assms this] obtain d where d: "digits y = [d]" .
  have "d > of_nat kMaxLengthBits \<longleftrightarrow> unat d > kMaxLengthBits"
    by (simp add: word_less_nat_alt unat_of_nat kMaxLengthBits_def)
  then show ?thesis by (simp add: ToShiftAmount_def d digit_def rd_def)
next
  case False
  have "length (digits y) > 1"
  proof (rule ccontr)
    assume "\<not> ?thesis"
    then have "digit_base ^ length (digits y) \<le> digit_base ^ 1" by (intro power_increasing) (simp_all add: Suc_leI)
    with False dval_lt [of "digits y"] show False by simp
  qed
  moreover have "kMaxLengthBits < digit_base" by (simp add: kMaxLengthBits_def digit_base_def)
  ultimately show ?thesis using False by (simp add: ToShiftAmount_def)
qed

lemma RightShiftByMaximum_spec:
  assumes "canonical x" and "dval (digits x) < 2 ^ n"
  shows "\<exists>z. RightShiftByMaximum junk (sign x) = Some z \<and> canonical z \<and> bigint_val z = drop_bit n (bigint_val x)"
proof (cases "sign x")
  case True
  let ?d = "int (dval (digits x))"
  have "0 < ?d" using negative_pos [OF assms(1) True] by simp
  moreover have "?d < 2 ^ n" using assms(2) by (simp flip: of_nat_less_iff)
  ultimately have "- ?d div 2 ^ n = - 1" by (intro int_div_pos_eq [of _ _ _ "2 ^ n - ?d"]) auto
  then show ?thesis using NewFromInt_spec [of "- 1" junk] True
    by (simp add: RightShiftByMaximum_def drop_bit_eq_div bigint_val_signs)
next
  case False
  moreover have "Zero junk = NewFromInt junk 0" by (simp add: NewFromInt_def)
  moreover have "int (dval (digits x)) div 2 ^ n = 0" using assms(2) by (simp flip: of_nat_less_iff)
  ultimately show ?thesis using NewFromInt_spec [of 0 junk]
    by (simp add: RightShiftByMaximum_def drop_bit_eq_div bigint_val_signs)
qed

text \<open>A shift amount that \<open>ToShiftAmount\<close> accepts stays within the range the digit loops rely on.\<close>

lemma shift_amount:
  assumes "n \<le> kMaxLengthBits"
  shows "unat (of_nat n :: digit_t) = n" and "unat (of_nat n :: digit_t) div 64 < 2 ^ 31"
proof -
  have le: "n \<le> 2 ^ 30" using assms by (simp add: kMaxLengthBits_def)
  then show "unat (of_nat n :: digit_t) = n" by (simp add: unat_of_nat)
  with div_le_mono [OF le, of 64] show "unat (of_nat n :: digit_t) div 64 < 2 ^ 31" by simp
qed

lemma RightShift_ResultLength_le:
  assumes "unat shift div 64 < 2 ^ 31" and "0 < unat shift"
    and "RightShift_ResultLength X x_sign shift st0 = Some (len, st)" and "0 < len"
  shows "len \<le> int (length X)"
proof -
  have ds: "unat shift div 64 < length X"
    using assms(3,4) shift_parts [OF assms(1)] by (auto simp: RightShift_ResultLength_def Let_def split: if_splits)
  have "unat shift div 64 \<noteq> 0" if "unat shift mod 64 = 0" using that assms(2) by auto
  then show ?thesis using RightShift_ResultLength_eq [OF assms(1) ds, of x_sign st0] assms(3) ds
    by (auto simp: Let_def split: if_splits)
qed

lemma RightShift_ResultLength_total:
  assumes "unat shift div 64 < 2 ^ 31"
  shows "(length X \<le> unat shift div 64 \<and> RightShift_ResultLength X x_sign shift st0 = Some (0, st0)) \<or>
    (\<exists>len st. RightShift_ResultLength X x_sign shift st0 = Some (len, st) \<and> 0 < len)"
  using RightShift_ResultLength_eq [OF assms, of X x_sign st0] shift_parts [OF assms]
  by (cases "unat shift div 64 < length X") (auto simp: RightShift_ResultLength_def Let_def)

lemma RightShiftByAbsolute_spec:
  assumes "canonical x" and "canonical y" and "\<not> is_zero x" and "\<not> is_zero y"
  shows "\<exists>z. RightShiftByAbsolute junk x y = Some z \<and> canonical z \<and> bigint_val z = drop_bit (dval (digits y)) (bigint_val x)"
proof -
  define n where "n = dval (digits y)"
  note amount = ToShiftAmount_spec [OF assms(2,4), folded n_def]
  show ?thesis
  proof (cases "n > kMaxLengthBits")
    case True
    have "(2::nat) ^ kMaxLengthBits \<le> 2 ^ n" using True by (intro power_increasing) simp_all
    with canonical_dval_lt [OF assms(1)] have "dval (digits x) < 2 ^ n" by linarith
    from RightShiftByMaximum_spec [OF assms(1) this, of junk] show ?thesis
      using amount True by (simp add: RightShiftByAbsolute_def n_def)
  next
    case False
    then have le: "n \<le> kMaxLengthBits" by simp
    let ?s = "of_nat n :: digit_t" and ?st0 = "\<lparr>must_round_down = False\<rparr>" and ?X = "digits x"
    note s = shift_amount [OF le]
    from RightShift_ResultLength_total [OF s(2), of ?X "sign x" ?st0]
    consider "length ?X \<le> n div 64" "RightShift_ResultLength ?X (sign x) ?s ?st0 = Some (0, ?st0)"
      | len st where "RightShift_ResultLength ?X (sign x) ?s ?st0 = Some (len, st)" "0 < len" using s(1) by auto
    then show ?thesis
    proof cases
      case 1
      have "(2::nat) ^ (64 * length ?X) \<le> 2 ^ n" using 1(1) by (intro power_increasing) simp_all
      with dval_lt [of ?X] have "dval ?X < 2 ^ n" by (simp add: digit_base_def power_mult)
      from RightShiftByMaximum_spec [OF assms(1) this, of junk] show ?thesis
        using amount False 1(2) by (simp add: RightShiftByAbsolute_def n_def)
    next
      case 2
      have "0 < n" using canonical_pos [OF assms(2,4)] by (simp add: n_def)
      with RightShift_ResultLength_le [OF s(2) _ 2] s(1) have len: "nat len \<le> kMaxLength" "nat len \<noteq> 0"
        using canonical_len [OF assms(1)] 2(2) by auto
      let ?Z = "map junk [0..<nat len]"
      from RightShift_spec [OF s(2) 2, of ?Z] s(1) obtain Z' where
        Z': "RightShift ?Z ?X ?s st = Some Z'" "length Z' = nat len" "sval (sign x) Z' = drop_bit n (sval (sign x) ?X)" by auto
      let ?r = "\<lparr>sign = sign x, digits = Z'\<rparr>"
      have "RightShiftByAbsolute junk x y = Some (MakeImmutable ?r)"
        using amount False 2 Z'(1) len by (cases "sign x") (simp_all add: RightShiftByAbsolute_def checked_New)
      moreover have "Z' \<noteq> []" using Z'(2) len(2) by auto
      ultimately show ?thesis using MakeImmutable_spec [of ?r] Z' len
        by (simp add: bigint_val_def n_def)
    qed
  qed
qed

definition ShiftUp_fails :: "BigIntBase \<Rightarrow> BigIntBase \<Rightarrow> bool" where
  "ShiftUp_fails x y \<longleftrightarrow> dval (digits y) > kMaxLengthBits \<or>
     LeftShift_ResultLength (length (digits x)) (last (digits x)) (of_nat (dval (digits y))) > int kMaxLength"

lemma last_digit: "\<not> is_zero x \<Longrightarrow> digit x (length (digits x) - 1) = Some (last (digits x))"
  by (auto simp: digit_def rd_def is_zero_def last_conv_nth)

lemma LeftShiftByAbsolute_spec:
  assumes "canonical x" and "canonical y" and "\<not> is_zero x" and "\<not> is_zero y"
  shows "if ShiftUp_fails x y then LeftShiftByAbsolute junk x y = Some (Inl kBigIntTooBig)
         else returns (LeftShiftByAbsolute junk x y) (push_bit (dval (digits y)) (bigint_val x))"
proof -
  define n where "n = dval (digits y)"
  let ?s = "of_nat n :: digit_t" and ?X = "digits x"
  let ?len = "LeftShift_ResultLength (length ?X) (last ?X) ?s"
  note amount = ToShiftAmount_spec [OF assms(2,4), folded n_def] last_digit [OF assms(3)]
  show ?thesis
  proof (cases "ShiftUp_fails x y")
    case True
    then show ?thesis using amount by (auto simp: LeftShiftByAbsolute_def ShiftUp_fails_def n_def)
  next
    case False
    then have le: "n \<le> kMaxLengthBits" and len: "?len \<le> int kMaxLength" by (auto simp: ShiftUp_fails_def n_def)
    note s = shift_amount [OF le]
    have ne: "?X \<noteq> []" using assms(3) by (auto simp: is_zero_def)
    have "int (length ?X) \<le> ?len" using shift_parts [OF s(2)] by (simp add: LeftShift_ResultLength_def Let_def)
    then have pos: "0 < ?len" using ne by (cases ?X) auto
    let ?Z = "map junk [0..<nat ?len]"
    from LeftShift_spec [OF s(2) ne, of ?Z] pos s(1) obtain Z' where
      Z': "LeftShift ?Z ?X ?s = Some Z'" "length Z' = nat ?len" "int (dval Z') = push_bit n (int (dval ?X))" by auto
    have "LeftShiftByAbsolute junk x y = Some (Inr (MakeImmutable \<lparr>sign = sign x, digits = Z'\<rparr>))"
      using amount le len Z'(1) by (simp add: LeftShiftByAbsolute_def New_ok Let_def)
    moreover have "Z' \<noteq> []" using Z'(2) pos by auto
    moreover have "sval (sign x) Z' = push_bit n (sval (sign x) ?X)"
      using Z'(3) by (simp add: sval_def push_bit_eq_mult)
    ultimately show ?thesis using Z'(2) len False
      by (auto simp: bigint_val_def n_def intro!: returns_MakeImmutable)
  qed
qed

definition LeftShift_fails :: "BigIntBase \<Rightarrow> BigIntBase \<Rightarrow> BigIntError option" where
  "LeftShift_fails x y =
     (if \<not> is_zero x \<and> \<not> is_zero y \<and> \<not> sign y \<and> ShiftUp_fails x y then Some kBigIntTooBig else None)"

definition SignedRightShift_fails :: "BigIntBase \<Rightarrow> BigIntBase \<Rightarrow> BigIntError option" where
  "SignedRightShift_fails x y =
     (if \<not> is_zero x \<and> \<not> is_zero y \<and> sign y \<and> ShiftUp_fails x y then Some kBigIntTooBig else None)"

lemma shift_by_zero: "canonical x \<Longrightarrow> canonical y \<Longrightarrow> is_zero y \<or> is_zero x \<Longrightarrow>
    shift_by (bigint_val x) (bigint_val y) = bigint_val x \<and> shift_by (bigint_val x) (- bigint_val y) = bigint_val x"
  using canonical_zero [of x] canonical_zero [of y] by (auto simp: shift_by_def)

lemma shift_by_sign:
  assumes "canonical y" and "\<not> is_zero y"
  shows "shift_by v (bigint_val y) = (if sign y then drop_bit (dval (digits y)) v else push_bit (dval (digits y)) v)"
    and "shift_by v (- bigint_val y) = (if sign y then push_bit (dval (digits y)) v else drop_bit (dval (digits y)) v)"
  using canonical_pos [OF assms] by (simp_all add: shift_by_def bigint_val_def sval_def)

interpretation bigint_left_shift: bigint_operation BigInt_LeftShift shift_by LeftShift_fails
proof unfold_locales
  fix x y e junk assume c: "canonical x" "canonical y" and "LeftShift_fails x y = Some e"
  then show "BigInt_LeftShift junk x y = Some (Inl e)"
    using LeftShiftByAbsolute_spec [OF c] by (auto simp: LeftShift_fails_def BigInt_LeftShift_def split: if_splits)
next
  fix x y junk assume c: "canonical x" "canonical y" and f: "LeftShift_fails x y = None"
  show "returns (BigInt_LeftShift junk x y) (shift_by (bigint_val x) (bigint_val y))"
  proof (cases "is_zero y \<or> is_zero x")
    case True
    with shift_by_zero [OF c] c show ?thesis by (auto simp: BigInt_LeftShift_def intro!: returns_self)
  next
    case False
    with LeftShiftByAbsolute_spec [OF c, of junk] RightShiftByAbsolute_spec [OF c, of junk] f shift_by_sign(1) [OF c(2)] show ?thesis
      by (auto simp: LeftShift_fails_def BigInt_LeftShift_def returns_def split: if_splits)
  qed
qed

interpretation bigint_right_shift: bigint_operation BigInt_SignedRightShift "\<lambda>v n. shift_by v (- n)" SignedRightShift_fails
proof unfold_locales
  fix x y e junk assume c: "canonical x" "canonical y" and "SignedRightShift_fails x y = Some e"
  then show "BigInt_SignedRightShift junk x y = Some (Inl e)"
    using LeftShiftByAbsolute_spec [OF c] by (auto simp: SignedRightShift_fails_def BigInt_SignedRightShift_def split: if_splits)
next
  fix x y junk assume c: "canonical x" "canonical y" and f: "SignedRightShift_fails x y = None"
  show "returns (BigInt_SignedRightShift junk x y) (shift_by (bigint_val x) (- bigint_val y))"
  proof (cases "is_zero y \<or> is_zero x")
    case True
    with shift_by_zero [OF c] c show ?thesis by (auto simp: BigInt_SignedRightShift_def intro!: returns_self)
  next
    case False
    with LeftShiftByAbsolute_spec [OF c, of junk] RightShiftByAbsolute_spec [OF c, of junk] f shift_by_sign(2) [OF c(2)] show ?thesis
      by (auto simp: SignedRightShift_fails_def BigInt_SignedRightShift_def returns_def split: if_splits)
  qed
qed

section \<open>Reduction to a fixed width\<close>

lemma Zero_spec: "\<exists>z. Zero junk = Some z \<and> canonical z \<and> bigint_val z = 0"
  using NewFromInt_spec [of 0 junk] by (simp add: NewFromInt_def)

lemma DIV_CEIL_le: "0 < n \<Longrightarrow> n \<le> kMaxLengthBits \<Longrightarrow> DIV_CEIL n kDigitBits \<le> kMaxLength \<and> 0 < DIV_CEIL n kDigitBits"
  by (simp add: DIV_CEIL_def kMaxLength_def kMaxLengthBits_def)

lemma signed_take_bit_wide: "canonical x \<Longrightarrow> kMaxLengthBits < n \<Longrightarrow> signed_take_bit (n - 1) (bigint_val x) = bigint_val x"
proof (rule signed_take_bit_int_eq_self)
  assume c: "canonical x" and n: "kMaxLengthBits < n"
  have "(2::nat) ^ kMaxLengthBits \<le> 2 ^ (n - 1)" using n by (intro power_increasing) auto
  with canonical_dval_lt [OF c] have "dval (digits x) < 2 ^ (n - 1)" by linarith
  then have "int (dval (digits x)) < 2 ^ (n - 1)" by (simp flip: of_nat_less_iff)
  moreover have "bigint_val x \<le> int (dval (digits x))" "- int (dval (digits x)) \<le> bigint_val x"
    by (simp_all add: bigint_val_def sval_def)
  ultimately show "- (2 ^ (n - 1)) \<le> bigint_val x" and "bigint_val x < 2 ^ (n - 1)" by linarith+
qed

lemma BigInt_AsIntN_spec:
  assumes "canonical x"
  shows "\<exists>z. BigInt_AsIntN junk n x = Some z \<and> canonical z \<and>
    bigint_val z = (if n = 0 then 0 else signed_take_bit (n - 1) (bigint_val x))"
proof -
  consider "is_zero x" | "\<not> is_zero x" "kMaxLengthBits < n" | "\<not> is_zero x" "n = 0" | "\<not> is_zero x" "0 < n" "n \<le> kMaxLengthBits" by linarith
  then show ?thesis
  proof cases
    case 1
    then show ?thesis using assms canonical_zero [OF assms] by (simp add: BigInt_AsIntN_def)
  next
    case 2
    then show ?thesis using assms signed_take_bit_wide [OF assms 2(2)] by (simp add: BigInt_AsIntN_def)
  next
    case 3
    then show ?thesis using Zero_spec [of junk] by (simp add: BigInt_AsIntN_def)
  next
    case 4
    let ?len = "AsIntNResultLength (digits x) (sign x) n" and ?k = "DIV_CEIL n kDigitBits"
    note k = DIV_CEIL_le [OF 4(2,3)]
    have "?len = Some (- 1) \<or> ?len = Some (int ?k)"
      using k by (auto simp: AsIntNResultLength_def Let_def rd_def all_zero_below_eq)
    then show ?thesis
    proof
      assume "?len = Some (- 1)"
      then show ?thesis using AsIntN_noop [OF 4(2)] 4 assms by (simp add: BigInt_AsIntN_def bigint_val_def)
    next
      assume len: "?len = Some (int ?k)"
      from AsIntN_spec [OF 4(2), of "digits x" "sign x" "map junk [0..<?k]"] len obtain Z' neg where
        Z': "AsIntN (map junk [0..<?k]) (digits x) (sign x) n = Some (Z', neg)" "length Z' = ?k"
        "sval neg Z' = signed_take_bit (n - 1) (sval (sign x) (digits x))" by auto
      then have "Z' \<noteq> []" using k by auto
      then show ?thesis using MakeImmutable_spec [of "\<lparr>sign = neg, digits = Z'\<rparr>"] Z' k 4 len
        by (simp add: BigInt_AsIntN_def checked_New bigint_val_def)
    qed
  qed
qed

definition AsUintN_fails :: "nat \<Rightarrow> BigIntBase \<Rightarrow> bool" where
  "AsUintN_fails n x \<longleftrightarrow> sign x \<and> n > kMaxLengthBits"

lemma BigInt_AsUintN_throws: "canonical x \<Longrightarrow> AsUintN_fails n x \<Longrightarrow> BigInt_AsUintN junk n x = Some (Inl kBigIntTooBig)"
  using negative_not_zero [of x] by (simp add: BigInt_AsUintN_def AsUintN_fails_def kMaxLengthBits_def)

lemma take_bit_wide: "canonical x \<Longrightarrow> kMaxLengthBits \<le> n \<Longrightarrow> \<not> sign x \<Longrightarrow> take_bit n (bigint_val x) = bigint_val x"
proof (rule take_bit_int_eq_self)
  assume c: "canonical x" and n: "kMaxLengthBits \<le> n" and s: "\<not> sign x"
  have "(2::nat) ^ kMaxLengthBits \<le> 2 ^ n" using n by (intro power_increasing) auto
  with canonical_dval_lt [OF c] have "dval (digits x) < 2 ^ n" by linarith
  then show "0 \<le> bigint_val x" "bigint_val x < 2 ^ n" using s by (simp_all add: bigint_val_signs flip: of_nat_less_iff)
qed

lemma BigInt_AsUintN_spec:
  assumes "canonical x" and "\<not> AsUintN_fails n x"
  shows "returns (BigInt_AsUintN junk n x) (take_bit n (bigint_val x))"
proof -
  consider "is_zero x" | "\<not> is_zero x" "n = 0" | "sign x" "0 < n" "n \<le> kMaxLengthBits"
    | "\<not> is_zero x" "\<not> sign x" "kMaxLengthBits \<le> n" "0 < n" | "\<not> is_zero x" "\<not> sign x" "n < kMaxLengthBits" "0 < n"
    using assms(2) by (fastforce simp: AsUintN_fails_def)
  then show ?thesis
  proof cases
    case 1
    then show ?thesis using assms canonical_zero [OF assms(1)] by (auto simp: BigInt_AsUintN_def intro!: returns_self)
  next
    case 2
    then show ?thesis using Zero_spec [of junk] by (auto simp: BigInt_AsUintN_def returns_def)
  next
    case 3
    let ?k = "AsUintN_Neg_ResultLength n"
    have "?k \<le> kMaxLength" using DIV_CEIL_le [OF 3(2,3)] by (simp add: AsUintN_Neg_ResultLength_def DIV_CEIL_def)
    with AsUintN_Neg_spec [OF 3(2), of "map junk [0..<?k]" "digits x"] 3 negative_not_zero [OF assms(1)] show ?thesis
      by (auto simp: BigInt_AsUintN_def checked_New bigint_val_signs intro!: returns_result)
  next
    case 4
    then show ?thesis using take_bit_wide [OF assms(1)] assms(1) by (auto simp: BigInt_AsUintN_def intro!: returns_self)
  next
    case 5
    let ?len = "AsUintN_Pos_ResultLength (digits x) n" and ?k = "DIV_CEIL n kDigitBits"
    note k = DIV_CEIL_le [OF 5(4) less_imp_le [OF 5(3)]]
    have "?len = Some (- 1) \<or> ?len = Some (int ?k)"
      using k by (auto simp: AsUintN_Pos_ResultLength_def Let_def rd_def)
    then show ?thesis
    proof
      assume "?len = Some (- 1)"
      then show ?thesis using AsUintN_Pos_noop [OF 5(4)] 5 assms(1)
        by (auto simp: BigInt_AsUintN_def bigint_val_signs intro!: returns_self)
    next
      assume len: "?len = Some (int ?k)"
      with AsUintN_Pos_spec [OF 5(4), of "digits x" "map junk [0..<?k]"] 5 k show ?thesis
        by (auto simp: BigInt_AsUintN_def checked_New bigint_val_signs intro!: returns_result)
    qed
  qed
qed

section \<open>Properties\<close>

text \<open>
  C3.  The bitwise operations of canonical BigInts compute the two's complement operations on the unbounded
  integers they represent.  Conjunction of two negative operands, and exclusive disjunction of operands of different
  signs, throw when an operand already has the maximal length; nothing else throws.
\<close>
theorem BigInt_bitwise_correct:
  assumes "canonical x" and "canonical y"
  shows "(case BitwiseAnd_fails x y of None \<Rightarrow> returns (BigInt_BitwiseAnd junk x y) (bigint_val x AND bigint_val y)
          | Some e \<Rightarrow> BigInt_BitwiseAnd junk x y = Some (Inl e)) \<and>
         (case BitwiseXor_fails x y of None \<Rightarrow> returns (BigInt_BitwiseXor junk x y) (bigint_val x XOR bigint_val y)
          | Some e \<Rightarrow> BigInt_BitwiseXor junk x y = Some (Inl e)) \<and>
         returns (BigInt_BitwiseOr junk x y) (bigint_val x OR bigint_val y)"
  using bigint_and.outcome [OF assms] bigint_xor.outcome [OF assms] bigint_or.outcome [OF assms] by auto

theorem BigInt_bitwise_correct_witness:
  "returns (BigInt_BitwiseAnd (\<lambda>_. 9) \<lparr>sign = True, digits = [2]\<rparr> \<lparr>sign = True, digits = [3]\<rparr>)
     (bigint_val \<lparr>sign = True, digits = [2]\<rparr> AND bigint_val \<lparr>sign = True, digits = [3]\<rparr>)"
  using BigInt_bitwise_correct [of "\<lparr>sign = True, digits = [2]\<rparr>" "\<lparr>sign = True, digits = [3]\<rparr>" "\<lambda>_. 9"]
  by (simp add: bigint_eval BitwiseAnd_fails_def)

text \<open>
  C6.  A left shift by \<open>n\<close> multiplies by the \<open>n\<close>-th power of two, and a shift in the other direction divides by
  it and rounds towards minus infinity, also when the amount has several digits or a negative sign; a result that
  would exceed the maximal length is reported.
\<close>
theorem BigInt_shift_correct:
  assumes "canonical x" and "canonical y"
  shows "(case LeftShift_fails x y of None \<Rightarrow> returns (BigInt_LeftShift junk x y) (shift_by (bigint_val x) (bigint_val y))
          | Some e \<Rightarrow> BigInt_LeftShift junk x y = Some (Inl e)) \<and>
         (case SignedRightShift_fails x y of None \<Rightarrow> returns (BigInt_SignedRightShift junk x y) (shift_by (bigint_val x) (- bigint_val y))
          | Some e \<Rightarrow> BigInt_SignedRightShift junk x y = Some (Inl e))"
  using bigint_left_shift.outcome [OF assms] bigint_right_shift.outcome [OF assms] by blast

theorem BigInt_shift_correct_witness:
  "returns (BigInt_LeftShift (\<lambda>_. 9) \<lparr>sign = True, digits = [5]\<rparr> \<lparr>sign = True, digits = [0, 1]\<rparr>)
     (shift_by (bigint_val \<lparr>sign = True, digits = [5]\<rparr>) (bigint_val \<lparr>sign = True, digits = [0, 1]\<rparr>))"
  using BigInt_shift_correct [of "\<lparr>sign = True, digits = [5]\<rparr>" "\<lparr>sign = True, digits = [0, 1]\<rparr>" "\<lambda>_. 9"]
  by (simp add: bigint_eval LeftShift_fails_def SignedRightShift_fails_def)

text \<open>
  C18.  \<open>AsIntN\<close> returns the signed and \<open>AsUintN\<close> the unsigned value of the low \<open>n\<close> bits of the two's complement
  representation; \<open>AsUintN\<close> throws for a negative operand and a width beyond the maximal number of bits.
\<close>
theorem BigInt_AsN_correct:
  assumes "canonical x"
  shows "(\<exists>z. BigInt_AsIntN junk n x = Some z \<and> canonical z \<and>
            bigint_val z = (if n = 0 then 0 else signed_take_bit (n - 1) (bigint_val x))) \<and>
         (if AsUintN_fails n x then BigInt_AsUintN junk n x = Some (Inl kBigIntTooBig)
          else returns (BigInt_AsUintN junk n x) (take_bit n (bigint_val x)))"
  using BigInt_AsIntN_spec [OF assms] BigInt_AsUintN_spec [OF assms] BigInt_AsUintN_throws [OF assms] by auto

theorem BigInt_AsN_correct_witness:
  "returns (BigInt_AsUintN (\<lambda>_. 9) 8 \<lparr>sign = True, digits = [5]\<rparr>) (take_bit 8 (bigint_val \<lparr>sign = True, digits = [5]\<rparr>))"
  using BigInt_AsN_correct [of "\<lparr>sign = True, digits = [5]\<rparr>" "\<lambda>_. 9" 8]
  by (simp add: bigint_eval AsUintN_fails_def)

end
