(* ===== verification/V8_BitField.thy ===== *)
theory V8_BitField
  imports V8_Prelude
begin

text \<open>
  \<open>base/bit-field.h\<close>: the template \<open>BitField<T, shift, size, U>\<close>.  The storage type \<open>U\<close> is the word type of the
  result; field values are passed after their \<open>static_cast<U>\<close>.  The last lemmas are the contract the users of
  bit fields rely on: a field reads back what was stored in it and ignores what is stored in the others.
\<close>

definition BitField_kMask :: "nat \<Rightarrow> nat \<Rightarrow> 'u::len word" where
  "BitField_kMask shift width = push_bit width (push_bit shift 1) - push_bit shift 1"

definition BitField_kMax :: "nat \<Rightarrow> 'u::len word" where
  "BitField_kMax width = push_bit width 1 - 1"

definition BitField_is_valid :: "nat \<Rightarrow> 'u::len word \<Rightarrow> bool" where
  "BitField_is_valid width v \<longleftrightarrow> v AND NOT (BitField_kMax width) = 0"

definition BitField_encode :: "nat \<Rightarrow> 'u::len word \<Rightarrow> 'u word" where
  "BitField_encode shift v = push_bit shift v"

definition BitField_update :: "nat \<Rightarrow> nat \<Rightarrow> 'u::len word \<Rightarrow> 'u word \<Rightarrow> 'u word" where
  "BitField_update shift width previous v = (previous AND NOT (BitField_kMask shift width)) OR BitField_encode shift v"

definition BitField_decode :: "nat \<Rightarrow> nat \<Rightarrow> 'u::len word \<Rightarrow> 'u word" where
  "BitField_decode shift width v = drop_bit shift (v AND BitField_kMask shift width)"

lemma BitField_kMax_mask: "BitField_kMax width = (mask width :: 'u::len word)"
  by (simp add: BitField_kMax_def mask_eq_decr_exp push_bit_eq_mult)

lemma BitField_kMask_mask: "BitField_kMask shift width = push_bit shift (mask width :: 'u::len word)"
  by (simp add: BitField_kMask_def mask_eq_decr_exp push_bit_eq_mult algebra_simps)

lemma BitField_decode_bits:
  "BitField_decode shift width v = take_bit width (drop_bit shift v)" for v :: "'u::len word"
  by (rule bit_word_eqI)
    (auto simp: BitField_decode_def BitField_kMask_mask bit_simps take_bit_eq_mask dest: bit_imp_le_length)

lemma BitField_is_valid_iff: "BitField_is_valid width v \<longleftrightarrow> take_bit width v = v" for v :: "'u::len word"
proof -
  have "v AND NOT (mask width) = 0 \<longleftrightarrow> v AND mask width = v"
    by (auto simp: bit_eq_iff bit_simps)
  then show ?thesis by (simp add: BitField_is_valid_def BitField_kMax_mask take_bit_eq_mask)
qed

lemma BitField_bit: "bit (BitField_update shift width previous v) n \<longleftrightarrow>
    (if shift \<le> n \<and> n < shift + width then n < LENGTH('u) \<and> bit v (n - shift) else bit previous n)"
  if "BitField_is_valid width v" for v previous :: "'u::len word"
proof -
  have v: "bit v m \<Longrightarrow> m < width" for m
    using that [unfolded BitField_is_valid_iff] by (metis bit_take_bit_iff)
  show ?thesis
    using v [of "n - shift"]
    by (auto simp: BitField_update_def BitField_encode_def BitField_kMask_mask bit_simps dest: bit_imp_le_length)
qed

lemma BitField_decode_update_same:
  assumes "BitField_is_valid width v" and "shift + width \<le> LENGTH('u)"
  shows "BitField_decode shift width (BitField_update shift width previous v) = (v :: 'u::len word)"
proof (rule bit_word_eqI)
  fix n assume "n < LENGTH('u)"
  have v: "bit v m \<Longrightarrow> m < width" for m
    using assms(1) [unfolded BitField_is_valid_iff] by (metis bit_take_bit_iff)
  then show "bit (BitField_decode shift width (BitField_update shift width previous v)) n \<longleftrightarrow> bit v n"
    using assms(2) by (auto simp: BitField_decode_bits bit_simps BitField_bit [OF assms(1)])
qed

lemma BitField_decode_update_other:
  assumes "BitField_is_valid width v" and "shift + width \<le> shift' \<or> shift' + width' \<le> shift"
  shows "BitField_decode shift' width' (BitField_update shift width previous v) = BitField_decode shift' width' (previous :: 'u::len word)"
proof (rule bit_word_eqI)
  fix n assume "n < LENGTH('u)"
  then show "bit (BitField_decode shift' width' (BitField_update shift width previous v)) n \<longleftrightarrow> bit (BitField_decode shift' width' previous) n"
    using assms(2) by (auto simp: BitField_decode_bits bit_simps BitField_bit [OF assms(1)])
qed

end
