(* ===== verification/BigInt_Convert.thy ===== *)
theory BigInt_Convert
  imports BigInt_Bits V8_BitField
begin

text \<open>
  Conversions of \<open>objects/bigint.cc\<close> between BigInts and machine integers, arrays of 64-bit words and the byte
  format of the structured clone serializer, for the 64-bit little-endian configuration of the build.
  The parameter \<open>junk\<close> is the content of freshly allocated memory.
\<close>

section \<open>Allocation and 64-bit integers\<close>

definition NewBigInt :: "memory \<Rightarrow> nat \<Rightarrow> digits option" where
  "NewBigInt junk len = (if len > kMaxLength then None else Some (map junk [0..<len]))"

definition initialize_bitfield :: "bool \<Rightarrow> digits \<Rightarrow> BigIntBase" where
  "initialize_bitfield negative ds = \<lparr>sign = negative, digits = ds\<rparr>"

definition set_64_bits :: "64 word \<Rightarrow> BigIntBase \<Rightarrow> BigIntBase option" where
  "set_64_bits bits result = set_digit 0 bits result"

definition FromInt64 :: "memory \<Rightarrow> 64 word \<Rightarrow> BigIntBase option" where
  "FromInt64 junk n =
     (if n = 0 then Zero junk
      else do {
        let len = 64 div kDigitBits;
        result \<leftarrow> NewBigInt junk len;
        let negative = (sint n < 0);
        let result = initialize_bitfield negative result;
        let absolute = (if \<not> negative then n
                        else if sint n = - (2 ^ 63) then word_of_int (2 ^ 63 - 1) + 1
                        else - n);
        result \<leftarrow> set_64_bits absolute result;
        Some (MakeImmutable result) })"

definition FromUint64 :: "memory \<Rightarrow> 64 word \<Rightarrow> BigIntBase option" where
  "FromUint64 junk n =
     (if n = 0 then Zero junk
      else do {
        let len = 64 div kDigitBits;
        result \<leftarrow> NewBigInt junk len;
        let result = initialize_bitfield False result;
        result \<leftarrow> set_64_bits n result;
        Some (MakeImmutable result) })"

definition GetRawBits :: "BigIntBase \<Rightarrow> (64 word \<times> bool) option" where
  "GetRawBits x =
     (let lossless = True
      in if is_zero x then Some (0, lossless)
         else (let lossless = (if length (digits x) > 64 div kDigitBits then False else lossless)
               in do {
                 raw \<leftarrow> digit x 0;
                 Some (if sign x then NOT raw + 1 else raw, lossless) }))"

definition AsInt64 :: "BigIntBase \<Rightarrow> (64 word \<times> bool) option" where
  "AsInt64 x = do {
     (raw, lossless) \<leftarrow> GetRawBits x;
     let result = raw;
     Some (result, if (sint result < 0) \<noteq> sign x then False else lossless) }"

definition AsUint64 :: "BigIntBase \<Rightarrow> (64 word \<times> bool) option" where
  "AsUint64 x = do {
     (result, lossless) \<leftarrow> GetRawBits x;
     Some (result, if sign x then False else lossless) }"

section \<open>Arrays of words\<close>

definition FromWords64 :: "memory \<Rightarrow> int \<Rightarrow> int \<Rightarrow> 64 word list \<Rightarrow> MaybeBigInt" where
  "FromWords64 junk sign_bit words64_count words =
     (if words64_count < 0 \<or> words64_count > int (kMaxLength div (64 div kDigitBits)) then Some (Inl kBigIntTooBig)
      else if words64_count = 0 then do { z \<leftarrow> Zero junk; Some (Inr z) }
      else (let len = (64 div kDigitBits) * nat words64_count
            in case New junk len of
                 Inl e \<Rightarrow> Some (Inl e)
               | Inr result \<Rightarrow> do {
                   let result = result\<lparr>sign := sign_bit \<noteq> 0\<rparr>;
                   result \<leftarrow> for_up 0 len (\<lambda>i result. do { w \<leftarrow> rd words i; set_digit i w result }) result;
                   Some (Inr (MakeImmutable result)) }))"

definition Words64Count :: "BigIntBase \<Rightarrow> int" where
  "Words64Count x = int (length (digits x) div (64 div kDigitBits))"

definition ToWordsArray64 :: "BigIntBase \<Rightarrow> int \<Rightarrow> 64 word list \<Rightarrow> (int \<times> int \<times> 64 word list) option" where
  "ToWordsArray64 x words64_count words =
     (let sign_bit = of_bool (sign x);
          available_words = words64_count;
          words64_count = Words64Count x
      in if available_words = 0 then Some (sign_bit, words64_count, words)
         else do {
           let len = length (digits x);
           words \<leftarrow> for_up 0 (min len (nat available_words)) (\<lambda>i words. do { d \<leftarrow> digit x i; wr words i d }) words;
           Some (sign_bit, words64_count, words) })"

section \<open>Serialization\<close>

definition SignBits_encode :: "bool \<Rightarrow> 32 word" where
  "SignBits_encode b = BitField_encode 0 (of_bool b)"

definition SignBits_decode :: "32 word \<Rightarrow> bool" where
  "SignBits_decode v \<longleftrightarrow> BitField_decode 0 1 v \<noteq> 0"

definition LengthBits_encode :: "nat \<Rightarrow> 32 word" where
  "LengthBits_encode len = BitField_encode 1 (of_nat len)"

definition LengthBits_decode :: "32 word \<Rightarrow> nat" where
  "LengthBits_decode v = unat (BitField_decode 1 30 v)"

abbreviation kDigitSize :: nat where "kDigitSize \<equiv> 8"

definition GetBitfieldForSerialization :: "BigIntBase \<Rightarrow> 32 word" where
  "GetBitfieldForSerialization x =
     (let bytelength = length (digits x) * kDigitSize
      in SignBits_encode (sign x) OR LengthBits_encode bytelength)"

definition DigitsByteLengthForBitfield :: "32 word \<Rightarrow> nat" where
  "DigitsByteLengthForBitfield bitfield = LengthBits_decode bitfield"

text \<open>The little-endian object representation of a digit, which \<open>memcpy\<close> copies.\<close>

definition digit_bytes :: "digit_t \<Rightarrow> 8 word list" where
  "digit_bytes d = map (\<lambda>i. ucast (drop_bit (8 * i) d)) [0..<kDigitSize]"

definition digit_of_bytes :: "8 word list \<Rightarrow> digit_t" where
  "digit_of_bytes bs = foldr (\<lambda>b d. ucast b OR push_bit 8 d) bs 0"

definition SerializeDigits :: "BigIntBase \<Rightarrow> 8 word list" where
  "SerializeDigits x = concat (map digit_bytes (digits x))"

primrec digits_of_memory :: "nat \<Rightarrow> 8 word list \<Rightarrow> digits" where
  "digits_of_memory 0 bs = []"
| "digits_of_memory (Suc n) bs = digit_of_bytes (take kDigitSize bs) # digits_of_memory n (drop kDigitSize bs)"

definition FromSerializedDigits :: "memory \<Rightarrow> 32 word \<Rightarrow> 8 word list \<Rightarrow> BigIntBase option option" where
  "FromSerializedDigits junk bitfield digits_storage =
     (let bytelength = LengthBits_decode bitfield;
          negative = SignBits_decode bitfield;
          len = (bytelength + kDigitSize - 1) div kDigitSize
      in if len = 0 \<and> negative then Some None
         else do {
           result \<leftarrow> NewBigInt junk len;
           if bytelength > length digits_storage then None
           else do {
             let bytes = take bytelength digits_storage @ replicate (len * kDigitSize - bytelength) 0;
             let result = initialize_bitfield negative (digits_of_memory len bytes);
             Some (Some (MakeImmutable result)) } })"

section \<open>Machine integers\<close>

lemma NewBigInt_1: "NewBigInt junk (Suc 0) = Some [junk 0]"
  using kMaxLength_bounds(1) by (simp add: NewBigInt_def)

lemma make_single:
  "canonical (MakeImmutable \<lparr>sign = s, digits = [d]\<rparr>)"
  "bigint_val (MakeImmutable \<lparr>sign = s, digits = [d]\<rparr>) = (if s then - uint d else uint d)"
  using MakeImmutable_spec [of "\<lparr>sign = s, digits = [d]\<rparr>"] kMaxLength_bounds(1)
  by (simp_all add: bigint_val_def sval_def)

lemmas conversion_simps = NewBigInt_1 initialize_bitfield_def set_64_bits_def set_digit_def wr_def make_single

lemma FromUint64_spec: "\<exists>z. FromUint64 junk n = Some z \<and> canonical z \<and> bigint_val z = uint n"
  using Zero_spec [of junk] by (simp add: FromUint64_def conversion_simps)

lemma sint_word_of_int_small:
  assumes "- (2 ^ (LENGTH('a) - 1)) \<le> v" and "v < 2 ^ (LENGTH('a) - 1)"
  shows "sint (word_of_int v :: 'a::len word) = v"
  using assms by (simp add: signed_of_int signed_take_bit_int_eq_self)

lemma sint_64: "sint n = (if uint n < 2 ^ 63 then uint n else uint n - 2 ^ 64)" for n :: "64 word"
proof -
  have b: "0 \<le> uint n" "uint n < 2 ^ 64" using uint_lt2p [of n] by simp_all
  then have b': "- (2 ^ 63) \<le> uint n" by (intro order_trans [OF _ b(1)]) simp
  let ?v = "if uint n < 2 ^ 63 then uint n else uint n - 2 ^ 64"
  have "word_of_int ?v = n" by (simp del: of_int_diff add: word_of_int_eq_iff) (simp add: take_bit_eq_mod)
  moreover have "sint (word_of_int ?v :: 64 word) = ?v"
    by (rule sint_word_of_int_small) (use b b' in auto)
  ultimately show ?thesis by metis
qed

lemma uint_minus_64: "uint (- n) = (if n = 0 then 0 else 2 ^ 64 - uint n)" for n :: "64 word"
proof (cases "n = 0")
  case False
  have "uint n \<noteq> 0" using False by (metis uint_0_eq uint_word_of_int_eq word_of_int_uint)
  then have "0 < uint n" "uint n < 2 ^ 64" using uint_lt2p [of n] uint_ge_0 [of n] by (simp_all del: uint_ge_0 add: less_le)
  then have "(- uint n) mod 2 ^ 64 = 2 ^ 64 - uint n" by (simp add: zmod_zminus1_eq_if)
  with False show ?thesis by (simp add: uint_word_ariths)
qed simp

lemma FromInt64_spec: "\<exists>z. FromInt64 junk n = Some z \<and> canonical z \<and> bigint_val z = sint n"
proof -
  have u: "0 \<le> uint n" "uint n < 2 ^ 64" using uint_lt2p [of n] by simp_all
  define a where "a = (if \<not> sint n < 0 then n else if sint n = - (2 ^ 63) then word_of_int (2 ^ 63 - 1) + 1 else - n)"
  have a: "(if sint n < 0 then - uint a else uint a) = sint n"
  proof (cases "sint n = - (2 ^ 63)")
    case True
    then show ?thesis by (simp add: a_def)
  next
    case False
    with u show ?thesis by (auto simp: a_def sint_64 [of n] uint_minus_64)
  qed
  show ?thesis
  proof (cases "n = 0")
    case True
    then show ?thesis using Zero_spec [of junk] by (simp add: FromInt64_def)
  next
    case False
    then have "FromInt64 junk n = Some (MakeImmutable \<lparr>sign = sint n < 0, digits = [a]\<rparr>)"
      by (simp add: FromInt64_def NewBigInt_1 initialize_bitfield_def set_64_bits_def set_digit_def wr_def Let_def a_def)
    then show ?thesis using make_single [of "sint n < 0" a] a by simp
  qed
qed

lemma GetRawBits_spec:
  assumes "canonical x"
  shows "GetRawBits x = Some (word_of_int (bigint_val x), length (digits x) \<le> 1)"
proof (cases "digits x")
  case Nil
  then show ?thesis by (simp add: GetRawBits_def is_zero_def bigint_val_def sval_def)
next
  case (Cons d ds)
  have z: "(18446744073709551616 :: 64 word) = 0" by simp
  have "(word_of_int (int (unat d + digit_base * dval ds)) :: 64 word) = d"
    by (simp add: digit_base_def) (simp only: z mult_zero_left)
  moreover have "NOT d + 1 = - d" by (simp add: minus_eq_not_plus_1)
  ultimately show ?thesis using Cons
    by (auto simp: GetRawBits_def is_zero_def bigint_val_def sval_def digit_def rd_def simp del: of_int_of_nat_eq)
qed

lemma small_iff: "canonical x \<Longrightarrow> length (digits x) \<le> 1 \<longleftrightarrow> \<bar>bigint_val x\<bar> < 2 ^ 64"
proof -
  assume c: "canonical x"
  have b: "\<bar>bigint_val x\<bar> = int (dval (digits x))" by (simp add: bigint_val_def sval_def)
  have "dval (digits x) < digit_base \<longleftrightarrow> length (digits x) \<le> 1"
  proof
    assume "dval (digits x) < digit_base"
    then show "length (digits x) \<le> 1"
      using single_digit_of_small [OF c, of "length (digits x) \<le> 1"] by (cases "is_zero x") (auto simp: is_zero_def)
  next
    assume "length (digits x) \<le> 1"
    then have "digit_base ^ length (digits x) \<le> digit_base ^ 1" by (intro power_increasing) (simp_all add: Suc_leI)
    then show "dval (digits x) < digit_base" using dval_lt [of "digits x"] by simp
  qed
  moreover have "int (dval (digits x)) < 2 ^ 64 \<longleftrightarrow> dval (digits x) < digit_base"
    by (simp add: digit_base_def flip: of_nat_less_iff)
  ultimately show ?thesis by (simp add: b)
qed

lemma AsUint64_spec:
  assumes "canonical x"
  shows "AsUint64 x = Some (word_of_int (bigint_val x), 0 \<le> bigint_val x \<and> bigint_val x < 2 ^ 64)"
  using canonical_sign [OF assms] small_iff [OF assms] by (auto simp: AsUint64_def GetRawBits_spec [OF assms])

lemma AsInt64_spec:
  assumes "canonical x"
  shows "AsInt64 x = Some (word_of_int (bigint_val x), - (2 ^ 63) \<le> bigint_val x \<and> bigint_val x < 2 ^ 63)"
proof -
  let ?v = "bigint_val x" and ?w = "word_of_int (bigint_val x) :: 64 word"
  have "uint ?w = ?v mod 2 ^ 64" by (simp add: uint_word_of_int)
  moreover have "?v mod 2 ^ 64 = (if ?v < 0 then ?v + 2 ^ 64 else ?v)" if "\<bar>?v\<bar> < 2 ^ 64"
    using that mod_pos_pos_trivial [of "?v + 2 ^ 64" "2 ^ 64"] by (auto simp: abs_less_iff)
  ultimately have u: "uint ?w = (if ?v < 0 then ?v + 2 ^ 64 else ?v)" if "\<bar>?v\<bar> < 2 ^ 64" using that by simp
  have "(\<bar>?v\<bar> < 2 ^ 64 \<and> (sint ?w < 0 \<longleftrightarrow> ?v < 0)) \<longleftrightarrow> (- (2 ^ 63) \<le> ?v \<and> ?v < 2 ^ 63)"
  proof (cases "\<bar>?v\<bar> < 2 ^ 64")
    case True
    then show ?thesis by (simp add: sint_64 u) (auto simp: abs_less_iff)
  qed auto
  then show ?thesis using canonical_sign [OF assms] small_iff [OF assms] by (auto simp: AsInt64_def GetRawBits_spec [OF assms])
qed

section \<open>Arrays of words\<close>

lemma set_digit_loop:
  assumes "n \<le> length words" and "n \<le> length (digits r)"
  shows "for_up 0 n (\<lambda>i result. do { w \<leftarrow> rd words i; set_digit i w result }) r =
    Some (r\<lparr>digits := fill (\<lambda>k. words ! k) n (digits r)\<rparr>)"
proof -
  have "ok (for_up 0 n (\<lambda>i result. do { w \<leftarrow> rd words i; set_digit i w result }) r)
          (\<lambda>s. s = r\<lparr>digits := fill (\<lambda>k. words ! k) n (digits r)\<rparr>)"
  proof (rule ok_for_up [where I = "\<lambda>k s. s = r\<lparr>digits := fill (\<lambda>k. words ! k) k (digits r)\<rparr>"])
    fix k s assume k: "0 \<le> k" "k < n" and s: "s = r\<lparr>digits := fill (\<lambda>k. words ! k) k (digits r)\<rparr>"
    have "k < length (digits r)" using k assms(2) by simp
    then show "ok (do { w \<leftarrow> rd words k; set_digit k w s }) (\<lambda>s. s = r\<lparr>digits := fill (\<lambda>k. words ! k) (Suc k) (digits r)\<rparr>)"
      using k assms fill_update [of k "digits r" "\<lambda>k. words ! k"] by (simp add: s set_digit_def)
  qed simp_all
  then show ?thesis by (simp add: ok_def)
qed

lemma FromWords64_spec:
  assumes "int (length words) = words64_count" and "length words \<le> kMaxLength"
  shows "returns (FromWords64 junk sign_bit words64_count words) (sval (sign_bit \<noteq> 0) words)"
proof (cases "words = []")
  case True
  then show ?thesis using Zero_spec [of junk] assms(1) by (auto simp: FromWords64_def returns_def sval_def)
next
  case False
  let ?n = "length words"
  have "fill (\<lambda>k. words ! k) ?n (map junk [0..<?n]) = words"
    by (rule nth_equalityI) (simp_all add: fill_def)
  then have "FromWords64 junk sign_bit words64_count words = Some (Inr (MakeImmutable \<lparr>sign = sign_bit \<noteq> 0, digits = words\<rparr>))"
    using assms False set_digit_loop [of ?n words "\<lparr>sign = sign_bit \<noteq> 0, digits = map junk [0..<?n]\<rparr>"]
    by (simp add: FromWords64_def New_ok Let_def flip: assms(1))
  then show ?thesis using assms False by (simp only:) (rule returns_MakeImmutable, simp_all add: bigint_val_def)
qed

lemma FromWords64_fails: "words64_count < 0 \<or> words64_count > int kMaxLength \<Longrightarrow>
    FromWords64 junk sign_bit words64_count words = Some (Inl kBigIntTooBig)"
  by (auto simp: FromWords64_def)

lemma ToWordsArray64_spec:
  assumes "avail \<noteq> 0" and "min (length (digits x)) (nat avail) \<le> length words"
  shows "ToWordsArray64 x avail words =
    Some (of_bool (sign x), int (length (digits x)),
      take (nat avail) (digits x) @ drop (min (length (digits x)) (nat avail)) words)"
proof -
  let ?n = "min (length (digits x)) (nat avail)" and ?G = "\<lambda>k. digits x ! k"
  have k: "k \<le> length words" "k < length words" if "k < length (digits x) \<and> k < nat avail" for k using that assms(2) by (auto simp: min_le_iff_disj)
  have "for_up 0 ?n (\<lambda>i words. do { d \<leftarrow> digit x i; wr words i d }) (fill ?G 0 words) = Some (fill ?G ?n words)"
    using assms(2) by (intro for_up_fill) (simp_all add: digit_def rd_def wr_def k)
  moreover have "map ?G [0..<?n] = take (nat avail) (digits x)"
    by (rule nth_equalityI) simp_all
  ultimately show ?thesis using assms(1) by (simp add: ToWordsArray64_def Words64Count_def fill_def)
qed

section \<open>Serialized digits\<close>

lemma digit_bytes_length [simp]: "length (digit_bytes d) = 8"
  by (simp add: digit_bytes_def)

lemma bit_digit_of_bytes:
  "length bs \<le> 8 \<Longrightarrow> bit (digit_of_bytes bs) n \<longleftrightarrow> n div 8 < length bs \<and> bit (bs ! (n div 8)) (n mod 8)"
proof (induction bs arbitrary: n)
  case (Cons b bs)
  have "bit (digit_of_bytes (b # bs)) n \<longleftrightarrow> (n < 8 \<and> bit b n) \<or> (8 \<le> n \<and> n < 64 \<and> bit (digit_of_bytes bs) (n - 8))"
    by (auto simp: digit_of_bytes_def bit_simps dest: bit_imp_le_length)
  moreover have "n div 8 = Suc ((n - 8) div 8)" "n mod 8 = (n - 8) mod 8" if "8 \<le> n"
    using that by (simp_all add: le_div_geq le_mod_geq)
  moreover have "n < 64" if "Suc ((n - 8) div 8) < Suc (length bs)" "8 \<le> n" using that Cons.prems by auto
  ultimately show ?case using Cons by (cases "n < 8") (auto simp: dest: bit_imp_le_length)
qed (simp add: digit_of_bytes_def)

lemma digit_of_bytes_inverse [simp]: "digit_of_bytes (digit_bytes d) = d"
proof (rule bit_word_eqI)
  fix n assume "n < LENGTH(64)"
  then have n: "n div 8 < 8" "8 * (n div 8) + n mod 8 = n" by simp_all
  then show "bit (digit_of_bytes (digit_bytes d)) n \<longleftrightarrow> bit d n"
    by (simp add: bit_digit_of_bytes digit_bytes_def bit_simps)
qed

lemma length_SerializeDigits: "length (SerializeDigits x) = length (digits x) * kDigitSize"
  by (simp add: SerializeDigits_def length_concat comp_def sum_list_triv)

lemma digits_of_memory_serialized: "digits_of_memory (length ds) (concat (map digit_bytes ds)) = ds"
  by (induction ds) simp_all

lemma bitfield_roundtrip:
  assumes "canonical x"
  shows "SignBits_decode (GetBitfieldForSerialization x) = sign x"
    and "DigitsByteLengthForBitfield (GetBitfieldForSerialization x) = length (digits x) * kDigitSize"
proof -
  define n where "n = length (digits x) * kDigitSize"
  have n: "n < 2 ^ 30" using assms by (simp add: canonical_def n_def kMaxLength_def kMaxLengthBits_def)
  define f where "f = SignBits_encode (sign x) OR LengthBits_encode n"
  have fx: "GetBitfieldForSerialization x = f" by (simp add: GetBitfieldForSerialization_def n_def f_def)
  have b: "bit f k \<longleftrightarrow> (k = 0 \<and> sign x) \<or> (1 \<le> k \<and> k < 32 \<and> bit (of_nat n :: 32 word) (k - 1))" for k
    unfolding f_def SignBits_encode_def LengthBits_encode_def BitField_encode_def bit_or_iff bit_push_bit_iff
    by (auto simp: bit_simps possible_bit_word)
  have "BitField_decode 0 1 f = (of_bool (sign x) :: 32 word)"
    using b [of 0] by (intro bit_word_eqI) (auto simp: BitField_decode_bits bit_take_bit_iff bit_simps bit_0 even_or_iff)
  then show "SignBits_decode (GetBitfieldForSerialization x) = sign x" by (simp add: fx SignBits_decode_def)
  have "BitField_decode 1 30 f = (take_bit 30 (of_nat n) :: 32 word)"
    by (rule bit_word_eqI) (auto simp: BitField_decode_bits bit_take_bit_iff bit_drop_bit_eq b)
  also have "unat (take_bit 30 (of_nat n) :: 32 word) = n"
    using n by (simp add: unsigned_take_bit_eq unat_of_nat take_bit_nat_eq_self)
  finally show "DigitsByteLengthForBitfield (GetBitfieldForSerialization x) = length (digits x) * kDigitSize"
    by (simp add: fx DigitsByteLengthForBitfield_def LengthBits_decode_def n_def)
qed

lemma FromSerializedDigits_spec:
  assumes "canonical x"
  shows "FromSerializedDigits junk (GetBitfieldForSerialization x) (SerializeDigits x) = Some (Some x)"
proof -
  note r = bitfield_roundtrip [OF assms, unfolded DigitsByteLengthForBitfield_def]
  have "MakeImmutable x = x"
    using canonical_inj [OF _ assms, of "MakeImmutable x"] MakeImmutable_spec [of x] assms by (simp add: canonical_def)
  then have "MakeImmutable \<lparr>sign = sign x, digits = digits x\<rparr> = x" by (cases x) simp
  moreover have "\<not> (length (digits x) = 0 \<and> sign x)" using assms by (auto simp: canonical_def)
  ultimately show ?thesis using canonical_len [OF assms]
    by (simp add: FromSerializedDigits_def r length_SerializeDigits NewBigInt_def initialize_bitfield_def Let_def)
      (simp add: SerializeDigits_def digits_of_memory_serialized)
qed

section \<open>Properties\<close>

text \<open>
  C21.  A BigInt made from a signed or unsigned 64-bit integer is canonical, has its value, and converts back to
  it without loss.
\<close>
theorem BigInt_int64_roundtrip:
  "(\<exists>z. FromInt64 junk n = Some z \<and> canonical z \<and> bigint_val z = sint n \<and> AsInt64 z = Some (n, True)) \<and>
   (\<exists>z. FromUint64 junk n = Some z \<and> canonical z \<and> bigint_val z = uint n \<and> AsUint64 z = Some (n, True))"
proof -
  from FromInt64_spec obtain z where z: "FromInt64 junk n = Some z" "canonical z" "bigint_val z = sint n" by blast
  moreover have "- (2 ^ 63) \<le> sint n" "sint n < 2 ^ 63" using sint_ge [of n] sint_lt [of n] by simp_all
  ultimately have "AsInt64 z = Some (n, True)" by (simp add: AsInt64_spec)
  moreover from FromUint64_spec obtain u where u: "FromUint64 junk n = Some u" "canonical u" "bigint_val u = uint n" by blast
  moreover have "uint n < 2 ^ 64" using uint_lt2p [of n] by simp
  ultimately show ?thesis using z by (simp add: AsUint64_spec)
qed

text \<open>
  C22.  The conversions to 64-bit integers return the value modulo two to the 64, and the lossless flag tells
  exactly whether the value was representable.
\<close>
theorem BigInt_as64_lossless:
  assumes "canonical x"
  shows "AsInt64 x = Some (word_of_int (bigint_val x), - (2 ^ 63) \<le> bigint_val x \<and> bigint_val x < 2 ^ 63) \<and>
    AsUint64 x = Some (word_of_int (bigint_val x), 0 \<le> bigint_val x \<and> bigint_val x < 2 ^ 64)"
  using AsInt64_spec [OF assms] AsUint64_spec [OF assms] by simp_all

theorem BigInt_as64_lossless_witness:
  "AsInt64 \<lparr>sign = True, digits = [5]\<rparr> = Some (- 5, True)"
  using BigInt_as64_lossless [of "\<lparr>sign = True, digits = [5]\<rparr>"] by (simp add: bigint_eval bigint_val_def sval_def)

text \<open>
  C23.  The word array a BigInt writes has the announced number of words and sign bit, leaves the rest of the
  buffer alone, and rebuilds the same BigInt.
\<close>
theorem BigInt_words_roundtrip:
  assumes "canonical x" and "0 < Words64Count x" and "Words64Count x \<le> int (length buf)"
  shows "\<exists>s words. ToWordsArray64 x (Words64Count x) buf = Some (s, Words64Count x, words) \<and>
     drop (nat (Words64Count x)) words = drop (nat (Words64Count x)) buf \<and>
     FromWords64 junk s (Words64Count x) (take (nat (Words64Count x)) words) = Some (Inr x)"
proof -
  let ?n = "length (digits x)"
  have n: "Words64Count x = int ?n" by (simp add: Words64Count_def)
  have "returns (FromWords64 junk (of_bool (sign x)) (int ?n) (digits x)) (bigint_val x)"
    using FromWords64_spec [of "digits x" "int ?n" junk "of_bool (sign x)"] canonical_len [OF assms(1)]
    by (cases "sign x") (simp_all add: bigint_val_def)
  with returns_self [OF assms(1) refl] have "FromWords64 junk (of_bool (sign x)) (int ?n) (digits x) = Some (Inr x)"
    by (metis returns_unique)
  moreover have "ToWordsArray64 x (int ?n) buf = Some (of_bool (sign x), int ?n, digits x @ drop ?n buf)"
    using ToWordsArray64_spec [of "int ?n" x buf] assms(2,3) by (simp add: n)
  ultimately show ?thesis by (simp add: n)
qed

theorem BigInt_words_roundtrip_witness:
  "\<exists>s words. ToWordsArray64 \<lparr>sign = True, digits = [5]\<rparr> (Words64Count \<lparr>sign = True, digits = [5]\<rparr>) [1, 2] = Some (s, Words64Count \<lparr>sign = True, digits = [5]\<rparr>, words) \<and>
     drop (nat (Words64Count \<lparr>sign = True, digits = [5]\<rparr>)) words = drop (nat (Words64Count \<lparr>sign = True, digits = [5]\<rparr>)) [1, 2] \<and>
     FromWords64 (\<lambda>_. 9) s (Words64Count \<lparr>sign = True, digits = [5]\<rparr>) (take (nat (Words64Count \<lparr>sign = True, digits = [5]\<rparr>)) words) = Some (Inr \<lparr>sign = True, digits = [5]\<rparr>)"
  by (rule BigInt_words_roundtrip) (simp_all add: bigint_eval Words64Count_def)

text \<open>
  C24.  The bit field and the bytes a canonical BigInt is serialized to are read back as the same BigInt, the
  announced byte length is the number of bytes written, and the reader rejects the encoding of minus zero.
\<close>
theorem BigInt_serialization_roundtrip:
  assumes "canonical x"
  shows "FromSerializedDigits junk (GetBitfieldForSerialization x) (SerializeDigits x) = Some (Some x) \<and>
    length (SerializeDigits x) = DigitsByteLengthForBitfield (GetBitfieldForSerialization x) \<and>
    FromSerializedDigits junk (SignBits_encode True OR LengthBits_encode 0) bytes = Some None"
proof (intro conjI)
  show "FromSerializedDigits junk (GetBitfieldForSerialization x) (SerializeDigits x) = Some (Some x)"
    by (rule FromSerializedDigits_spec [OF assms])
  show "length (SerializeDigits x) = DigitsByteLengthForBitfield (GetBitfieldForSerialization x)"
    using bitfield_roundtrip(2) [OF assms] by (simp add: length_SerializeDigits)
  have "SignBits_encode True OR LengthBits_encode 0 = (1 :: 32 word)"
    by (simp add: SignBits_encode_def LengthBits_encode_def BitField_encode_def)
  then show "FromSerializedDigits junk (SignBits_encode True OR LengthBits_encode 0) bytes = Some None"
    by (simp add: FromSerializedDigits_def SignBits_decode_def LengthBits_decode_def BitField_decode_bits)
qed

theorem BigInt_serialization_roundtrip_witness:
  "FromSerializedDigits (\<lambda>_. 9) (GetBitfieldForSerialization \<lparr>sign = True, digits = [5]\<rparr>) (SerializeDigits \<lparr>sign = True, digits = [5]\<rparr>)
     = Some (Some \<lparr>sign = True, digits = [5]\<rparr>)"
  using BigInt_serialization_roundtrip [of "\<lparr>sign = True, digits = [5]\<rparr>" "\<lambda>_. 9" "[]"] by (simp add: bigint_eval)

end
