(* ===== verification/Value_Serializer.thy ===== *)
theory Value_Serializer
  imports BigInt_Convert
begin

text \<open>
  The wire layer of the structured clone serializer, \<open>objects/value-serializer.cc\<close>: the growing output buffer,
  tags, variable-length and zigzag integers, doubles, strings and BigInts, and the readers of the same formats.

  The embedder's \<open>ReallocateBufferMemory\<close> is the parameter \<open>realloc\<close>: asked for a capacity it provides one or
  fails.  Sizes are natural numbers.  A double is its 64-bit pattern.  The outer option of a writer and of the
  fast path of a reader is \<open>None\<close> when the code would access memory outside of its buffers.
\<close>

type_synonym byte = "8 word"

record ValueSerializer =
  buffer :: "byte list"
  buffer_capacity :: nat
  out_of_memory :: bool

record Delegate =
  realloc :: "nat \<Rightarrow> nat option"
  uninitialized :: "nat \<Rightarrow> byte"

definition kLatestVersion :: "32 word" where
  "kLatestVersion = 15"

definition kVersion :: byte where "kVersion = 0xFF"
definition kPadding :: byte where "kPadding = 0"
definition kUndefined_tag :: byte where "kUndefined_tag = 0x5F"
definition kNull :: byte where "kNull = 0x30"
definition kTrue :: byte where "kTrue = 0x54"
definition kFalse :: byte where "kFalse = 0x46"
definition kInt32 :: byte where "kInt32 = 0x49"
definition kDouble :: byte where "kDouble = 0x4E"
definition kBigInt :: byte where "kBigInt = 0x5A"
definition kUtf8String :: byte where "kUtf8String = 0x53"
definition kOneByteString :: byte where "kOneByteString = 0x22"
definition kTwoByteString :: byte where "kTwoByteString = 0x63"

section \<open>The output buffer\<close>

definition ExpandBuffer :: "Delegate \<Rightarrow> nat \<Rightarrow> ValueSerializer \<Rightarrow> bool \<times> ValueSerializer" where
  "ExpandBuffer d required_capacity s =
     (let requested_capacity = max required_capacity (buffer_capacity s * 2) + 64
      in case realloc d requested_capacity of
           Some provided_capacity \<Rightarrow> (True, s\<lparr>buffer_capacity := provided_capacity\<rparr>)
         | None \<Rightarrow> (False, s\<lparr>out_of_memory := True\<rparr>))"

definition ReserveRawBytes :: "Delegate \<Rightarrow> nat \<Rightarrow> ValueSerializer \<Rightarrow> nat option \<times> ValueSerializer" where
  "ReserveRawBytes d bytes s =
     (let old_size = length (buffer s);
          new_size = old_size + bytes;
          (ok, s) = (if new_size > buffer_capacity s then ExpandBuffer d new_size s else (True, s))
      in if ok then (Some old_size, s\<lparr>buffer := buffer s @ map (uninitialized d) [old_size..<new_size]\<rparr>)
         else (None, s))"

definition memcpy :: "nat \<Rightarrow> byte list \<Rightarrow> ValueSerializer \<Rightarrow> ValueSerializer option" where
  "memcpy dest source s =
     (if dest + length source \<le> buffer_capacity s \<and> dest + length source \<le> length (buffer s)
      then Some (s\<lparr>buffer := take dest (buffer s) @ source @ drop (dest + length source) (buffer s)\<rparr>)
      else None)"

definition WriteRawBytes :: "Delegate \<Rightarrow> byte list \<Rightarrow> ValueSerializer \<Rightarrow> ValueSerializer option" where
  "WriteRawBytes d source s =
     (case ReserveRawBytes d (length source) s of
        (Some dest, s) \<Rightarrow> if length source > 0 then memcpy dest source s else Some s
      | (None, s) \<Rightarrow> Some s)"

definition WriteByte :: "Delegate \<Rightarrow> byte \<Rightarrow> ValueSerializer \<Rightarrow> ValueSerializer option" where
  "WriteByte d v s =
     (case ReserveRawBytes d 1 s of (Some dest, s) \<Rightarrow> memcpy dest [v] s | (None, s) \<Rightarrow> Some s)"

definition WriteTag :: "Delegate \<Rightarrow> byte \<Rightarrow> ValueSerializer \<Rightarrow> ValueSerializer option" where
  "WriteTag d tag = WriteRawBytes d [tag]"

section \<open>Writers\<close>

function WriteVarint_loop :: "nat \<Rightarrow> 'a::len word \<Rightarrow> byte list \<Rightarrow> byte list option" where
  "WriteVarint_loop cap value stack_buffer =
     (if length stack_buffer < cap then
        (let stack_buffer = stack_buffer @ [ucast (value AND 0x7F) OR 0x80];
             value = drop_bit 7 value
         in if value \<noteq> 0 then WriteVarint_loop cap value stack_buffer else Some stack_buffer)
      else None)"
  by pat_completeness auto
termination
  by (relation "measure (\<lambda>(cap, value, stack_buffer). cap - length stack_buffer)") auto

declare WriteVarint_loop.simps [simp del]

definition WriteVarint :: "Delegate \<Rightarrow> 'a::len word \<Rightarrow> ValueSerializer \<Rightarrow> ValueSerializer option" where
  "WriteVarint d value s = do {
     stack_buffer \<leftarrow> WriteVarint_loop (LENGTH('a) div 7 + 1) value [];
     let n = length stack_buffer;
     b \<leftarrow> rd stack_buffer (n - 1);
     stack_buffer \<leftarrow> wr stack_buffer (n - 1) (b AND 0x7F);
     WriteRawBytes d stack_buffer s }"

function BytesNeededForVarint_loop :: "'a::len word \<Rightarrow> nat \<Rightarrow> nat" where
  "BytesNeededForVarint_loop value result =
     (let result = result + 1; value = drop_bit 7 value
      in if value \<noteq> 0 then BytesNeededForVarint_loop value result else result)"
  by pat_completeness auto
termination
proof (relation "measure (\<lambda>(value, result). unat value)")
  fix v w :: "'a word" and n m
  assume w: "w = drop_bit 7 v" "w \<noteq> 0"
  have "take_bit LENGTH('a) (unat v) = unat v" by (rule take_bit_nat_eq_self) simp
  then have "unat w = drop_bit 7 (unat v)" by (simp add: w(1) unsigned_drop_bit_eq)
  moreover have "unat w \<noteq> 0" using w(2) by (simp only: unat_eq_0 not_False_eq_True)
  ultimately show "((w, m), v, n) \<in> measure (\<lambda>(value, result). unat value)" by (auto simp: drop_bit_eq_div)
qed simp

declare BytesNeededForVarint_loop.simps [simp del]

definition BytesNeededForVarint :: "'a::len word \<Rightarrow> nat" where
  "BytesNeededForVarint value = BytesNeededForVarint_loop value 0"

definition WriteUint32 :: "Delegate \<Rightarrow> 32 word \<Rightarrow> ValueSerializer \<Rightarrow> ValueSerializer option" where
  "WriteUint32 d value = WriteVarint d value"

definition WriteUint64 :: "Delegate \<Rightarrow> 64 word \<Rightarrow> ValueSerializer \<Rightarrow> ValueSerializer option" where
  "WriteUint64 d value = WriteVarint d value"

definition WriteZigZag :: "Delegate \<Rightarrow> 32 word \<Rightarrow> ValueSerializer \<Rightarrow> ValueSerializer option" where
  "WriteZigZag d value = WriteVarint d (push_bit 1 value XOR signed_drop_bit (8 * 4 - 1) value)"

definition WriteDouble :: "Delegate \<Rightarrow> 64 word \<Rightarrow> ValueSerializer \<Rightarrow> ValueSerializer option" where
  "WriteDouble d value = WriteRawBytes d (digit_bytes value)"

definition WriteHeader :: "Delegate \<Rightarrow> ValueSerializer \<Rightarrow> ValueSerializer option" where
  "WriteHeader d s = do { s \<leftarrow> WriteTag d kVersion s; WriteVarint d kLatestVersion s }"

definition WriteOneByteString :: "Delegate \<Rightarrow> byte list \<Rightarrow> ValueSerializer \<Rightarrow> ValueSerializer option" where
  "WriteOneByteString d chars s = do {
     s \<leftarrow> WriteVarint d (of_nat (length chars) :: 32 word) s;
     WriteRawBytes d chars s }"

definition uc16_bytes :: "16 word list \<Rightarrow> byte list" where
  "uc16_bytes chars = concat (map (\<lambda>c. [ucast c, ucast (drop_bit 8 c)]) chars)"

definition WriteTwoByteString :: "Delegate \<Rightarrow> 16 word list \<Rightarrow> ValueSerializer \<Rightarrow> ValueSerializer option" where
  "WriteTwoByteString d chars s = do {
     s \<leftarrow> WriteVarint d (of_nat (length chars * 2) :: 32 word) s;
     WriteRawBytes d (uc16_bytes chars) s }"

definition WriteBigIntContents :: "Delegate \<Rightarrow> BigIntBase \<Rightarrow> ValueSerializer \<Rightarrow> ValueSerializer option" where
  "WriteBigIntContents d bigint s =
     (let bitfield = GetBitfieldForSerialization bigint;
          bytelength = DigitsByteLengthForBitfield bitfield
      in do {
        s \<leftarrow> WriteVarint d bitfield s;
        case ReserveRawBytes d bytelength s of
          (Some dest, s) \<Rightarrow> memcpy dest (SerializeDigits bigint) s
        | (None, s) \<Rightarrow> Some s })"

definition WriteBigInt :: "Delegate \<Rightarrow> BigIntBase \<Rightarrow> ValueSerializer \<Rightarrow> ValueSerializer option" where
  "WriteBigInt d bigint s = do { s \<leftarrow> WriteTag d kBigInt s; WriteBigIntContents d bigint s }"

datatype OddballKind = OddballUndefined | OddballFalse | OddballTrue | OddballNull

definition WriteOddball :: "Delegate \<Rightarrow> OddballKind \<Rightarrow> ValueSerializer \<Rightarrow> ValueSerializer option" where
  "WriteOddball d kind =
     WriteTag d (case kind of OddballUndefined \<Rightarrow> kUndefined_tag | OddballFalse \<Rightarrow> kFalse
                 | OddballTrue \<Rightarrow> kTrue | OddballNull \<Rightarrow> kNull)"

definition WriteSmi :: "Delegate \<Rightarrow> 32 word \<Rightarrow> ValueSerializer \<Rightarrow> ValueSerializer option" where
  "WriteSmi d smi s = do { s \<leftarrow> WriteTag d kInt32 s; WriteZigZag d smi s }"

definition WriteHeapNumber :: "Delegate \<Rightarrow> 64 word \<Rightarrow> ValueSerializer \<Rightarrow> ValueSerializer option" where
  "WriteHeapNumber d number s = do { s \<leftarrow> WriteTag d kDouble s; WriteDouble d number s }"

datatype FlatContent = OneByte "byte list" | TwoByte "16 word list"

definition WriteString :: "Delegate \<Rightarrow> FlatContent \<Rightarrow> ValueSerializer \<Rightarrow> ValueSerializer option" where
  "WriteString d flat s =
     (case flat of
        OneByte chars \<Rightarrow> do { s \<leftarrow> WriteTag d kOneByteString s; WriteOneByteString d chars s }
      | TwoByte chars \<Rightarrow> do {
          let byte_length = (of_nat (length chars * 2) :: 32 word);
          s \<leftarrow> (if odd (length (buffer s) + 1 + BytesNeededForVarint byte_length) then WriteTag d kPadding s else Some s);
          s \<leftarrow> WriteTag d kTwoByteString s;
          WriteTwoByteString d chars s })"

definition Release :: "ValueSerializer \<Rightarrow> byte list \<times> ValueSerializer" where
  "Release s = (buffer s, s\<lparr>buffer := [], buffer_capacity := 0\<rparr>)"

section \<open>Readers\<close>

record ValueDeserializer =
  data :: "byte list"
  position :: nat
  version :: "32 word"

definition advance :: "nat \<Rightarrow> ValueDeserializer \<Rightarrow> ValueDeserializer" where
  "advance n r = r\<lparr>position := position r + n\<rparr>"

function ReadVarintLoop_from :: "byte list \<Rightarrow> nat \<Rightarrow> 'a::len word \<Rightarrow> nat \<Rightarrow> 'a word option \<times> nat" where
  "ReadVarintLoop_from bytes pos value shift =
     (if pos \<ge> length bytes then (None, pos)
      else (let byte = bytes ! pos; has_another_byte = (byte AND 0x80 \<noteq> 0)
            in if shift < LENGTH('a) then
                 (let value = value OR push_bit shift (ucast (byte AND 0x7F))
                  in if has_another_byte then ReadVarintLoop_from bytes (pos + 1) value (shift + 7)
                     else (Some value, pos + 1))
               else (Some value, pos)))"
  by pat_completeness auto
termination
  by (relation "measure (\<lambda>(bytes, pos, value, shift). length bytes - pos)") auto

declare ReadVarintLoop_from.simps [simp del]

definition ReadVarintLoop :: "ValueDeserializer \<Rightarrow> 'a::len word option \<times> ValueDeserializer" where
  "ReadVarintLoop r =
     (let (result, pos) = ReadVarintLoop_from (data r) (position r) 0 0 in (result, r\<lparr>position := pos\<rparr>))"

definition ITERATION_SHIFTED :: "byte list \<Rightarrow> nat \<Rightarrow> ('a::len word \<Rightarrow> nat \<Rightarrow> ('a word \<times> nat) option)
    \<Rightarrow> 'a word \<Rightarrow> nat \<Rightarrow> ('a word \<times> nat) option" where
  "ITERATION_SHIFTED bytes shift rest value pos =
     (if shift < LENGTH('a) then do {
        byte \<leftarrow> rd bytes pos;
        if byte < 0x80 then Some (value OR push_bit shift (ucast byte), pos + 1)
        else rest (value OR push_bit shift (ucast (byte AND 0x7F))) (pos + 1)
      } else rest value pos)"

definition ReadVarint :: "ValueDeserializer \<Rightarrow> ('a::len word option \<times> ValueDeserializer) option" where
  "ReadVarint r =
     (if LENGTH('a) div 8 > 4 then Some (ReadVarintLoop r)
      else (let max_read_position = position r + LENGTH('a) div 8 + 1
            in if max_read_position \<ge> length (data r) then Some (ReadVarintLoop r)
               else do {
                 (value, pos) \<leftarrow>
                   (ITERATION_SHIFTED (data r) 0 (ITERATION_SHIFTED (data r) 7 (ITERATION_SHIFTED (data r) 14
                     (ITERATION_SHIFTED (data r) 21 (ITERATION_SHIFTED (data r) 28 (\<lambda>value pos. Some (value, pos)))))))
                   (0 :: 'a word) (position r);
                 Some (Some value, r\<lparr>position := pos\<rparr>) }))"

function ReadTag_from :: "byte list \<Rightarrow> nat \<Rightarrow> byte option \<times> nat" where
  "ReadTag_from bytes pos =
     (if pos \<ge> length bytes then (None, pos)
      else (let tag = bytes ! pos; pos = pos + 1
            in if tag = kPadding then ReadTag_from bytes pos else (Some tag, pos)))"
  by pat_completeness auto
termination
  by (relation "measure (\<lambda>(bytes, pos). length bytes - pos)") auto

declare ReadTag_from.simps [simp del]

definition ReadTag :: "ValueDeserializer \<Rightarrow> byte option \<times> ValueDeserializer" where
  "ReadTag r = (let (tag, pos) = ReadTag_from (data r) (position r) in (tag, r\<lparr>position := pos\<rparr>))"

definition PeekTag :: "ValueDeserializer \<Rightarrow> byte option" where
  "PeekTag r = fst (ReadTag_from (data r) (position r))"

definition ReadZigZag :: "ValueDeserializer \<Rightarrow> (32 word option \<times> ValueDeserializer) option" where
  "ReadZigZag r = do {
     (result, r) \<leftarrow> ReadVarint r;
     Some (case result of None \<Rightarrow> None
           | Some unsigned_value \<Rightarrow> Some (drop_bit 1 unsigned_value XOR - (unsigned_value AND 1)), r) }"

definition isnan :: "64 word \<Rightarrow> bool" where
  "isnan v \<longleftrightarrow> take_bit 11 (drop_bit 52 v) = 0x7FF \<and> take_bit 52 v \<noteq> 0"

definition quiet_NaN :: "64 word" where
  "quiet_NaN = 0x7FF8000000000000"

definition ReadDouble :: "ValueDeserializer \<Rightarrow> 64 word option \<times> ValueDeserializer" where
  "ReadDouble r =
     (if 8 > unat (of_nat (length (data r) - position r) :: 32 word) then (None, r)
      else (let value = digit_of_bytes (take 8 (drop (position r) (data r)));
                r = advance 8 r
            in (Some (if isnan value then quiet_NaN else value), r)))"

definition ReadRawBytes :: "nat \<Rightarrow> ValueDeserializer \<Rightarrow> byte list option \<times> ValueDeserializer" where
  "ReadRawBytes n r =
     (if n > length (data r) - position r then (None, r)
      else (Some (take n (drop (position r) (data r))), advance n r))"

definition ReadByte :: "ValueDeserializer \<Rightarrow> byte option \<times> ValueDeserializer" where
  "ReadByte r =
     (if length (data r) - position r < 1 then (None, r) else (Some (data r ! position r), advance 1 r))"

definition ReadHeader :: "ValueDeserializer \<Rightarrow> bool \<times> ValueDeserializer" where
  "ReadHeader r =
     (if position r < length (data r) \<and> data r ! position r = kVersion then
        (let (tag, r) = ReadTag r; (result, r) = ReadVarintLoop r
         in case result of
              None \<Rightarrow> (False, r)
            | Some v \<Rightarrow> (let r = r\<lparr>version := v\<rparr> in (\<not> v > kLatestVersion, r)))
      else (True, r))"

definition ReadBigInt :: "memory \<Rightarrow> ValueDeserializer \<Rightarrow> (BigIntBase option \<times> ValueDeserializer) option" where
  "ReadBigInt junk r = do {
     (bitfield, r) \<leftarrow> ReadVarint r;
     case bitfield of
       None \<Rightarrow> Some (None, r)
     | Some bitfield \<Rightarrow>
         (let bytelength = DigitsByteLengthForBitfield bitfield
          in case ReadRawBytes bytelength r of
               (None, r) \<Rightarrow> Some (None, r)
             | (Some digits_storage, r) \<Rightarrow> do {
                 result \<leftarrow> FromSerializedDigits junk bitfield digits_storage;
                 Some (result, r) }) }"

definition ReadOneByteString :: "ValueDeserializer \<Rightarrow> (byte list option \<times> ValueDeserializer) option" where
  "ReadOneByteString r = do {
     (byte_length, r) \<leftarrow> (ReadVarint r :: (32 word option \<times> ValueDeserializer) option);
     case byte_length of
       None \<Rightarrow> Some (None, r)
     | Some byte_length \<Rightarrow> Some (ReadRawBytes (unat byte_length) r) }"

fun uc16_of_bytes :: "byte list \<Rightarrow> 16 word list" where
  "uc16_of_bytes (lo # hi # bs) = (ucast lo OR push_bit 8 (ucast hi)) # uc16_of_bytes bs"
| "uc16_of_bytes _ = []"

definition ReadTwoByteString :: "ValueDeserializer \<Rightarrow> (16 word list option \<times> ValueDeserializer) option" where
  "ReadTwoByteString r = do {
     (byte_length, r) \<leftarrow> (ReadVarint r :: (32 word option \<times> ValueDeserializer) option);
     case byte_length of
       None \<Rightarrow> Some (None, r)
     | Some byte_length \<Rightarrow>
         (if byte_length mod 2 \<noteq> 0 then Some (None, r)
          else case ReadRawBytes (unat byte_length) r of
                 (None, r) \<Rightarrow> Some (None, r)
               | (Some bytes, r) \<Rightarrow> if byte_length = 0 then Some (Some [], r) else Some (Some (uc16_of_bytes bytes), r)) }"

definition ReadExpectedString :: "FlatContent \<Rightarrow> ValueDeserializer \<Rightarrow> (bool \<times> ValueDeserializer) option" where
  "ReadExpectedString expected r =
     (let original_position = position r; (tag, r) = ReadTag r
      in case tag of
           None \<Rightarrow> Some (False, r)
         | Some tag \<Rightarrow> do {
             (byte_length, r) \<leftarrow> (ReadVarint r :: (32 word option \<times> ValueDeserializer) option);
             case byte_length of
               None \<Rightarrow> Some (False, r)
             | Some byte_length \<Rightarrow>
                 (case ReadRawBytes (unat byte_length) r of
                    (None, r) \<Rightarrow> Some (False, r\<lparr>position := original_position\<rparr>)
                  | (Some bytes, r) \<Rightarrow>
                      (let matches =
                         (case expected of
                            OneByte chars \<Rightarrow>
                              (tag = kOneByteString \<and> unat byte_length = length chars \<and> bytes = chars) \<or>
                              (tag = kUtf8String \<and> unat byte_length = length chars \<and> (\<forall>c \<in> set chars. c < 0x80) \<and> bytes = chars)
                          | TwoByte chars \<Rightarrow>
                              tag = kTwoByteString \<and> unat byte_length = length chars * 2 \<and> bytes = uc16_bytes chars)
                       in if matches then Some (True, r)
                          else Some (False, r\<lparr>position := original_position\<rparr>))) })"

section \<open>Primitive values\<close>

text \<open>
  The values whose serialization does not involve the object graph.  A Smi has 32 bits, and a number read as a double
  becomes a Smi when it is one (an integer in the range that is not minus zero); a two-byte string is not
  empty, because the empty string is a one-byte string.  The remaining tags of the reader are dispatched to the
  parameter \<open>other\<close>.
\<close>

datatype Primitive =
  Oddball OddballKind | Smi "32 word" | HeapNumber "64 word" | BigIntObject BigIntBase | StringObject FlatContent

definition DoubleToSmiInteger :: "64 word \<Rightarrow> 32 word option" where
  "DoubleToSmiInteger v =
     (let exponent = unat (take_bit 11 (drop_bit 52 v));
          significand = 2 ^ 52 + uint (take_bit 52 v);
          shift = 1075 - exponent;
          value = (if bit v 63 then - 1 else 1) * (significand div 2 ^ shift)
      in if v = 0 then Some 0
         else if 1023 \<le> exponent \<and> exponent \<le> 1054 \<and> significand mod 2 ^ shift = 0 \<and> - (2 ^ 31) \<le> value \<and> value < 2 ^ 31
         then Some (of_int value) else None)"

definition NewNumber :: "64 word \<Rightarrow> Primitive" where
  "NewNumber v = (case DoubleToSmiInteger v of Some n \<Rightarrow> Smi n | None \<Rightarrow> HeapNumber v)"

definition ThrowIfOutOfMemory :: "ValueSerializer \<Rightarrow> bool" where
  "ThrowIfOutOfMemory s \<longleftrightarrow> \<not> out_of_memory s"

definition WriteObject :: "Delegate \<Rightarrow> Primitive \<Rightarrow> ValueSerializer \<Rightarrow> (bool \<times> ValueSerializer) option" where
  "WriteObject d object s =
     (if out_of_memory s then Some (ThrowIfOutOfMemory s, s)
      else do {
        s \<leftarrow> (case object of
               Smi smi \<Rightarrow> WriteSmi d smi s
             | Oddball kind \<Rightarrow> WriteOddball d kind s
             | HeapNumber number \<Rightarrow> WriteHeapNumber d number s
             | BigIntObject bigint \<Rightarrow> WriteBigInt d bigint s
             | StringObject string \<Rightarrow> WriteString d string s);
        Some (ThrowIfOutOfMemory s, s) })"

type_synonym 'v reader = "ValueDeserializer \<Rightarrow> ('v option \<times> ValueDeserializer) option"

definition map_read :: "('v \<Rightarrow> 'w) \<Rightarrow> 'v reader \<Rightarrow> 'w reader" where
  "map_read f read r = map_option (map_prod (map_option f) id) (read r)"

definition ReadObjectInternal :: "(byte \<Rightarrow> Primitive reader) \<Rightarrow> memory \<Rightarrow> Primitive reader" where
  "ReadObjectInternal other junk r =
     (let (tag, r) = ReadTag r
      in case tag of
           None \<Rightarrow> Some (None, r)
         | Some tag \<Rightarrow>
             if tag = kUndefined_tag then Some (Some (Oddball OddballUndefined), r)
             else if tag = kNull then Some (Some (Oddball OddballNull), r)
             else if tag = kTrue then Some (Some (Oddball OddballTrue), r)
             else if tag = kFalse then Some (Some (Oddball OddballFalse), r)
             else if tag = kInt32 then map_read Smi ReadZigZag r
             else if tag = kDouble then map_read NewNumber (\<lambda>r. Some (ReadDouble r)) r
             else if tag = kBigInt then map_read BigIntObject (ReadBigInt junk) r
             else if tag = kOneByteString then map_read (StringObject \<circ> OneByte) ReadOneByteString r
             else if tag = kTwoByteString then
               map_read (\<lambda>cs. StringObject (if cs = [] then OneByte [] else TwoByte cs)) ReadTwoByteString r
             else other tag r)"

section \<open>What a writer emits\<close>

text \<open>
  A delegate keeps its contract when it provides at least the requested capacity.  A writer emits a byte sequence,
  which may depend on the offset it is written at, when it never leaves the buffer, and either appends exactly
  that sequence or reports that it ran out of memory; a reported failure is never forgotten.
\<close>

definition good_delegate :: "Delegate \<Rightarrow> bool" where
  "good_delegate d \<longleftrightarrow> (\<forall>n m. realloc d n = Some m \<longrightarrow> n \<le> m)"

definition well_formed :: "ValueSerializer \<Rightarrow> bool" where
  "well_formed s \<longleftrightarrow> length (buffer s) \<le> buffer_capacity s"

definition emits :: "(ValueSerializer \<Rightarrow> ValueSerializer option) \<Rightarrow> (nat \<Rightarrow> byte list) \<Rightarrow> bool" where
  "emits write bs \<longleftrightarrow> (\<forall>s. well_formed s \<longrightarrow> (\<exists>s'. write s = Some s' \<and> well_formed s' \<and>
     (out_of_memory s \<longrightarrow> out_of_memory s') \<and>
     (\<not> out_of_memory s' \<longrightarrow> buffer s' = buffer s @ bs (length (buffer s)))))"

lemma emitsE:
  assumes "emits write bs" and "well_formed s"
  obtains s' where "write s = Some s'" "well_formed s'" "out_of_memory s \<Longrightarrow> out_of_memory s'"
    "\<not> out_of_memory s' \<Longrightarrow> buffer s' = buffer s @ bs (length (buffer s))"
  using assms unfolding emits_def by blast

lemma emits_bind:
  assumes "emits f a" and "emits g b"
  shows "emits (\<lambda>s. f s \<bind> g) (\<lambda>n. a n @ b (n + length (a n)))"
  unfolding emits_def
proof (intro allI impI)
  fix s assume "well_formed s"
  with assms(1) obtain s1 where 1: "f s = Some s1" "well_formed s1" "out_of_memory s \<Longrightarrow> out_of_memory s1"
    "\<not> out_of_memory s1 \<Longrightarrow> buffer s1 = buffer s @ a (length (buffer s))" by (rule emitsE) blast
  from assms(2) 1(2) obtain s2 where 2: "g s1 = Some s2" "well_formed s2" "out_of_memory s1 \<Longrightarrow> out_of_memory s2"
    "\<not> out_of_memory s2 \<Longrightarrow> buffer s2 = buffer s1 @ b (length (buffer s1))" by (rule emitsE) blast
  from 1 2 show "\<exists>s'. f s \<bind> g = Some s' \<and> well_formed s' \<and> (out_of_memory s \<longrightarrow> out_of_memory s') \<and>
      (\<not> out_of_memory s' \<longrightarrow> buffer s' = buffer s @ a (length (buffer s)) @ b (length (buffer s) + length (a (length (buffer s)))))"
    by (cases "out_of_memory s1") auto
qed

lemma emits_skip: "emits Some (\<lambda>_. [])"
  by (simp add: emits_def)

lemma reserve_emits:
  assumes "good_delegate d" and "length bs = n"
  shows "emits (\<lambda>s. case ReserveRawBytes d n s of (Some dest, s) \<Rightarrow> memcpy dest bs s | (None, s) \<Rightarrow> Some s) (\<lambda>_. bs)"
  unfolding emits_def
proof (intro allI impI)
  fix s assume wf: "well_formed s"
  let ?new = "length (buffer s) + n"
  let ?req = "max ?new (buffer_capacity s * 2) + 64"
  consider "?new \<le> buffer_capacity s" | m where "buffer_capacity s < ?new" "realloc d ?req = Some m" "?new \<le> m"
    | "buffer_capacity s < ?new" "realloc d ?req = None"
  proof (cases "?new \<le> buffer_capacity s")
    case False
    then show ?thesis using assms(1) that(2,3) by (cases "realloc d ?req") (fastforce simp: good_delegate_def)+
  qed
  then show "\<exists>s'. (case ReserveRawBytes d n s of (Some dest, s) \<Rightarrow> memcpy dest bs s | (None, s) \<Rightarrow> Some s) = Some s' \<and>
      well_formed s' \<and> (out_of_memory s \<longrightarrow> out_of_memory s') \<and> (\<not> out_of_memory s' \<longrightarrow> buffer s' = buffer s @ bs)"
    by cases (use wf assms(2) in \<open>simp_all add: ReserveRawBytes_def ExpandBuffer_def memcpy_def well_formed_def Let_def\<close>)
qed

lemma WriteRawBytes_emits: "good_delegate d \<Longrightarrow> emits (WriteRawBytes d bs) (\<lambda>_. bs)"
proof -
  assume d: "good_delegate d"
  have "WriteRawBytes d bs s = (case ReserveRawBytes d (length bs) s of (Some dest, s) \<Rightarrow> memcpy dest bs s | (None, s) \<Rightarrow> Some s)"
    if "well_formed s" for s
    using that by (cases bs) (auto simp: WriteRawBytes_def ReserveRawBytes_def memcpy_def well_formed_def Let_def split: option.split prod.split)
  with reserve_emits [OF d refl, of bs] show ?thesis by (simp add: emits_def)
qed

lemma WriteTag_emits: "good_delegate d \<Longrightarrow> emits (WriteTag d t) (\<lambda>_. [t])"
  unfolding WriteTag_def by (rule WriteRawBytes_emits)

section \<open>Variable-length integers\<close>

function varint :: "'a::len word \<Rightarrow> byte list" where
  "varint v = (if drop_bit 7 v = 0 then [ucast (take_bit 7 v)] else (ucast (take_bit 7 v) OR 0x80) # varint (drop_bit 7 v))"
  by pat_completeness auto
termination
proof (relation "measure unat")
  fix v :: "'a word" assume w: "drop_bit 7 v \<noteq> 0"
  have "take_bit LENGTH('a) (unat v) = unat v" by (rule take_bit_nat_eq_self) simp
  then have "unat (drop_bit 7 v) = drop_bit 7 (unat v)" by (simp add: unsigned_drop_bit_eq)
  moreover have "unat (drop_bit 7 v) \<noteq> 0" using w by (simp only: unat_eq_0 not_False_eq_True)
  ultimately show "(drop_bit 7 v, v) \<in> measure unat" by (auto simp: drop_bit_eq_div)
qed simp

declare varint.simps [simp del]

lemma varint_nonempty [simp]: "varint v \<noteq> []"
  by (simp add: varint.simps [of v])

lemma varint_loop:
  "take_bit (7 * (cap - length out)) v = v \<Longrightarrow> length out < cap \<Longrightarrow>
   WriteVarint_loop cap v out = Some (out @ butlast (varint v) @ [last (varint v) OR 0x80])"
  for v :: "'a::len word"
proof (induction v arbitrary: out rule: varint.induct)
  case (1 v)
  have b: "ucast (v AND 0x7F) = (ucast (take_bit 7 v) :: byte)"
    by (simp add: take_bit_eq_mask mask_numeral)
  show ?case
  proof (cases "drop_bit 7 v = 0")
    case True
    with 1 show ?thesis by (simp add: WriteVarint_loop.simps [of cap v] varint.simps [of v] b)
  next
    case False
    have n: "Suc (length out) < cap"
    proof (rule ccontr)
      assume "\<not> ?thesis"
      then have "cap - length out = 1" using 1(3) by linarith
      then have "take_bit 7 v = v" using 1(2) by simp
      then have "drop_bit 7 v = 0" using drop_bit_take_bit [of 7 7 v] by simp
      with False show False by simp
    qed
    have "drop_bit 7 (take_bit (7 * (cap - length out)) v) = drop_bit 7 v" using 1(2) by simp
    then have "take_bit (7 * (cap - length out) - 7) (drop_bit 7 v) = drop_bit 7 v" by (simp add: drop_bit_take_bit)
    moreover have "7 * (cap - length out) - 7 = 7 * (cap - Suc (length out))" using n by simp
    ultimately show ?thesis using 1(1) [OF False, of "out @ [ucast (take_bit 7 v) OR 0x80]"] n 1(3) False
      by (simp add: WriteVarint_loop.simps [of cap v] varint.simps [of v] b)
  qed
qed

lemma WriteVarint_emits:
  fixes v :: "'a::len word"
  assumes "good_delegate d"
  shows "emits (WriteVarint d v) (\<lambda>_. varint v)"
proof -
  have last: "last (varint v) = last (varint v) AND 0x7F" for v :: "'a word"
  proof (induction v rule: varint.induct)
    case (1 v)
    have "ucast (take_bit 7 v) = (ucast (take_bit 7 v) AND 0x7F :: byte)"
      by (rule bit_word_eqI) (auto simp: bit_simps take_bit_eq_mask mask_numeral)
    with 1 show ?case by (simp add: varint.simps [of v])
  qed
  have "n \<le> 7 * (n div 7 + 1)" for n :: nat by presburger
  then have "LENGTH('a) \<le> 7 * (LENGTH('a) div 7 + 1)" .
  then have "take_bit (7 * (LENGTH('a) div 7 + 1)) v = v" by (simp add: take_bit_word_eq_self)
  then have loop: "WriteVarint_loop (LENGTH('a) div 7 + 1) v [] = Some (butlast (varint v) @ [last (varint v) OR 0x80])"
    using varint_loop [of "LENGTH('a) div 7 + 1" "[]" v] by simp
  have "(last (varint v) OR 0x80) AND 0x7F = last (varint v)"
    using last [of v] by (simp add: bit.conj_disj_distrib2)
  then have "WriteVarint d v s = WriteRawBytes d (varint v) s" for s
    unfolding WriteVarint_def loop by (simp add: rd_def wr_def Let_def nth_append list_update_append)
  with WriteRawBytes_emits [OF assms, of "varint v"] show ?thesis by (simp add: emits_def)
qed

lemma high_bit: "(b AND 0x80 \<noteq> 0) = bit b 7" for b :: byte
  using and_exp_eq_0_iff_not_bit [of b 7] by simp

lemma byte_less: "b < 0x80 \<longleftrightarrow> \<not> bit b 7" for b :: byte
proof -
  have "unat b < 256" using unsigned_less [of b, where 'a = nat] by simp
  then have "unat b div 128 = 0 \<or> unat b div 128 = 1" by linarith
  then have "bit (unat b) 7 \<longleftrightarrow> \<not> unat b < 128" by (auto simp: bit_iff_odd div_eq_0_iff)
  then show ?thesis by (simp add: word_less_nat_alt bit_unsigned_iff)
qed

lemma group_bits: "ucast ((ucast (take_bit 7 v) OR c) AND 0x7F :: byte) = take_bit 7 v" if "c = 0 \<or> c = 0x80" for v :: "'a::len word"
proof (rule bit_word_eqI)
  fix n assume n: "n < LENGTH('a)"
  have "\<not> bit c n" if "n < 7"
    using \<open>c = 0 \<or> c = 0x80\<close> that bit_exp_iff [of 7 n, where 'a = "8 word"] by auto
  moreover have "bit (0x7F :: byte) n \<longleftrightarrow> n < 7" using bit_mask_iff [of 7 n, where 'a = "8 word"] by (auto simp: mask_eq_exp_minus_1)
  ultimately show "bit (ucast ((ucast (take_bit 7 v) OR c) AND 0x7F :: byte) :: 'a word) n \<longleftrightarrow> bit (take_bit 7 v) n"
    using n by (auto simp: bit_simps)
qed

lemma push_groups: "push_bit n (take_bit 7 v) OR push_bit (n + 7) (drop_bit 7 v) = push_bit n v" for v :: "'a::len word"
proof (rule bit_word_eqI)
  fix k assume "k < LENGTH('a)"
  then show "bit (push_bit n (take_bit 7 v) OR push_bit (n + 7) (drop_bit 7 v)) k \<longleftrightarrow> bit (push_bit n v) k"
    by (cases "k < n + 7") (auto simp: bit_simps dest: bit_imp_le_length)
qed

lemma nth_middle: "i = length pre \<Longrightarrow> (pre @ x # post) ! i = x"
  by simp

lemma ReadVarintLoop_varint:
  fixes v acc :: "'a::len word"
  assumes "take_bit (LENGTH('a) - shift) v = v" and "shift < LENGTH('a)"
  shows "ReadVarintLoop_from (pre @ varint v @ post) (length pre) acc shift = (Some (acc OR push_bit shift v), length pre + length (varint v))"
  using assms
proof (induction v arbitrary: pre acc shift rule: varint.induct)
  case (1 v)
  show ?case
  proof (cases "drop_bit 7 v = 0")
    case True
    let ?b = "ucast (take_bit 7 v) :: byte"
    have t: "take_bit 7 v = v" using True bits_ident [of 7 v] by simp
    have "ucast (?b AND 0x7F) = v" using group_bits [of 0 v] by (simp add: t)
    moreover have "\<not> bit ?b 7" by (simp add: bit_simps)
    ultimately show ?thesis using "1.prems"
      by (simp add: ReadVarintLoop_from.simps [of "pre @ _"] varint.simps [of v] True Let_def high_bit)
  next
    case False
    let ?b = "ucast (take_bit 7 v) OR 0x80 :: byte"
    have sh: "shift + 7 < LENGTH('a)"
    proof (rule ccontr)
      assume "\<not> ?thesis"
      then have "min 7 (LENGTH('a) - shift) = LENGTH('a) - shift" by (intro min_absorb2) linarith
      then have "take_bit 7 (take_bit (LENGTH('a) - shift) v) = take_bit (LENGTH('a) - shift) v" by (simp only: take_bit_take_bit)
      then have "take_bit 7 v = v" by (simp only: "1.prems"(1))
      then have "drop_bit 7 v = 0" using drop_bit_take_bit [of 7 7 v] by simp
      with False show False by simp
    qed
    have "drop_bit 7 (take_bit (LENGTH('a) - shift) v) = drop_bit 7 v" using "1.prems" by simp
    then have d: "take_bit (LENGTH('a) - (shift + 7)) (drop_bit 7 v) = drop_bit 7 v" by (simp add: drop_bit_take_bit)
    have g: "ucast (?b AND 0x7F) = take_bit 7 v" by (rule group_bits) simp
    have "bit (0x80 :: byte) 7" using bit_exp_iff [of 7 7, where 'a = "8 word"] by simp
    then have "bit ?b 7" by (simp add: bit_or_iff)
    then have "ReadVarintLoop_from (pre @ varint v @ post) (length pre) acc shift =
        ReadVarintLoop_from ((pre @ [?b]) @ varint (drop_bit 7 v) @ post) (length (pre @ [?b])) (acc OR push_bit shift (take_bit 7 v)) (shift + 7)"
      using "1.prems"(2) by (subst ReadVarintLoop_from.simps) (simp add: varint.simps [of v] False Let_def high_bit g)
    also have "\<dots> = (Some ((acc OR push_bit shift (take_bit 7 v)) OR push_bit (shift + 7) (drop_bit 7 v)), length (pre @ [?b]) + length (varint (drop_bit 7 v)))"
      by (rule "1.IH" [OF False d sh])
    also have "(acc OR push_bit shift (take_bit 7 v)) OR push_bit (shift + 7) (drop_bit 7 v) = acc OR push_bit shift v"
      by (simp only: or.assoc push_groups)
    finally show ?thesis by (simp add: varint.simps [of v] False)
  qed
qed

text \<open>The unrolled reader and the loop agree, both on the value and on the position they stop at.\<close>

definition agree :: "('a::len word \<times> nat) option \<Rightarrow> 'a word option \<times> nat \<Rightarrow> bool" where
  "agree m l \<longleftrightarrow> (\<exists>a p. m = Some (a, p) \<and> l = (Some a, p))"

lemma agree_iteration:
  fixes v :: "'a::len word"
  assumes "\<And>v. agree (rest v j) (ReadVarintLoop_from bytes j v m)" and "j = pos + 1" and "m = shift + 7"
    and "pos < length bytes" and "shift < LENGTH('a)"
  shows "agree (ITERATION_SHIFTED bytes shift rest v pos) (ReadVarintLoop_from bytes pos v shift)"
proof -
  have low: "b AND 0x7F = b" if "\<not> bit b 7" for b :: byte
  proof (rule bit_word_eqI)
    fix n assume "n < LENGTH(8)"
    then have "n < 7 \<or> n = 7" by auto
    then show "bit (b AND 0x7F) n \<longleftrightarrow> bit b n"
      using that bit_mask_iff [of 7 n, where 'a = "8 word"] by (auto simp: bit_and_iff mask_eq_exp_minus_1)
  qed
  show ?thesis using assms
    by (cases "bit (bytes ! pos) 7")
      (simp_all add: ITERATION_SHIFTED_def ReadVarintLoop_from.simps [of bytes pos] rd_def byte_less high_bit Let_def low agree_def)
qed

lemma agree_end: "pos < length bytes \<Longrightarrow> LENGTH('a) \<le> shift \<Longrightarrow>
    agree (Some (v, pos)) (ReadVarintLoop_from bytes pos v shift)" for v :: "'a::len word"
  by (simp add: agree_def ReadVarintLoop_from.simps [of bytes pos])

lemma ReadVarint_eq_loop: "ReadVarint r = Some (ReadVarintLoop r :: 32 word option \<times> ValueDeserializer)"
proof (cases "position r + 5 < length (data r)")
  case True
  let ?f = "\<lambda>shift. ITERATION_SHIFTED (data r) shift" and ?l = "ReadVarintLoop_from (data r)" and ?p = "position r"
  have "agree (Some (v, ?p + 5)) (?l (?p + 5) v 35)" for v :: "32 word" by (rule agree_end) (use True in simp_all)
  then have "agree (?f 28 (\<lambda>v pos. Some (v, pos)) v (?p + 4)) (?l (?p + 4) v 28)" for v :: "32 word" using True by - (rule agree_iteration [where j = "?p + 5" and m = 35], simp_all)
  then have "agree (?f 21 (?f 28 (\<lambda>v pos. Some (v, pos))) v (?p + 3)) (?l (?p + 3) v 21)" for v :: "32 word" using True by - (rule agree_iteration [where j = "?p + 4" and m = 28], simp_all)
  then have "agree (?f 14 (?f 21 (?f 28 (\<lambda>v pos. Some (v, pos)))) v (?p + 2)) (?l (?p + 2) v 14)" for v :: "32 word" using True by - (rule agree_iteration [where j = "?p + 3" and m = 21], simp_all)
  then have "agree (?f 7 (?f 14 (?f 21 (?f 28 (\<lambda>v pos. Some (v, pos))))) v (?p + 1)) (?l (?p + 1) v 7)" for v :: "32 word" using True by - (rule agree_iteration [where j = "?p + 2" and m = 14], simp_all)
  then have "agree (?f 0 (?f 7 (?f 14 (?f 21 (?f 28 (\<lambda>v pos. Some (v, pos)))))) (0 :: 32 word) ?p) (?l ?p 0 0)" using True by - (rule agree_iteration [where j = "?p + 1" and m = 7], simp_all)
  then show ?thesis using True by (auto simp: ReadVarint_def ReadVarintLoop_def agree_def)
qed (simp add: ReadVarint_def)

lemma ReadVarint_eq_loop_64: "ReadVarint r = Some (ReadVarintLoop r :: 64 word option \<times> ValueDeserializer)"
  by (simp add: ReadVarint_def)

section \<open>Formats\<close>

text \<open>
  A format is an encoding together with a reader that, placed at an encoded value inside any data, returns the
  value and stops right after it.
\<close>

locale wire_format =
  fixes enc :: "'v \<Rightarrow> byte list"
    and valid :: "'v \<Rightarrow> bool"
    and read :: "ValueDeserializer \<Rightarrow> ('v option \<times> ValueDeserializer) option"
  assumes read_enc: "valid v \<Longrightarrow> data r = pre @ enc v @ post \<Longrightarrow> position r = length pre \<Longrightarrow>
      read r = Some (Some v, advance (length (enc v)) r)"
begin

lemma prefix_free:
  assumes "valid v" and "valid w" and "enc v @ a = enc w @ b"
  shows "v = w \<and> a = b"
proof -
  let ?r = "\<lparr>data = enc v @ a, position = 0, version = 0\<rparr>"
  have "read ?r = Some (Some v, advance (length (enc v)) ?r)" using read_enc [OF assms(1), of ?r "[]" a] by simp
  moreover have "read ?r = Some (Some w, advance (length (enc w)) ?r)" using read_enc [OF assms(2), of ?r "[]" b] assms(3) by simp
  ultimately have "v = w" by simp
  with assms(3) show ?thesis by simp
qed

lemma read_written:
  assumes "valid v" and "emits (w d) (\<lambda>_. enc v)" and "well_formed s" and "w d s = Some s'" and "\<not> out_of_memory s'"
  shows "read \<lparr>data = buffer s', position = length (buffer s), version = ver\<rparr> =
    Some (Some v, \<lparr>data = buffer s', position = length (buffer s'), version = ver\<rparr>)"
proof -
  from assms(2,3) obtain s1 where "w d s = Some s1" "\<not> out_of_memory s1 \<Longrightarrow> buffer s1 = buffer s @ enc v" by (rule emitsE) blast
  with assms(4,5) have "buffer s' = buffer s @ enc v" by simp
  with read_enc [OF assms(1), of "\<lparr>data = buffer s', position = length (buffer s), version = ver\<rparr>" "buffer s" "[]"] show ?thesis
    by (simp add: advance_def)
qed

end

lemma ReadVarintLoop_enc:
  fixes v :: "'a::len word"
  assumes "data r = pre @ varint v @ post" and "position r = length pre"
  shows "ReadVarintLoop r = (Some v, advance (length (varint v)) r)"
  using ReadVarintLoop_varint [of 0 v pre post 0] assms
  by (simp add: ReadVarintLoop_def advance_def take_bit_word_eq_self)

interpretation varint32: wire_format varint "\<lambda>_. True" "ReadVarint :: _ \<Rightarrow> (32 word option \<times> _) option"
  by unfold_locales (simp add: ReadVarint_eq_loop ReadVarintLoop_enc)

interpretation varint64: wire_format varint "\<lambda>_. True" "ReadVarint :: _ \<Rightarrow> (64 word option \<times> _) option"
  by unfold_locales (simp add: ReadVarint_eq_loop_64 ReadVarintLoop_enc)

definition zigzag :: "32 word \<Rightarrow> byte list" where
  "zigzag v = varint (push_bit 1 v XOR signed_drop_bit 31 v)"

lemma zigzag_inverse:
  fixes v :: "32 word"
  defines "u \<equiv> push_bit 1 v XOR signed_drop_bit 31 v"
  shows "drop_bit 1 u XOR - (u AND 1) = v"
proof (rule bit_word_eqI)
  fix n assume n: "n < LENGTH(32)"
  have s: "bit (signed_drop_bit 31 v) k \<longleftrightarrow> bit v 31" if "k < 32" for k
    using that by (cases "k = 0") (auto simp: bit_signed_drop_bit_iff)
  have u: "bit u k \<longleftrightarrow> ((1 \<le> k \<and> bit v (k - 1)) \<noteq> bit v 31)" if "k < 32" for k
    using that unfolding u_def bit_xor_iff bit_push_bit_iff by (auto simp: s)
  have "u AND 1 = (if bit v 31 then 1 else 0)" using u [of 0] by (auto simp: and_one_eq mod_2_eq_odd bit_0)
  then have "bit (- (u AND 1)) n \<longleftrightarrow> bit v 31" using n by (simp add: bit_minus_1_iff)
  moreover have "bit (drop_bit 1 u) n \<longleftrightarrow> n < 31 \<and> (bit v n \<noteq> bit v 31)"
    using u [of "Suc n"] n bit_imp_le_length [of u "Suc n"] by (auto simp: bit_drop_bit_eq)
  moreover have "n < 31 \<or> n = 31" using n by auto
  ultimately show "bit (drop_bit 1 u XOR - (u AND 1)) n \<longleftrightarrow> bit v n" by (auto simp: bit_xor_iff)
qed

interpretation zigzag: wire_format zigzag "\<lambda>_. True" ReadZigZag
proof unfold_locales
  fix v :: "32 word" and r :: ValueDeserializer and pre post
  assume "data r = pre @ zigzag v @ post" "position r = length pre"
  then show "ReadZigZag r = Some (Some v, advance (length (zigzag v)) r)"
    unfolding ReadZigZag_def zigzag_def by (subst varint32.read_enc) (assumption | simp only: bind.simps case_prod_conv option.case zigzag_inverse)+
qed

lemma ReadRawBytes_enc:
  "data r = pre @ bs @ post \<Longrightarrow> position r = length pre \<Longrightarrow> n = length bs \<Longrightarrow> ReadRawBytes n r = (Some bs, advance n r)"
  by (simp add: ReadRawBytes_def)

lemma advance_advance [simp]: "advance m (advance n r) = advance (n + m) r"
  by (simp add: advance_def)

lemma data_advance [simp]: "data (advance n r) = data r" and position_advance [simp]: "position (advance n r) = position r + n"
  by (simp_all add: advance_def)

definition one_byte_string :: "byte list \<Rightarrow> byte list" where
  "one_byte_string cs = varint (of_nat (length cs) :: 32 word) @ cs"

interpretation one_byte_string: wire_format one_byte_string "\<lambda>cs. length cs < 2 ^ 32" ReadOneByteString
proof unfold_locales
  fix cs :: "byte list" and r :: ValueDeserializer and pre post
  assume len: "length cs < 2 ^ 32" and d: "data r = pre @ one_byte_string cs @ post" "position r = length pre"
  let ?n = "of_nat (length cs) :: 32 word"
  have "ReadVarint r = Some (Some ?n, advance (length (varint ?n)) r)"
    by (rule varint32.read_enc) (use d in \<open>simp_all add: one_byte_string_def\<close>)
  moreover have "ReadRawBytes (unat ?n) (advance (length (varint ?n)) r) = (Some cs, advance (unat ?n) (advance (length (varint ?n)) r))"
    using len d by (intro ReadRawBytes_enc [of _ "pre @ varint ?n" _ post]) (simp_all add: one_byte_string_def unat_of_nat)
  ultimately show "ReadOneByteString r = Some (Some cs, advance (length (one_byte_string cs)) r)"
    using len by (simp add: ReadOneByteString_def one_byte_string_def unat_of_nat)
qed

lemma length_uc16_bytes [simp]: "length (uc16_bytes cs) = 2 * length cs"
  by (induction cs) (simp_all add: uc16_bytes_def)

lemma uc16_inverse [simp]: "uc16_of_bytes (uc16_bytes cs) = cs"
proof (induction cs)
  case (Cons c cs)
  have "ucast (ucast c :: byte) OR push_bit 8 (ucast (ucast (drop_bit 8 c) :: byte)) = c"
    by (rule bit_word_eqI) (auto simp: bit_simps)
  with Cons show ?case by (simp add: uc16_bytes_def)
qed (simp add: uc16_bytes_def)

definition two_byte_string :: "16 word list \<Rightarrow> byte list" where
  "two_byte_string cs = varint (of_nat (length cs * 2) :: 32 word) @ uc16_bytes cs"

interpretation two_byte_string: wire_format two_byte_string "\<lambda>cs. length cs < 2 ^ 31" ReadTwoByteString
proof unfold_locales
  fix cs :: "16 word list" and r :: ValueDeserializer and pre post
  assume len: "length cs < 2 ^ 31" and d: "data r = pre @ two_byte_string cs @ post" "position r = length pre"
  define n where "n = (of_nat (length cs * 2) :: 32 word)"
  have enc: "two_byte_string cs = varint n @ uc16_bytes cs" by (simp only: two_byte_string_def n_def)
  have u: "unat n = length cs * 2" using len unfolding n_def by (simp only: unat_of_nat) simp
  have v: "ReadVarint r = Some (Some n, advance (length (varint n)) r)"
    by (rule varint32.read_enc) (use d in \<open>simp_all add: enc\<close>)
  have b: "ReadRawBytes (unat n) (advance (length (varint n)) r) = (Some (uc16_bytes cs), advance (unat n) (advance (length (varint n)) r))"
    using d u by (intro ReadRawBytes_enc [of _ "pre @ varint n" _ post]) (simp_all add: enc)
  have "unat (n mod 2) = 0" by (simp only: unat_mod_distrib u) simp
  then have e: "n mod 2 = 0" by (simp only: unat_eq_0)
  have "n = 0 \<longleftrightarrow> cs = []" using u by (simp flip: unat_eq_0)
  then show "ReadTwoByteString r = Some (Some cs, advance (length (two_byte_string cs)) r)"
    by (simp add: ReadTwoByteString_def v b e enc) (simp add: u mult.commute)
qed

definition bigint_contents :: "BigIntBase \<Rightarrow> byte list" where
  "bigint_contents x = varint (GetBitfieldForSerialization x) @ SerializeDigits x"

interpretation bigint_contents: wire_format bigint_contents canonical "ReadBigInt junk"
proof unfold_locales
  fix x :: BigIntBase and r :: ValueDeserializer and pre post
  assume c: "canonical x" and d: "data r = pre @ bigint_contents x @ post" "position r = length pre"
  define f where "f = GetBitfieldForSerialization x"
  have len: "DigitsByteLengthForBitfield f = length (SerializeDigits x)"
    using bitfield_roundtrip(2) [OF c] by (simp add: f_def length_SerializeDigits)
  have v: "ReadVarint r = Some (Some f, advance (length (varint f)) r)"
    by (rule varint32.read_enc) (use d in \<open>simp_all add: bigint_contents_def f_def\<close>)
  have b: "ReadRawBytes (length (SerializeDigits x)) (advance (length (varint f)) r) =
      (Some (SerializeDigits x), advance (length (SerializeDigits x)) (advance (length (varint f)) r))"
    using d by (intro ReadRawBytes_enc [of _ "pre @ varint f" _ post]) (simp_all add: bigint_contents_def f_def)
  show "ReadBigInt junk r = Some (Some x, advance (length (bigint_contents x)) r)"
    using FromSerializedDigits_spec [OF c, of junk, folded f_def]
    by (simp add: ReadBigInt_def v b len) (simp add: bigint_contents_def f_def)
qed

lemma ReadTag_enc:
  assumes "data r = pre @ replicate k kPadding @ t # post" and "position r = length pre" and "t \<noteq> kPadding"
  shows "ReadTag r = (Some t, advance (k + 1) r)"
proof -
  have "ReadTag_from (pre @ replicate k kPadding @ t # post) (length pre) = (Some t, length pre + k + 1)"
  proof (induction k arbitrary: pre)
    case 0
    then show ?case using assms(3) by (simp add: ReadTag_from.simps [of "pre @ _"])
  next
    case (Suc k)
    show ?case using Suc.IH [of "pre @ [kPadding]"] by (subst ReadTag_from.simps) simp
  qed
  then show ?thesis using assms(1,2) by (simp add: ReadTag_def advance_def)
qed

lemmas tags = kVersion_def kPadding_def kUndefined_tag_def kNull_def kTrue_def kFalse_def kInt32_def kDouble_def
  kBigInt_def kUtf8String_def kOneByteString_def kTwoByteString_def

section \<open>Primitive values on the wire\<close>

fun padded :: "FlatContent \<Rightarrow> nat \<Rightarrow> nat" where
  "padded (TwoByte cs) n = (if odd (n + 1 + BytesNeededForVarint (of_nat (length cs * 2) :: 32 word)) then 1 else 0)"
| "padded (OneByte cs) n = 0"

fun value_bytes :: "Primitive \<Rightarrow> byte list" where
  "value_bytes (Oddball kind) =
     [case kind of OddballUndefined \<Rightarrow> kUndefined_tag | OddballFalse \<Rightarrow> kFalse | OddballTrue \<Rightarrow> kTrue | OddballNull \<Rightarrow> kNull]"
| "value_bytes (Smi v) = kInt32 # zigzag v"
| "value_bytes (HeapNumber v) = kDouble # digit_bytes v"
| "value_bytes (BigIntObject x) = kBigInt # bigint_contents x"
| "value_bytes (StringObject (OneByte cs)) = kOneByteString # one_byte_string cs"
| "value_bytes (StringObject (TwoByte cs)) = kTwoByteString # two_byte_string cs"

fun padding_bytes :: "Primitive \<Rightarrow> nat \<Rightarrow> byte list" where
  "padding_bytes (StringObject f) n = replicate (padded f n) kPadding"
| "padding_bytes _ n = []"

fun serializable :: "Primitive \<Rightarrow> bool" where
  "serializable (BigIntObject x) \<longleftrightarrow> canonical x"
| "serializable (StringObject (OneByte cs)) \<longleftrightarrow> length cs < 2 ^ 32"
| "serializable (StringObject (TwoByte cs)) \<longleftrightarrow> cs \<noteq> [] \<and> length cs < 2 ^ 31"
| "serializable (HeapNumber v) \<longleftrightarrow> False"
| "serializable _ \<longleftrightarrow> True"

text \<open>
  A double is the one value whose reader looks at the number of bytes that follow; it reads a NaN as the quiet NaN and
  an integer in the range of a Smi as a Smi.
\<close>

fun storable :: "Primitive \<Rightarrow> bool" where
  "storable (HeapNumber v) \<longleftrightarrow> True"
| "storable v \<longleftrightarrow> serializable v"

fun read_back :: "Primitive \<Rightarrow> Primitive" where
  "read_back (HeapNumber v) = NewNumber (if isnan v then quiet_NaN else v)"
| "read_back v = v"

lemma emits_cong: "emits f a \<Longrightarrow> (\<And>s. f s = g s) \<Longrightarrow> (\<And>n. a n = b n) \<Longrightarrow> emits g b"
  by (simp add: emits_def)

definition write_primitive :: "Delegate \<Rightarrow> Primitive \<Rightarrow> ValueSerializer \<Rightarrow> ValueSerializer option" where
  "write_primitive d object s =
     (case object of Smi smi \<Rightarrow> WriteSmi d smi s | Oddball kind \<Rightarrow> WriteOddball d kind s | HeapNumber number \<Rightarrow> WriteHeapNumber d number s
      | BigIntObject bigint \<Rightarrow> WriteBigInt d bigint s | StringObject string \<Rightarrow> WriteString d string s)"

lemma WriteString_emits:
  assumes "good_delegate d"
  shows "emits (WriteString d f) (\<lambda>n. padding_bytes (StringObject f) n @ value_bytes (StringObject f))"
proof (cases f)
  case (OneByte cs)
  show ?thesis
    by (rule emits_cong [OF emits_bind [OF WriteTag_emits [OF assms] emits_bind [OF WriteVarint_emits [OF assms] WriteRawBytes_emits [OF assms]]],
          of kOneByteString "of_nat (length cs) :: 32 word" cs])
      (simp_all add: WriteString_def WriteOneByteString_def [abs_def] OneByte one_byte_string_def)
next
  case (TwoByte cs)
  let ?n = "of_nat (length cs * 2) :: 32 word"
  let ?pad = "\<lambda>s. if odd (length (buffer s) + 1 + BytesNeededForVarint ?n) then WriteTag d kPadding s else Some s"
  have "emits ?pad (\<lambda>n. padding_bytes (StringObject f) n)"
    using WriteTag_emits [OF assms, of kPadding] by (auto simp: emits_def TwoByte)
  from emits_bind [OF this emits_bind [OF WriteTag_emits [OF assms, of kTwoByteString]
        emits_bind [OF WriteVarint_emits [OF assms, of ?n] WriteRawBytes_emits [OF assms, of "uc16_bytes cs"]]]]
  show ?thesis
    by (rule emits_cong) (simp_all add: WriteString_def WriteTwoByteString_def [abs_def] TwoByte two_byte_string_def Let_def)
qed

lemma WriteBigInt_emits:
  assumes "good_delegate d" and "canonical x"
  shows "emits (WriteBigInt d x) (\<lambda>n. value_bytes (BigIntObject x))"
proof -
  have len: "length (SerializeDigits x) = DigitsByteLengthForBitfield (GetBitfieldForSerialization x)"
    using bitfield_roundtrip(2) [OF assms(2)] by (simp add: length_SerializeDigits)
  from emits_bind [OF WriteTag_emits [OF assms(1), of kBigInt]
      emits_bind [OF WriteVarint_emits [OF assms(1), of "GetBitfieldForSerialization x"] reserve_emits [OF assms(1) len]]]
  show ?thesis by (rule emits_cong) (simp_all add: WriteBigInt_def WriteBigIntContents_def bigint_contents_def Let_def)
qed

lemma write_primitive_emits:
  assumes "good_delegate d" and "storable v"
  shows "emits (write_primitive d v) (\<lambda>n. padding_bytes v n @ value_bytes v)"
proof (cases v)
  case (Oddball kind)
  show ?thesis
    by (rule emits_cong [OF WriteTag_emits [OF assms(1)], of
          "case kind of OddballUndefined \<Rightarrow> kUndefined_tag | OddballFalse \<Rightarrow> kFalse | OddballTrue \<Rightarrow> kTrue | OddballNull \<Rightarrow> kNull"])
      (simp_all add: Oddball write_primitive_def WriteOddball_def)
next
  case (Smi n)
  from emits_bind [OF WriteTag_emits [OF assms(1), of kInt32] WriteVarint_emits [OF assms(1), of "push_bit 1 n XOR signed_drop_bit 31 n"]]
  show ?thesis by (rule emits_cong) (simp_all add: Smi write_primitive_def WriteSmi_def WriteZigZag_def zigzag_def)
next
  case (HeapNumber n)
  from emits_bind [OF WriteTag_emits [OF assms(1), of kDouble] WriteRawBytes_emits [OF assms(1), of "digit_bytes n"]]
  show ?thesis by (rule emits_cong) (simp_all add: HeapNumber write_primitive_def WriteHeapNumber_def WriteDouble_def)
next
  case (BigIntObject x)
  with WriteBigInt_emits [OF assms(1), of x] assms(2) show ?thesis by (simp add: write_primitive_def emits_def)
next
  case (StringObject f)
  with WriteString_emits [OF assms(1), of f] show ?thesis by (simp add: write_primitive_def emits_def)
qed

lemma map_read_enc: "read r = Some (Some v, r') \<Longrightarrow> map_read f read r = Some (Some (f v), r')"
  by (simp add: map_read_def)

lemma ReadObjectInternal_enc:
  assumes "serializable v" and "data r = pre @ (padding_bytes v n @ value_bytes v) @ post" and "position r = length pre"
  shows "ReadObjectInternal other junk r = Some (Some v, advance (length (padding_bytes v n @ value_bytes v)) r)"
proof -
  obtain k t body where k: "padding_bytes v n = replicate k kPadding" and t: "value_bytes v = t # body" "t \<noteq> kPadding"
  proof -
    have "\<exists>k. padding_bytes v n = replicate k kPadding" by (cases v) (auto simp: exI [of _ 0])
    moreover have "\<exists>t body. value_bytes v = t # body \<and> t \<noteq> kPadding"
    proof (cases v)
      case (Oddball kind)
      then show ?thesis by (cases kind) (simp_all add: tags)
    next
      case (StringObject f)
      then show ?thesis by (cases f) (simp_all add: tags)
    qed (simp_all add: tags)
    ultimately show ?thesis using that by blast
  qed
  let ?r = "advance (k + 1) r"
  have tag: "ReadTag r = (Some t, ?r)" by (rule ReadTag_enc) (use assms(2,3) k t in simp_all)
  have d: "data ?r = (pre @ replicate k kPadding @ [t]) @ body @ post" "position ?r = length (pre @ replicate k kPadding @ [t])"
    using assms(2,3) k t by simp_all
  have len: "length (padding_bytes v n @ value_bytes v) = k + 1 + length body" using k t by simp
  show ?thesis
  proof (cases v)
    case (HeapNumber w)
    then show ?thesis using assms(1) by simp
  next
    case (Oddball kind)
    then show ?thesis using tag t len by (cases kind) (auto simp: ReadObjectInternal_def tags)
  next
    case (Smi w)
    then have "t = kInt32" "body = zigzag w" using t by auto
    with zigzag.read_enc [OF _ d(1) [unfolded this(2)] d(2)] show ?thesis
      unfolding len by (simp add: ReadObjectInternal_def tag map_read_enc tags Smi)
  next
    case (BigIntObject x)
    then have "t = kBigInt" "body = bigint_contents x" using t by auto
    with bigint_contents.read_enc [OF _ d(1) [unfolded this(2)] d(2)] assms(1) show ?thesis
      unfolding len by (simp add: ReadObjectInternal_def tag map_read_enc tags BigIntObject)
  next
    case (StringObject f)
    show ?thesis
    proof (cases f)
      case (OneByte cs)
      then have "t = kOneByteString" "body = one_byte_string cs" using t StringObject by auto
      with one_byte_string.read_enc [OF _ d(1) [unfolded this(2)] d(2)] assms(1) show ?thesis
        unfolding len by (simp add: ReadObjectInternal_def tag map_read_enc tags StringObject OneByte)
    next
      case (TwoByte cs)
      then have "t = kTwoByteString" "body = two_byte_string cs" using t StringObject by auto
      with two_byte_string.read_enc [OF _ d(1) [unfolded this(2)] d(2)] assms(1) show ?thesis
        unfolding len by (simp add: ReadObjectInternal_def tag map_read_enc tags StringObject TwoByte)
    qed
  qed
qed

interpretation primitives: wire_format value_bytes serializable "ReadObjectInternal other junk"
proof unfold_locales
  fix v :: Primitive and r :: ValueDeserializer and pre post
  assume v: "serializable v" and d: "data r = pre @ value_bytes v @ post" "position r = length pre"
  have "\<exists>n. padding_bytes v n = []"
  proof (cases v)
    case (StringObject f)
    have "\<exists>n. padded f n = 0" by (cases f) (auto intro: exI [of _ "Suc (BytesNeededForVarint _)"])
    then show ?thesis by (auto simp: StringObject)
  qed simp_all
  then obtain n where "padding_bytes v n = []" by blast
  with ReadObjectInternal_enc [OF v, of r pre n post other junk] d show "ReadObjectInternal other junk r = Some (Some v, advance (length (value_bytes v)) r)"
    by simp
qed

lemma ReadDouble_enc:
  assumes "data r = pre @ digit_bytes v @ post" and "position r = length pre"
  shows "ReadDouble r =
    (if (8 + length post) mod 2 ^ 32 < 8 then (None, r) else (Some (if isnan v then quiet_NaN else v), advance 8 r))"
proof -
  have "unat (of_nat (8 + length post) :: 32 word) = (8 + length post) mod 2 ^ 32" by (simp only: unat_of_nat) simp
  with assms show ?thesis by (simp add: ReadDouble_def Let_def del: of_nat_add)
qed

lemma ReadObjectInternal_at_end:
  assumes "storable v" and "data r = pre @ padding_bytes v n @ value_bytes v" and "position r = length pre"
  shows "ReadObjectInternal other junk r = Some (Some (read_back v), advance (length (padding_bytes v n @ value_bytes v)) r)"
proof (cases "serializable v")
  case True
  moreover from this have "read_back v = v" by (cases v) simp_all
  ultimately show ?thesis using ReadObjectInternal_enc [of v r pre n "[]"] assms(2,3) by simp
next
  case False
  then obtain w where v: "v = HeapNumber w" using assms(1) by (cases v) simp_all
  have tag: "ReadTag r = (Some kDouble, advance 1 r)"
    using ReadTag_enc [of r pre 0 kDouble "digit_bytes w"] assms(2,3) by (simp add: v tags)
  have "ReadDouble (advance 1 r) = (Some (if isnan w then quiet_NaN else w), advance 8 (advance 1 r))"
    using ReadDouble_enc [of "advance 1 r" "pre @ [kDouble]" w "[]"] assms(2,3) by (simp add: v)
  then show ?thesis using tag by (simp add: ReadObjectInternal_def v map_read_def tags)
qed

lemma reader_positions:
  "ReadTag r = (t, r') \<Longrightarrow> r' = r\<lparr>position := position r'\<rparr>"
  "ReadVarintLoop r = (v, r') \<Longrightarrow> r' = r\<lparr>position := position r'\<rparr>"
  "ReadRawBytes n r = (b, r') \<Longrightarrow> r' = r\<lparr>position := position r'\<rparr>"
  by (auto simp: ReadTag_def ReadVarintLoop_def ReadRawBytes_def advance_def split: prod.splits if_splits)

lemma ReadExpectedString_cases:
  fixes r :: ValueDeserializer
  shows "\<exists>matches r'. ReadExpectedString expected r = Some (matches, r') \<and>
      (matches \<or> r' = r \<or> (fst (ReadTag r) = None \<and> r' = snd (ReadTag r)) \<or>
       (ReadVarintLoop (snd (ReadTag r)) = (None :: 32 word option, r')))"
proof -
  obtain t r1 where r1: "ReadTag r = (t, r1)" by fastforce
  obtain n :: "32 word option" and r2 where r2: "ReadVarintLoop r1 = (n, r2)" by fastforce
  show ?thesis
  proof (cases "t = None \<or> n = None")
    case True
    then show ?thesis using r1 r2 by (cases t) (auto simp: ReadExpectedString_def ReadVarint_eq_loop Let_def)
  next
    case False
    then obtain tag len where tag: "t = Some tag" "n = Some len" by auto
    obtain b r3 where r3: "ReadRawBytes (unat len) r2 = (b, r3)" by fastforce
    have "r3\<lparr>position := position r\<rparr> = r"
      using reader_positions(1) [OF r1] reader_positions(2) [OF r2] reader_positions(3) [OF r3] by (cases r, cases r1, cases r2, cases r3) simp
    then show ?thesis
      using r1 r2 r3 tag by (cases b) (auto simp: ReadExpectedString_def ReadVarint_eq_loop Let_def)
  qed
qed

section \<open>Properties\<close>

text \<open>
  C29.  The manually unrolled fast path of the varint reader never reads outside of the data, and returns the same
  value and stops at the same position as the loop it replaces, for every input.
\<close>
theorem ReadVarint_unrolled_equivalent:
  "ReadVarint r = Some (ReadVarintLoop r :: 32 word option \<times> ValueDeserializer)"
  by (rule ReadVarint_eq_loop)

text \<open>
  C8.  Under a delegate that provides at least the requested capacity, writing a primitive value never leaves the buffer; it
  keeps the buffer within its capacity and reports success exactly when memory was not exhausted, and then reading at
  the old end of the buffer returns the value (a number stored as a double may come back as a Smi, and a NaN as the
  quiet NaN) and consumes all that was written, whatever precedes it.
\<close>
theorem WriteObject_roundtrip:
  assumes "good_delegate d" and "storable v" and "well_formed s"
  shows "\<exists>ok s'. WriteObject d v s = Some (ok, s') \<and> well_formed s' \<and> ok = (\<not> out_of_memory s') \<and>
    (ok \<longrightarrow> ReadObjectInternal other junk \<lparr>data = buffer s', position = length (buffer s), version = ver\<rparr> =
       Some (Some (read_back v), \<lparr>data = buffer s', position = length (buffer s'), version = ver\<rparr>))"
proof (cases "out_of_memory s")
  case True
  then show ?thesis using assms(3) by (auto simp: WriteObject_def ThrowIfOutOfMemory_def)
next
  case False
  let ?bs = "padding_bytes v (length (buffer s)) @ value_bytes v"
  from write_primitive_emits [OF assms(1,2)] assms(3) obtain s' where s': "write_primitive d v s = Some s'" "well_formed s'"
    "\<not> out_of_memory s' \<Longrightarrow> buffer s' = buffer s @ ?bs" by (rule emitsE) blast
  have "WriteObject d v s = Some (\<not> out_of_memory s', s')"
    using False s'(1) by (cases v) (simp_all add: WriteObject_def write_primitive_def ThrowIfOutOfMemory_def)
  moreover have "ReadObjectInternal other junk \<lparr>data = buffer s', position = length (buffer s), version = ver\<rparr> =
       Some (Some (read_back v), \<lparr>data = buffer s', position = length (buffer s'), version = ver\<rparr>)" if "\<not> out_of_memory s'"
    using s'(3) [OF that] by (subst ReadObjectInternal_at_end [OF assms(2), of _ "buffer s" "length (buffer s)"]) (simp_all add: advance_def)
  ultimately show ?thesis using s'(2) by auto
qed

theorem WriteObject_roundtrip_witness:
  "\<exists>ok s'. WriteObject \<lparr>realloc = Some, uninitialized = \<lambda>_. 7\<rparr> (Smi 5) \<lparr>buffer = [1], buffer_capacity = 1, out_of_memory = False\<rparr> = Some (ok, s') \<and>
    well_formed s' \<and> ok = (\<not> out_of_memory s') \<and>
    (ok \<longrightarrow> ReadObjectInternal (\<lambda>_ _. None) (\<lambda>_. 9) \<lparr>data = buffer s', position = length (buffer \<lparr>buffer = [1 :: byte], buffer_capacity = 1, out_of_memory = False\<rparr>), version = 15\<rparr> =
       Some (Some (read_back (Smi 5)), \<lparr>data = buffer s', position = length (buffer s'), version = 15\<rparr>))"
  by (rule WriteObject_roundtrip) (simp_all add: good_delegate_def well_formed_def)



text \<open>
  C31.  Matching an expected string never reads outside of the data.  It either succeeds, or
  fails and restores the reader, or fails because the tag or the length cannot be read: then the bytes already consumed
  stay consumed, as the last conjunct shows on a stream that ends after the tag.
\<close>
theorem ReadExpectedString_position:
  "(\<exists>matches r'. ReadExpectedString expected r = Some (matches, r') \<and>
      (matches \<or> r' = r \<or> (fst (ReadTag r) = None \<and> r' = snd (ReadTag r)) \<or>
       (ReadVarintLoop (snd (ReadTag r)) = (None :: 32 word option, r')))) \<and>
   ReadExpectedString (OneByte [0x61]) \<lparr>data = [kOneByteString], position = 0, version = 15\<rparr> =
     Some (False, \<lparr>data = [kOneByteString], position = 1, version = 15\<rparr>)"
proof (rule conjI)
  show "\<exists>matches r'. ReadExpectedString expected r = Some (matches, r') \<and>
      (matches \<or> r' = r \<or> (fst (ReadTag r) = None \<and> r' = snd (ReadTag r)) \<or>
       (ReadVarintLoop (snd (ReadTag r)) = (None :: 32 word option, r')))"
    by (rule ReadExpectedString_cases)
qed (simp add: ReadExpectedString_def ReadTag_def ReadTag_from.simps ReadVarint_eq_loop ReadVarintLoop_def
      ReadVarintLoop_from.simps tags)

end
