(* ===== verification/Bigint_Mul.thy ===== *)
theory Bigint_Mul
  imports Bigint_Vector
begin

text \<open>
  \<open>bigint/bigint-internal.h\<close> (the processor object and its work accounting) and \<open>bigint/mul-schoolbook.cc\<close>.
  The processor is a record passed through every method; the platform is the sequence of answers that its
  \<open>InterruptRequested\<close> hook gives to successive queries.  Schoolbook multiplication is proved to stay in
  bounds and to return the product, for every state of the processor.
\<close>

section \<open>Temporary storage and views of digit vectors\<close>

definition ScratchDigits :: "(nat \<Rightarrow> digit_t) \<Rightarrow> nat \<Rightarrow> digits" where
  "ScratchDigits junk len = map junk [0..<len]"

definition at_offset :: "nat \<Rightarrow> (digits \<Rightarrow> (digits \<times> 'r) option) \<Rightarrow> digits \<Rightarrow> (digits \<times> 'r) option" where
  "at_offset j f U =
     (if j \<le> length U then do { (W, r) \<leftarrow> f (drop j U); Some (take j U @ W, r) } else None)"

section \<open>Low digits\<close>

lemma dval_mod: "dval X mod digit_base ^ k = dval (take k X)"
proof (cases "k \<le> length X")
  case True
  then have "dval (take k X) < digit_base ^ k" using dval_lt [of "take k X"] by simp
  with dval_take_drop [of X k] show ?thesis by simp
next
  case False
  have "dval X < digit_base ^ length X" by (rule dval_lt)
  also have "\<dots> \<le> digit_base ^ k" using False by (intro power_increasing) (simp_all add: Suc_leI)
  finally show ?thesis using False by simp
qed

lemma Normalize_length_le: "dval X < digit_base ^ n \<Longrightarrow> length (Normalize X) \<le> n"
proof (rule ccontr)
  assume lt: "dval X < digit_base ^ n" and "\<not> length (Normalize X) \<le> n"
  then have "n \<le> length (Normalize X) - 1" "Normalize X \<noteq> []" by auto
  then have "digit_base ^ n \<le> digit_base ^ (length (Normalize X) - 1)" by (intro power_increasing) (simp_all add: Suc_leI)
  also have "\<dots> \<le> dval (Normalize X)" using \<open>Normalize X \<noteq> []\<close> by (intro dval_ge_normalized IsDigitNormalized_Normalize)
  finally show False using lt by (simp add: dval_Normalize)
qed

section \<open>The processor\<close>

datatype Status = kOk | kInterrupted

record ProcessorImpl =
  work_estimate :: digit_t
  status :: Status
  platform :: "nat \<Rightarrow> bool"
  queries :: nat

definition kWorkEstimateThreshold :: digit_t where
  "kWorkEstimateThreshold = 5000000"

definition ProcessorImpl_new :: "(nat \<Rightarrow> bool) \<Rightarrow> ProcessorImpl" where
  "ProcessorImpl_new platform0 = \<lparr>work_estimate = 0, status = kOk, platform = platform0, queries = 0\<rparr>"

definition get_and_clear_status :: "ProcessorImpl \<Rightarrow> Status \<times> ProcessorImpl" where
  "get_and_clear_status p = (status p, p\<lparr>status := kOk\<rparr>)"

definition should_terminate :: "ProcessorImpl \<Rightarrow> bool" where
  "should_terminate p \<longleftrightarrow> status p = kInterrupted"

definition AddWorkEstimate :: "digit_t \<Rightarrow> ProcessorImpl \<Rightarrow> ProcessorImpl" where
  "AddWorkEstimate estimate p =
     (let p = p\<lparr>work_estimate := work_estimate p + estimate\<rparr>
      in if work_estimate p \<ge> kWorkEstimateThreshold
         then (let p = p\<lparr>work_estimate := 0\<rparr>;
                   requested = platform p (queries p);
                   p = p\<lparr>queries := queries p + 1\<rparr>
               in if requested then p\<lparr>status := kInterrupted\<rparr> else p)
         else p)"

definition MultiplySingle :: "ProcessorImpl \<Rightarrow> digits \<Rightarrow> digits \<Rightarrow> digit_t \<Rightarrow> (ProcessorImpl \<times> digits) option" where
  "MultiplySingle p Z X y = do {
     (Z, high, carry) \<leftarrow> for_up 0 (length X) (\<lambda>i (Z, high, carry). do {
       x \<leftarrow> rd X i;
       let (low, new_high) = digit_mul x y;
       let (z, carry) = digit_add3 low high carry;
       Z \<leftarrow> wr Z i z;
       Some (Z, new_high, carry) }) (Z, 0, 0);
     let p = AddWorkEstimate (of_nat (length X)) p;
     Z \<leftarrow> wr Z (length X) (carry + high);
     Z \<leftarrow> zero_from (length X + 1) Z;
     Some (p, Z) }"

definition BODY_step :: "digits \<Rightarrow> digits \<Rightarrow> nat \<Rightarrow> nat \<Rightarrow> digit_t \<times> digit_t \<times> digit_t \<times> digit_t \<Rightarrow>
    (digit_t \<times> digit_t \<times> digit_t \<times> digit_t) option" where
  "BODY_step X Y i j = (\<lambda>(zi, next, next_carry, carry). do {
     x \<leftarrow> rd X j;
     y \<leftarrow> rd Y (i - j);
     let (low, high) = digit_mul x y;
     let (zi, carrybit) = digit_add2 zi low;
     let carry = carry + carrybit;
     let (next, carrybit) = digit_add2 next high;
     let next_carry = next_carry + carrybit;
     Some (zi, next, next_carry, carry) })"

definition BODY :: "digits \<Rightarrow> digits \<Rightarrow> nat \<Rightarrow> nat \<Rightarrow> nat \<Rightarrow> digits \<Rightarrow> digit_t \<times> digit_t \<times> digit_t \<times> digit_t \<Rightarrow>
    (digits \<times> digit_t \<times> digit_t \<times> digit_t) option" where
  "BODY X Y i min_j max_j Z s = do {
     (zi, next, next_carry, carry) \<leftarrow> for_up min_j (max_j + 1) (BODY_step X Y i) s;
     Z \<leftarrow> wr Z i zi;
     Some (Z, next, next_carry, carry) }"

definition school_main_step :: "digits \<Rightarrow> digits \<Rightarrow> nat \<Rightarrow> ProcessorImpl \<times> digits \<times> digit_t \<times> digit_t \<times> digit_t \<Rightarrow>
    (ProcessorImpl \<times> digits \<times> digit_t \<times> digit_t \<times> digit_t) option" where
  "school_main_step X Y i = (\<lambda>(p, Z, next, next_carry, carry). do {
     let (zi, carry) = digit_add2 next carry;
     let next = next_carry + carry;
     let carry = 0;
     let next_carry = 0;
     (Z, next, next_carry, carry) \<leftarrow> BODY X Y i 0 i Z (zi, next, next_carry, carry);
     Some (AddWorkEstimate (of_nat i) p, Z, next, next_carry, carry) })"

definition school_last_step :: "digits \<Rightarrow> digits \<Rightarrow> nat \<Rightarrow> ProcessorImpl \<times> digits \<times> digit_t \<times> digit_t \<times> digit_t \<Rightarrow>
    (ProcessorImpl \<times> digits \<times> digit_t \<times> digit_t \<times> digit_t) option" where
  "school_last_step X Y i = (\<lambda>(p, Z, next, next_carry, carry). do {
     let max_x_index = min i (length X - 1);
     let max_y_index = length Y - 1;
     let min_x_index = i - max_y_index;
     let (zi, carry) = digit_add2 next carry;
     let next = next_carry + carry;
     let carry = 0;
     let next_carry = 0;
     (Z, next, next_carry, carry) \<leftarrow> BODY X Y i min_x_index max_x_index Z (zi, next, next_carry, carry);
     Some (AddWorkEstimate (of_nat (max_x_index - min_x_index)) p, Z, next, next_carry, carry) })"

definition MultiplySchoolbook :: "ProcessorImpl \<Rightarrow> digits \<Rightarrow> digits \<Rightarrow> digits \<Rightarrow> (ProcessorImpl \<times> digits) option" where
  "MultiplySchoolbook p Z X Y =
     (if length X = 0 \<or> length Y = 0 then Some (p, Clear Z)
      else do {
        x0 \<leftarrow> rd X 0;
        y0 \<leftarrow> rd Y 0;
        let (z0, next) = digit_mul x0 y0;
        let next_carry = 0;
        let carry = 0;
        Z \<leftarrow> wr Z 0 z0;
        let i = 1;
        (Z, next, next_carry, carry, i) \<leftarrow>
          (if i < length Y then do {
             let zi = next;
             let next = 0;
             (Z, next, next_carry, carry) \<leftarrow> BODY X Y i 0 1 Z (zi, next, next_carry, carry);
             Some (Z, next, next_carry, carry, i + 1)
           } else Some (Z, next, next_carry, carry, i));
        (p, Z, next, next_carry, carry) \<leftarrow> for_up i (length Y) (school_main_step X Y) (p, Z, next, next_carry, carry);
        let i = max i (length Y);
        let loop_end = length X + length Y - 2;
        (p, Z, next, next_carry, carry) \<leftarrow> for_up i (loop_end + 1) (school_last_step X Y) (p, Z, next, next_carry, carry);
        let i = max i (loop_end + 1);
        let (z, carry) = digit_add2 next carry;
        Z \<leftarrow> wr Z i z;
        Z \<leftarrow> zero_from (i + 1) Z;
        Some (p, Z) })"

section \<open>MultiplySingle\<close>

lemma digit_mul_high_lt: "digit_mul a b = (low, high) \<Longrightarrow> unat high + 2 \<le> digit_base"
proof -
  assume "digit_mul a b = (low, high)"
  then have e: "unat low + digit_base * unat high = unat a * unat b" by (rule digit_mul_eq)
  have "unat a \<le> digit_base - 1" "unat b \<le> digit_base - 1"
    using unat_lt_base [of a] unat_lt_base [of b] by simp_all
  then have "unat a * unat b \<le> (digit_base - 1) * (digit_base - 1)" by (rule mult_le_mono)
  then have le: "digit_base * unat high \<le> (digit_base - 1) * (digit_base - 1)" using e by linarith
  show ?thesis
  proof (rule ccontr)
    assume "\<not> unat high + 2 \<le> digit_base"
    then have "digit_base - 1 \<le> unat high" by simp
    then have "digit_base * (digit_base - 1) \<le> digit_base * unat high" by simp
    with le have "digit_base * (digit_base - 1) \<le> (digit_base - 1) * (digit_base - 1)" by linarith
    then have "digit_base \<le> digit_base - 1" by (simp add: digit_base_def)
    then show False by (simp add: digit_base_def)
  qed
qed

lemma mul_single_step:
  assumes "digit_mul x y = (low, new_high)" and "digit_add3 low high carry = (z, carry')"
    and "digits + p * (unat high + unat carry) = v * unat y"
  shows "digits + p * unat z + p * digit_base * (unat new_high + unat carry') = (v + p * unat x) * unat y"
proof -
  have "p * (unat low + digit_base * unat new_high) = p * (unat x * unat y)"
    using digit_mul_eq [OF assms(1)] by simp
  moreover have "p * (unat z + digit_base * unat carry') = p * (unat low + unat high + unat carry)"
    using digit_add3_eq [OF assms(2)] by simp
  ultimately show ?thesis using assms(3) by (simp add: algebra_simps)
qed

definition single_inv :: "digits \<Rightarrow> digits \<Rightarrow> digit_t \<Rightarrow> nat \<Rightarrow> digits \<times> digit_t \<times> digit_t \<Rightarrow> bool" where
  "single_inv Z0 X y k = (\<lambda>(Z, high, carry). length Z = length Z0 \<and>
     dval (take k Z) + digit_base ^ k * (unat high + unat carry) = dval (take k X) * unat y \<and>
     (k = 0 \<longrightarrow> high = 0 \<and> carry = 0))"

lemma MultiplySingle_spec:
  assumes "length X < length Z"
  shows "\<exists>p' Z'. MultiplySingle p Z X y = Some (p', Z') \<and> length Z' = length Z \<and> dval Z' = dval X * unat y"
proof -
  let ?n = "length X" and ?body = "\<lambda>i (Z, high, carry). do {
       x \<leftarrow> rd X i;
       let (low, new_high) = digit_mul x y;
       let (z, carry) = digit_add3 low high carry;
       Z \<leftarrow> wr Z i z;
       Some (Z, new_high, carry) }"
  have "ok (for_up 0 ?n ?body (Z, 0, 0)) (single_inv Z X y ?n)"
  proof (rule ok_for_up [where I = "single_inv Z X y"])
    fix k s assume k: "k < ?n" and inv: "single_inv Z X y k s"
    obtain Z1 high carry where s: "s = (Z1, high, carry)" by (cases s) auto
    obtain low new_high where m: "digit_mul (X ! k) y = (low, new_high)" by fastforce
    obtain z c where a: "digit_add3 low high carry = (z, c)" by fastforce
    from inv have len: "length Z1 = length Z"
      and eq: "dval (take k Z1) + digit_base ^ k * (unat high + unat carry) = dval (take k X) * unat y"
      by (simp_all add: single_inv_def s)
    have "single_inv Z X y (Suc k) (Z1[k := z], new_high, c)"
      using mul_single_step [OF m a eq] k len assms by (simp add: single_inv_def dval_take_Suc mult.commute)
    then show "ok (?body k s) (single_inv Z X y (Suc k))"
      using k len assms by (simp add: s m a)
  qed (simp_all add: single_inv_def)
  then obtain Z1 high carry where 1: "for_up 0 ?n ?body (Z, 0, 0) = Some (Z1, high, carry)"
    and inv: "single_inv Z X y ?n (Z1, high, carry)" by (auto dest!: okE)
  from inv have len: "length Z1 = length Z"
    and eq: "dval (take ?n Z1) + digit_base ^ ?n * (unat high + unat carry) = dval X * unat y"
    by (simp_all add: single_inv_def)
  have "dval X * unat y < digit_base ^ ?n * digit_base"
    using mult_strict_mono [OF dval_lt unat_lt_base, of X y] by simp
  then have "digit_base ^ ?n * (unat high + unat carry) < digit_base ^ ?n * digit_base" using eq by linarith
  then have "unat carry + unat high < digit_base" by simp
  from unat_digit_plus [OF this] have top: "unat (carry + high) = unat carry + unat high" .
  let ?Z = "take ?n Z1 @ (carry + high) # replicate (length Z - ?n - 1) 0"
  have "zero_from (?n + 1) (Z1[?n := carry + high]) = Some ?Z"
    using assms len by (simp add: zero_from_eq)
  then have "MultiplySingle p Z X y = Some (AddWorkEstimate (of_nat ?n) p, ?Z)"
    using 1 assms len by (simp add: MultiplySingle_def wr_def)
  moreover have "dval ?Z = dval X * unat y" using eq top assms len by (simp add: algebra_simps)
  ultimately show ?thesis using assms len by simp
qed

section \<open>MultiplySchoolbook\<close>

text \<open>The sum of the products that belong to the first \<open>i\<close> columns.\<close>

definition columns :: "digits \<Rightarrow> digits \<Rightarrow> nat \<Rightarrow> nat" where
  "columns X Y i = (\<Sum>j<length X. unat (X ! j) * digit_base ^ j * dval (take (i - j) Y))"

lemma dval_sum: "dval X = (\<Sum>j<length X. unat (X ! j) * digit_base ^ j)"
proof (induction X rule: rev_induct)
  case (snoc x X)
  then show ?case by (simp add: nth_append mult.commute)
qed simp

lemma columns_all: "length X + length Y \<le> Suc i \<Longrightarrow> columns X Y i = dval X * dval Y"
  unfolding columns_def dval_sum [of X] by (simp add: sum_distrib_right)

lemma columns_0 [simp]: "columns X Y 0 = 0"
  by (simp add: columns_def)

lemma columns_Suc:
  assumes "{j. j < length X \<and> j \<le> i \<and> i - j < length Y} = {lo..<hi}"
  shows "columns X Y (Suc i) = columns X Y i + digit_base ^ i * (\<Sum>j\<in>{lo..<hi}. unat (X ! j) * unat (Y ! (i - j)))"
proof -
  have step: "unat (X ! j) * digit_base ^ j * dval (take (Suc i - j) Y) =
      unat (X ! j) * digit_base ^ j * dval (take (i - j) Y) +
      (if j \<le> i \<and> i - j < length Y then digit_base ^ i * (unat (X ! j) * unat (Y ! (i - j))) else 0)" for j
  proof (cases "j \<le> i \<and> i - j < length Y")
    case True
    then have p: "digit_base ^ i = digit_base ^ j * digit_base ^ (i - j)" by (simp flip: power_add)
    have t: "dval (take (Suc i - j) Y) = dval (take (i - j) Y) + digit_base ^ (i - j) * unat (Y ! (i - j))"
      using True by (simp add: Suc_diff_le dval_take_Suc)
    show ?thesis unfolding if_P [OF True] t p by (simp only: distrib_left mult_ac)
  next
    case False
    then have "take (Suc i - j) Y = take (i - j) Y" by (cases "j \<le> i") auto
    then show ?thesis unfolding if_not_P [OF False] by simp
  qed
  define f where "f j = digit_base ^ i * (unat (X ! j) * unat (Y ! (i - j)))" for j
  have "columns X Y (Suc i) = columns X Y i + (\<Sum>j<length X. if j \<le> i \<and> i - j < length Y then f j else 0)"
    unfolding columns_def sum.distrib [symmetric] f_def by (rule sum.cong [OF refl]) (rule step)
  also have "(\<Sum>j<length X. if j \<le> i \<and> i - j < length Y then f j else 0) = (\<Sum>j\<in>{lo..<hi}. f j)"
    unfolding sum.inter_filter [OF finite_lessThan, symmetric] using assms by (intro sum.cong) auto
  finally show ?thesis unfolding f_def by (simp only: sum_distrib_left)
qed

lemma BODY_step_spec:
  assumes "digit_mul x y = (low, high)" and "digit_add2 zi low = (zi', b1)" and "digit_add2 next high = (next', b2)"
    and "unat c + 1 < digit_base" and "unat nc + 1 < digit_base"
  shows "unat zi' + digit_base * (unat (c + b1) + unat next') + digit_base * digit_base * unat (nc + b2) =
      unat zi + digit_base * (unat c + unat next) + digit_base * digit_base * unat nc + unat x * unat y"
    and "unat (c + b1) \<le> unat c + 1" and "unat (nc + b2) \<le> unat nc + 1"
proof -
  have b: "unat b1 \<le> 1" "unat b2 \<le> 1" using add2_carry_le [OF assms(2)] add2_carry_le [OF assms(3)] by simp_all
  have p: "unat (c + b1) = unat c + unat b1" "unat (nc + b2) = unat nc + unat b2"
    using b assms(4,5) by (simp_all add: unat_digit_plus)
  show "unat (c + b1) \<le> unat c + 1" "unat (nc + b2) \<le> unat nc + 1" using b p by simp_all
  have "digit_base * (unat next' + digit_base * unat b2) = digit_base * (unat next + unat high)"
    using digit_add2_eq [OF assms(3)] by simp
  then show "unat zi' + digit_base * (unat (c + b1) + unat next') + digit_base * digit_base * unat (nc + b2) =
      unat zi + digit_base * (unat c + unat next) + digit_base * digit_base * unat nc + unat x * unat y"
    using digit_mul_eq [OF assms(1)] digit_add2_eq [OF assms(2)] unfolding p by (simp add: algebra_simps)
qed

definition body_inv :: "digits \<Rightarrow> digits \<Rightarrow> nat \<Rightarrow> nat \<Rightarrow> nat \<Rightarrow> nat \<Rightarrow> digit_t \<times> digit_t \<times> digit_t \<times> digit_t \<Rightarrow> bool" where
  "body_inv X Y i lo v k = (\<lambda>(zi, next, nc, c).
     unat zi + digit_base * (unat c + unat next) + digit_base * digit_base * unat nc =
       v + (\<Sum>j\<in>{lo..<k}. unat (X ! j) * unat (Y ! (i - j))) \<and>
     unat c + lo \<le> k \<and> unat nc + lo \<le> k)"

lemma BODY_loop_spec:
  assumes "lo \<le> Suc hi" and "hi < length X" and "i - lo < length Y" and "length X < digit_base"
  shows "ok (for_up lo (hi + 1) (BODY_step X Y i) (zi, next, 0, 0)) (body_inv X Y i lo (unat zi + digit_base * unat next) (hi + 1))"
proof (rule ok_for_up [where I = "body_inv X Y i lo (unat zi + digit_base * unat next)"])
  fix k s assume k: "lo \<le> k" "k < hi + 1" and inv: "body_inv X Y i lo (unat zi + digit_base * unat next) k s"
  obtain zi1 n1 nc c where s: "s = (zi1, n1, nc, c)" by (cases s) auto
  obtain low high where m: "digit_mul (X ! k) (Y ! (i - k)) = (low, high)" by fastforce
  obtain zi' b1 where a: "digit_add2 zi1 low = (zi', b1)" by fastforce
  obtain n' b2 where b: "digit_add2 n1 high = (n', b2)" by fastforce
  from inv have c: "unat c + lo \<le> k" "unat nc + lo \<le> k" by (simp_all add: body_inv_def s)
  then have c': "unat c + 1 < digit_base" "unat nc + 1 < digit_base" using k assms(2,4) by simp_all
  note st = BODY_step_spec [OF m a b c']
  have "i - k < length Y" using assms(3) k(1) by simp
  moreover have "body_inv X Y i lo (unat zi + digit_base * unat next) (Suc k) (zi', n', nc + b2, c + b1)"
    using inv st c k(1) by (simp add: body_inv_def s)
  ultimately show "ok (BODY_step X Y i k s) (body_inv X Y i lo (unat zi + digit_base * unat next) (Suc k))"
    using k assms(2) by (simp add: BODY_step_def s m a b)
qed (use assms(1) in \<open>simp_all add: body_inv_def\<close>)

definition school_inv :: "digits \<Rightarrow> digits \<Rightarrow> digits \<Rightarrow> nat \<Rightarrow> digits \<times> digit_t \<times> digit_t \<times> digit_t \<Rightarrow> bool" where
  "school_inv Z0 X Y i = (\<lambda>(Z, next, nc, c). length Z = length Z0 \<and>
     dval (take i Z) + digit_base ^ i * (unat next + unat c + digit_base * unat nc) = columns X Y i \<and>
     unat c \<le> length X \<and> unat nc \<le> length X)"

lemma BODY_spec:
  assumes "{j. j < length X \<and> j \<le> i \<and> i - j < length Y} = {lo..<hi + 1}" and "lo \<le> hi" and "i < length Z"
    and "length X < digit_base" and "length Z = length Z0"
    and "dval (take i Z) + digit_base ^ i * (unat zi + digit_base * unat next) = columns X Y i"
  shows "ok (BODY X Y i lo hi Z (zi, next, 0, 0)) (school_inv Z0 X Y (Suc i))"
proof -
  have "hi \<in> {j. j < length X \<and> j \<le> i \<and> i - j < length Y}" "lo \<in> {j. j < length X \<and> j \<le> i \<and> i - j < length Y}"
    unfolding assms(1) using assms(2) by simp_all
  then have r: "lo \<le> Suc hi" "hi < length X" "i - lo < length Y" using assms(2) by simp_all
  from BODY_loop_spec [OF r assms(4), of zi "next"]
  obtain zi' n' nc c where 1: "for_up lo (hi + 1) (BODY_step X Y i) (zi, next, 0, 0) = Some (zi', n', nc, c)"
    and inv: "body_inv X Y i lo (unat zi + digit_base * unat next) (hi + 1) (zi', n', nc, c)" by (auto dest!: okE)
  define S where "S = (\<Sum>j\<in>{lo..<hi + 1}. unat (X ! j) * unat (Y ! (i - j)))"
  from inv have e: "unat zi' + digit_base * (unat c + unat n') + digit_base * digit_base * unat nc = unat zi + digit_base * unat next + S"
    and cs: "unat c + lo \<le> hi + 1" "unat nc + lo \<le> hi + 1"
    by (simp_all only: body_inv_def prod.case S_def)
  have "dval (take (Suc i) (Z[i := zi'])) + digit_base ^ Suc i * (unat n' + unat c + digit_base * unat nc) =
      dval (take i Z) + digit_base ^ i * (unat zi' + digit_base * (unat c + unat n') + digit_base * digit_base * unat nc)"
    using assms(3) by (simp add: algebra_simps)
  also have "\<dots> = columns X Y (Suc i)"
    unfolding e columns_Suc [OF assms(1), folded S_def] assms(6) [symmetric] by (simp only: distrib_left add.assoc)
  finally have "dval (take (Suc i) (Z[i := zi'])) + digit_base ^ Suc i * (unat n' + unat c + digit_base * unat nc) = columns X Y (Suc i)" .
  moreover have "unat c \<le> length X" "unat nc \<le> length X" using cs r(2) by linarith+
  ultimately have "school_inv Z0 X Y (Suc i) (Z[i := zi'], n', nc, c)"
    using assms(5) by (simp add: school_inv_def)
  with 1 assms(3) show ?thesis by (simp add: BODY_def wr_def)
qed

lemma column_spec:
  assumes "{j. j < length X \<and> j \<le> i \<and> i - j < length Y} = {lo..<hi + 1}" and "lo \<le> hi" and "i < length Z0"
    and "length X + 1 < digit_base" and "school_inv Z0 X Y i (Z, next, nc, c)" and "digit_add2 next c = (zi, c')"
  shows "ok (BODY X Y i lo hi Z (zi, nc + c', 0, 0)) (school_inv Z0 X Y (Suc i))"
proof (rule BODY_spec [OF assms(1,2)])
  from assms(5) have len: "length Z = length Z0" and nc: "unat nc \<le> length X"
    and eq: "dval (take i Z) + digit_base ^ i * (unat next + unat c + digit_base * unat nc) = columns X Y i"
    by (simp_all add: school_inv_def)
  have "unat (nc + c') = unat nc + unat c'"
    by (rule unat_digit_plus) (use nc add2_carry_le [OF assms(6)] assms(4) in linarith)
  moreover have "unat next + unat c = unat zi + digit_base * unat c'" using digit_add2_eq [OF assms(6)] by simp
  ultimately show "dval (take i Z) + digit_base ^ i * (unat zi + digit_base * unat (nc + c')) = columns X Y i"
    using eq by (simp add: algebra_simps)
  show "i < length Z" "length Z = length Z0" using len assms(3) by simp_all
qed (use assms(4) in simp)

lemma school_main_loop:
  assumes "i \<le> length Y" and "length Y \<le> length X" and "length X + length Y \<le> length Z0" and "length X + 1 < digit_base"
    and "school_inv Z0 X Y i s"
  shows "ok (for_up i (length Y) (school_main_step X Y) (p, s)) (\<lambda>(p', s'). school_inv Z0 X Y (length Y) s')"
proof (rule ok_for_up [where I = "\<lambda>k (p, s). school_inv Z0 X Y k s"])
  fix k and ps :: "ProcessorImpl \<times> digits \<times> digit_t \<times> digit_t \<times> digit_t"
  assume k: "k < length Y" and inv: "case ps of (p, s) \<Rightarrow> school_inv Z0 X Y k s"
  obtain p Z n nc c where ps: "ps = (p, Z, n, nc, c)" by (cases ps) auto
  obtain zi c' where a: "digit_add2 n c = (zi, c')" by fastforce
  have r: "{j. j < length X \<and> j \<le> k \<and> k - j < length Y} = {0..<k + 1}" using k assms(2) by auto
  have "ok (BODY X Y k 0 k Z (zi, nc + c', 0, 0)) (school_inv Z0 X Y (Suc k))"
    by (rule column_spec [OF r _ _ assms(4) _ a]) (use inv ps k assms(2,3) in auto)
  then show "ok (school_main_step X Y k ps) (\<lambda>(p, s). school_inv Z0 X Y (Suc k) s)"
    by (simp add: school_main_step_def ps a case_prod_beta')
qed (use assms in auto)

lemma school_last_loop:
  assumes "Y \<noteq> []" and "length Y \<le> length X" and "length X + length Y \<le> length Z0" and "length X + 1 < digit_base"
    and "school_inv Z0 X Y (length Y) s"
  shows "ok (for_up (length Y) (length X + length Y - 2 + 1) (school_last_step X Y) (p, s))
        (\<lambda>(p', s'). school_inv Z0 X Y (length X + length Y - 1) s')"
proof (rule ok_for_up [where I = "\<lambda>k (p, s). school_inv Z0 X Y k s"])
  have len: "0 < length Y" "0 < length X" using assms(1,2) by (cases Y, auto)+
  show "length Y \<le> length X + length Y - 2 + 1" using len by linarith
  fix k and ps :: "ProcessorImpl \<times> digits \<times> digit_t \<times> digit_t \<times> digit_t"
  assume k: "length Y \<le> k" "k < length X + length Y - 2 + 1" and inv: "case ps of (p, s) \<Rightarrow> school_inv Z0 X Y k s"
  obtain p Z n nc c where ps: "ps = (p, Z, n, nc, c)" by (cases ps) auto
  obtain zi c' where a: "digit_add2 n c = (zi, c')" by fastforce
  let ?lo = "k - (length Y - 1)" and ?hi = "min k (length X - 1)"
  have r: "{j. j < length X \<and> j \<le> k \<and> k - j < length Y} = {?lo..<?hi + 1}"
    using k len by (cases "length X"; cases "length Y") auto
  have "ok (BODY X Y k ?lo ?hi Z (zi, nc + c', 0, 0)) (school_inv Z0 X Y (Suc k))"
  proof (rule column_spec [OF r _ _ assms(4) _ a])
    show "k < length Z0" using k len assms(3) by linarith
    show "?lo \<le> ?hi" using k len by (cases "length X"; cases "length Y") auto
    show "school_inv Z0 X Y k (Z, n, nc, c)" using inv by (simp add: ps)
  qed
  then show "ok (school_last_step X Y k ps) (\<lambda>(p, s). school_inv Z0 X Y (Suc k) s)"
    by (simp add: school_last_step_def ps a Let_def case_prod_beta')
next
  have len: "0 < length Y" "0 < length X" using assms(1,2) by (cases Y, auto)+
  fix ps :: "ProcessorImpl \<times> digits \<times> digit_t \<times> digit_t \<times> digit_t"
  assume "case ps of (p, s) \<Rightarrow> school_inv Z0 X Y (length X + length Y - 2 + 1) s"
  moreover have "length X + length Y - 2 + 1 = length X + length Y - 1" using len by linarith
  ultimately show "case ps of (p', s') \<Rightarrow> school_inv Z0 X Y (length X + length Y - 1) s'" by simp
qed (use assms in auto)

lemma school_first_columns:
  assumes "Y \<noteq> []" and "length Y \<le> length X" and "length X + length Y \<le> length Z" and "length X + 1 < digit_base"
    and "digit_mul (X ! 0) (Y ! 0) = (z0, next)"
  shows "school_inv Z X Y 1 (Z[0 := z0], next, 0, 0)"
    and "1 < length Y \<Longrightarrow> ok (BODY X Y 1 0 1 (Z[0 := z0]) (next, 0, 0, 0)) (school_inv Z X Y (Suc 1))"
proof -
  have len: "0 < length Y" "0 < length X" "0 < length Z" using assms(1-3) by (cases Y, auto)+
  then have r: "{j. j < length X \<and> j \<le> 0 \<and> 0 - j < length Y} = {0..<1}" by auto
  have "columns X Y (Suc 0) = unat (X ! 0) * unat (Y ! 0)"
    using columns_Suc [OF r] by simp
  then have c1: "columns X Y 1 = unat z0 + digit_base * unat next" using digit_mul_eq [OF assms(5)] by simp
  have t: "take 1 (Z[0 := z0]) = [z0]" using take_Suc_update [of 0 Z z0] len(3) by simp
  show "school_inv Z X Y 1 (Z[0 := z0], next, 0, 0)"
    using c1 t by (simp add: school_inv_def del: One_nat_def)
  assume Y: "1 < length Y"
  show "ok (BODY X Y 1 0 1 (Z[0 := z0]) (next, 0, 0, 0)) (school_inv Z X Y (Suc 1))"
  proof (rule BODY_spec)
    show "{j. j < length X \<and> j \<le> 1 \<and> 1 - j < length Y} = {0..<1 + 1}" using Y assms(2) by auto
    show "dval (take 1 (Z[0 := z0])) + digit_base ^ 1 * (unat next + digit_base * unat (0 :: digit_t)) = columns X Y 1"
      unfolding t c1 by simp
  qed (use Y assms(2,3,4) in auto)
qed

lemma school_last_digit:
  assumes "school_inv Z0 X Y n (Z, next, nc, c)" and "n = length X + length Y - 1" and "Y \<noteq> []" and "X \<noteq> []"
    and "length X + length Y \<le> length Z0" and "digit_add2 next c = (z, c')"
  shows "\<exists>Z'. zero_from (n + 1) (Z[n := z]) = Some Z' \<and> length Z' = length Z0 \<and> dval Z' = dval X * dval Y"
proof -
  have n: "length X + length Y = Suc n" using assms(2-4) by (cases X) auto
  from assms(1) have len: "length Z = length Z0"
    and inv: "dval (take n Z) + digit_base ^ n * (unat next + unat c + digit_base * unat nc) = columns X Y n"
    by (simp_all add: school_inv_def)
  have z: "unat next + unat c + digit_base * unat nc = unat z + digit_base * (unat c' + unat nc)"
    using digit_add2_eq [OF assms(6)] by (simp add: distrib_left)
  have eq: "dval (take n Z) + digit_base ^ n * (unat z + digit_base * (unat c' + unat nc)) = dval X * dval Y"
    using inv columns_all [of X Y n] n by (simp only: z order_refl)
  have "dval X * dval Y < digit_base ^ length X * digit_base ^ length Y"
    using dval_lt [of X] dval_lt [of Y] by (rule mult_strict_mono) simp_all
  also have "\<dots> = digit_base ^ n * digit_base" using n by (simp flip: power_add)
  finally have "digit_base ^ n * (unat z + digit_base * (unat c' + unat nc)) < digit_base ^ n * digit_base" using eq by linarith
  then have lt: "unat z + digit_base * (unat c' + unat nc) < digit_base" by simp
  have "unat c' + unat nc = 0"
  proof (rule ccontr)
    assume "unat c' + unat nc \<noteq> 0"
    then have "digit_base * 1 \<le> digit_base * (unat c' + unat nc)" by (intro mult_le_mono2) linarith
    with lt show False by linarith
  qed
  with eq have "dval (take n Z) + digit_base ^ n * unat z = dval X * dval Y" by simp
  then show ?thesis using zero_from_eq [of "n + 1" "Z[n := z]"] n assms(5) len by simp
qed

theorem MultiplySchoolbook_spec:
  assumes "length Y \<le> length X" and "length X + length Y \<le> length Z" and "length X + 1 < digit_base"
  shows "\<exists>p' Z'. MultiplySchoolbook p Z X Y = Some (p', Z') \<and> length Z' = length Z \<and> dval Z' = dval X * dval Y"
proof (cases "Y = []")
  case True
  then show ?thesis by (auto simp: MultiplySchoolbook_def Clear_def)
next
  case False
  then have X: "X \<noteq> []" and Z: "Z \<noteq> []" using assms by auto
  obtain z0 n0 where m: "digit_mul (X ! 0) (Y ! 0) = (z0, n0)" by fastforce
  note first = school_first_columns [OF False assms m]
  have "\<exists>Z1 n nc c i. (if 1 < length Y then do {
        (Z, n, nc, c) \<leftarrow> BODY X Y 1 0 1 (Z[0 := z0]) (n0, 0, 0, 0); Some (Z, n, nc, c, (1::nat) + 1) }
      else Some (Z[0 := z0], n0, 0, 0, 1)) = Some (Z1, n, nc, c, i) \<and> school_inv Z X Y i (Z1, n, nc, c) \<and> i \<le> length Y"
  proof (cases "1 < length Y")
    case True
    from okE [OF first(2) [OF True]] obtain Z1 n nc c where
      "BODY X Y 1 0 1 (Z[0 := z0]) (n0, 0, 0, 0) = Some (Z1, n, nc, c)" "school_inv Z X Y (Suc 1) (Z1, n, nc, c)" by fast
    with True show ?thesis by simp
  next
    case False
    with first(1) \<open>Y \<noteq> []\<close> show ?thesis by (cases Y) auto
  qed
  then obtain Z1 n nc c i where 1: "(if 1 < length Y then do {
        (Z, n, nc, c) \<leftarrow> BODY X Y 1 0 1 (Z[0 := z0]) (n0, 0, 0, 0); Some (Z, n, nc, c, (1::nat) + 1) }
      else Some (Z[0 := z0], n0, 0, 0, 1)) = Some (Z1, n, nc, c, i)"
    and inv1: "school_inv Z X Y i (Z1, n, nc, c)" and i: "i \<le> length Y" by blast
  from okE [OF school_main_loop [OF i assms inv1, of p]] obtain p2 s2 where
    2: "for_up i (length Y) (school_main_step X Y) (p, Z1, n, nc, c) = Some (p2, s2)"
    and inv2: "school_inv Z X Y (length Y) s2" by auto
  from okE [OF school_last_loop [OF False assms inv2, of p2]] obtain p3 Z3 n3 nc3 c3 where
    3: "for_up (length Y) (length X + length Y - 2 + 1) (school_last_step X Y) (p2, s2) = Some (p3, Z3, n3, nc3, c3)"
    and inv3: "school_inv Z X Y (length X + length Y - 1) (Z3, n3, nc3, c3)" by auto
  obtain z c' where a: "digit_add2 n3 c3 = (z, c')" by fastforce
  from school_last_digit [OF inv3 refl False X assms(2) a] obtain Z' where
    4: "zero_from (length X + length Y - 1 + 1) (Z3[length X + length Y - 1 := z]) = Some Z'"
    "length Z' = length Z" "dval Z' = dval X * dval Y" by blast
  have e: "max i (length Y) = length Y" "max (length Y) (length X + length Y - 2 + 1) = length X + length Y - 1"
    using X False i by (cases X; cases Y; simp)+
  have w: "wr Z3 (length X + length Y - 1) z = Some (Z3[length X + length Y - 1 := z])"
    using X False assms(2) inv3 by (cases X; cases Y) (auto simp: school_inv_def wr_def)
  obtain Z2 n2 nc2 c2 where s2: "s2 = (Z2, n2, nc2, c2)" by (cases s2) auto
  have "MultiplySchoolbook p Z X Y = Some (p3, Z')"
    unfolding MultiplySchoolbook_def Let_def using X False Z
    by (simp only: 1 2 3 [unfolded s2] 4(1) m w e a s2 bind.simps prod.case length_0_conv rd_def wr_def [of Z] length_greater_0_conv if_True if_False simp_thms)
  with 4 show ?thesis by blast
qed

end
