(* ===== verification/Bigint_Karatsuba.thy ===== *)
theory Bigint_Karatsuba
  imports Bigint_Mul
begin

text \<open>
  \<open>bigint/mul-karatsuba.cc\<close>, in the build configuration with the advanced algorithms, where Karatsuba multiplication
  never polls for termination.  All temporaries of the recursion live in one scratch buffer, and the slices of it that
  the code hands out are explicit here: \<open>slice_put\<close> writes a slice back.  The contents of fresh scratch memory are the
  parameter \<open>junk\<close>.
\<close>

section \<open>Choosing the length\<close>

definition kKaratsubaThreshold :: nat where
  "kKaratsubaThreshold = 34"

definition RoundUp :: "nat \<Rightarrow> nat \<Rightarrow> nat" where
  "RoundUp x y = nat ((int x + int y - 1) AND - int y)"

definition BitLength :: "nat \<Rightarrow> nat" where
  "BitLength n = 32 - CountLeadingZeros (of_nat n :: 32 word)"

definition RoundUpLen :: "nat \<Rightarrow> nat" where
  "RoundUpLen len =
     (if len \<le> 36 then RoundUp len 2
      else (let shift = BitLength len - 5;
                shift = (if drop_bit shift len \<ge> 0x18 then shift + 1 else shift);
                additive = push_bit shift 1 - 1
            in if shift \<ge> 2 \<and> len AND additive < push_bit (shift - 2) 1 then len
               else push_bit shift (drop_bit shift (len + additive))))"

function KaratsubaLength_loop :: "nat \<Rightarrow> nat \<Rightarrow> nat" where
  "KaratsubaLength_loop n i =
     (if n > kKaratsubaThreshold then KaratsubaLength_loop (drop_bit 1 n) (i + 1) else push_bit i n)"
  by pat_completeness auto
termination
  by (relation "measure (\<lambda>(n, i). n)") (auto simp: kKaratsubaThreshold_def drop_bit_eq_div)

declare KaratsubaLength_loop.simps [simp del]

definition KaratsubaLength :: "nat \<Rightarrow> nat" where
  "KaratsubaLength n = KaratsubaLength_loop (RoundUpLen n) 0"

section \<open>The algorithm\<close>

definition slice_put :: "digits \<Rightarrow> nat \<Rightarrow> digits \<Rightarrow> digits" where
  "slice_put S offset W = take offset S @ W @ drop (offset + length W) S"

definition KaratsubaSubtractionHelper :: "digits \<Rightarrow> digits \<Rightarrow> digits \<Rightarrow> int \<Rightarrow> (digits \<times> int) option" where
  "KaratsubaSubtractionHelper result X Y sign =
     (let X = Normalize X; Y = Normalize Y;
          (X, Y, sign) = (if \<not> GreaterThanOrEqual X Y then (Y, X, - sign) else (X, Y, sign))
      in do {
        (result, borrow) \<leftarrow> sub2_loop (\<lambda>_. X) Y 0 (length Y) (result, 0);
        (result, borrow) \<leftarrow> sub_loop (\<lambda>_. X) (length Y) (length X) (result, borrow);
        result \<leftarrow> zero_from (max (length Y) (length X)) result;
        Some (result, sign) })"

function KaratsubaMain :: "ProcessorImpl \<Rightarrow> digits \<Rightarrow> digits \<Rightarrow> digits \<Rightarrow> digits \<Rightarrow> nat \<Rightarrow> (ProcessorImpl \<times> digits \<times> digits) option" where
  "KaratsubaMain p Z X Y scratch n =
     (if n < kKaratsubaThreshold then
        (let X = Normalize X; Y = Normalize Y
         in do {
           (p, W) \<leftarrow> (if length X \<ge> length Y then MultiplySchoolbook p (Digits_slice Z 0 (2 * n)) X Y
                     else MultiplySchoolbook p (Digits_slice Z 0 (2 * n)) Y X);
           Some (p, slice_put Z 0 W, scratch) })
      else
        (let n2 = n div 2;
             X0 = Digits_slice X 0 n2; X1 = Digits_slice X n2 n2;
             Y0 = Digits_slice Y 0 n2; Y1 = Digits_slice Y n2 n2
         in do {
           (p, P0, rec) \<leftarrow> KaratsubaMain p (Digits_slice scratch 0 n) X0 Y0 (Digits_slice scratch (2 * n) (2 * n)) n2;
           let scratch = slice_put (slice_put scratch 0 P0) (2 * n) rec;
           Z \<leftarrow> copy_loop P0 0 n Z;
           (p, P2, rec) \<leftarrow> KaratsubaMain p (Digits_slice scratch n n) X1 Y1 (Digits_slice scratch (2 * n) (2 * n)) n2;
           let scratch = slice_put (slice_put scratch n P2) (2 * n) rec;
           (Z, _) \<leftarrow> at_offset n (\<lambda>Z2. do {
             Z2 \<leftarrow> copy_loop P2 0 (min (length Z2) (length P2)) Z2;
             Some (Z2, ()) }) Z;
           (Z, overflow) \<leftarrow> at_offset n2 (\<lambda>W. AddAndReturnOverflow W P0) Z;
           (Z, overflow2) \<leftarrow> at_offset n2 (\<lambda>W. AddAndReturnOverflow W P2) Z;
           let overflow = overflow + overflow2;
           (X_diff, sign) \<leftarrow> KaratsubaSubtractionHelper (Digits_slice scratch 0 n2) X1 X0 1;
           let scratch = slice_put scratch 0 X_diff;
           (Y_diff, sign) \<leftarrow> KaratsubaSubtractionHelper (Digits_slice scratch n2 n2) Y0 Y1 sign;
           let scratch = slice_put scratch n2 Y_diff;
           (p, P1, rec) \<leftarrow> KaratsubaMain p (Digits_slice scratch n n) X_diff Y_diff (Digits_slice scratch (2 * n) (2 * n)) n2;
           let scratch = slice_put (slice_put scratch n P1) (2 * n) rec;
           (Z, overflow) \<leftarrow>
             (if sign > 0 then at_offset n2 (\<lambda>W. AddAndReturnOverflow W P1) Z
              else at_offset n2 (\<lambda>W. SubAndReturnBorrow W P1) Z);
           Some (p, Z, scratch) }))"
  by pat_completeness auto
termination
  by (relation "measure (\<lambda>(p, Z, X, Y, scratch, n). n)") (auto simp: kKaratsubaThreshold_def)

declare KaratsubaMain.simps [simp del]

text \<open>
  Chunks of operands of unequal length are multiplied by the mutually recursive \<open>KaratsubaStart\<close> and \<open>KaratsubaChunk\<close>.
  \<open>KaratsubaChunks\<close> is the loop over the chunks of X in \<open>KaratsubaStart\<close>: \<open>rest\<close> is the part of X from digit \<open>i\<close> on.
  The loop does not end for \<open>k = 0\<close>, which no caller passes; this is the value None.
\<close>

function KaratsubaStart :: "(nat \<Rightarrow> digit_t) \<Rightarrow> ProcessorImpl \<Rightarrow> digits \<Rightarrow> digits \<Rightarrow> digits \<Rightarrow> digits \<Rightarrow> nat \<Rightarrow>
    (ProcessorImpl \<times> digits \<times> digits) option"
  and KaratsubaChunks :: "(nat \<Rightarrow> digit_t) \<Rightarrow> digits \<Rightarrow> digits \<Rightarrow> nat \<Rightarrow> digits \<Rightarrow> nat \<Rightarrow> ProcessorImpl \<Rightarrow> digits \<Rightarrow> digits \<Rightarrow>
    digits \<Rightarrow> (ProcessorImpl \<times> digits \<times> digits) option"
  and KaratsubaChunk :: "(nat \<Rightarrow> digit_t) \<Rightarrow> ProcessorImpl \<Rightarrow> digits \<Rightarrow> digits \<Rightarrow> digits \<Rightarrow> digits \<Rightarrow>
    (ProcessorImpl \<times> digits \<times> digits) option" where
  "KaratsubaStart junk p Z X Y scratch k =
     (if k = 0 then None
      else do {
        (p, Z, scratch) \<leftarrow> KaratsubaMain p Z X Y scratch k;
        Z \<leftarrow> zero_from (2 * k) Z;
        if k < length Y \<or> length X \<noteq> length Y then do {
          let T = ScratchDigits junk (2 * k);
          let X0 = Digits_slice X 0 k;
          let Y1 = drop (min k (length Y)) Y;
          (p, Z, T, scratch) \<leftarrow>
            (if length Y1 > 0 then do {
               (p, T, scratch) \<leftarrow> KaratsubaChunk junk p T X0 Y1 scratch;
               (Z, _) \<leftarrow> at_offset k (\<lambda>W. AddAndReturnOverflow W T) Z;
               Some (p, Z, T, scratch)
             } else Some (p, Z, T, scratch));
          let Y0 = Digits_slice Y 0 k;
          KaratsubaChunks junk Y0 Y1 k (drop k X) k p Z T scratch
        } else Some (p, Z, scratch) })"
| "KaratsubaChunks junk Y0 Y1 k rest i p Z T scratch =
     (if rest = [] then Some (p, Z, scratch)
      else if k = 0 then None
      else do {
        let Xi = Digits_slice rest 0 k;
        (p, T, scratch) \<leftarrow> KaratsubaChunk junk p T Xi Y0 scratch;
        (Z, _) \<leftarrow> at_offset i (\<lambda>W. AddAndReturnOverflow W T) Z;
        (p, Z, T, scratch) \<leftarrow>
          (if length Y1 > 0 then do {
             (p, T, scratch) \<leftarrow> KaratsubaChunk junk p T Xi Y1 scratch;
             (Z, _) \<leftarrow> at_offset (i + k) (\<lambda>W. AddAndReturnOverflow W T) Z;
             Some (p, Z, T, scratch)
           } else Some (p, Z, T, scratch));
        KaratsubaChunks junk Y0 Y1 k (drop k rest) (i + k) p Z T scratch })"
| "KaratsubaChunk junk p Z X Y scratch =
     (let X = Normalize X; Y = Normalize Y
      in if length X = 0 \<or> length Y = 0 then Some (p, Clear Z, scratch)
         else (let (X, Y) = (if length X < length Y then (Y, X) else (X, Y))
               in if length Y = 1 then do {
                    y \<leftarrow> rd Y 0;
                    (p, Z) \<leftarrow> MultiplySingle p Z X y;
                    Some (p, Z, scratch) }
                  else if length Y < kKaratsubaThreshold then do {
                    (p, Z) \<leftarrow> MultiplySchoolbook p Z X Y;
                    Some (p, Z, scratch) }
                  else KaratsubaStart junk p Z X Y scratch (KaratsubaLength (length Y))))"
  by pat_completeness auto
termination
proof (relation "inv_image (less_than <*lex*> less_than) (\<lambda>s. case s of
      Inl (junk, p, Z, X, Y, scratch, k) \<Rightarrow> (3 * (length X + length Y) + 2, 0)
    | Inr (Inl (junk, Y0, Y1, k, rest, i, p, Z, T, scratch)) \<Rightarrow> (if rest = [] then 0 else 3 * (length rest + length Y0 + length Y1) + 4, length rest)
    | Inr (Inr (junk, p, Z, X, Y, scratch)) \<Rightarrow> (3 * (length X + length Y) + 3, 0))", goal_cases)
  case (7 junk p Z X Y scratch)
  then show ?case using length_Normalize [of X] length_Normalize [of Y] by (auto split: if_splits)
qed (auto simp: Digits_slice_def min_def split: if_splits)

declare KaratsubaStart.simps [simp del] KaratsubaChunks.simps [simp del] KaratsubaChunk.simps [simp del]

definition MultiplyKaratsuba :: "(nat \<Rightarrow> digit_t) \<Rightarrow> ProcessorImpl \<Rightarrow> digits \<Rightarrow> digits \<Rightarrow> digits \<Rightarrow> (ProcessorImpl \<times> digits) option" where
  "MultiplyKaratsuba junk p Z X Y =
     (let k = KaratsubaLength (length Y); scratch_len = 4 * k; scratch = ScratchDigits junk scratch_len
      in do {
        (p, Z, scratch) \<leftarrow> KaratsubaStart junk p Z X Y scratch k;
        Some (p, Z) })"

section \<open>Multiplication of halves\<close>

lemma length_Digits_slice [simp]: "length (Digits_slice S j n) = min n (length S - j)"
  by (simp add: Digits_slice_def)

lemma length_slice_put [simp]: "j + length W \<le> length S \<Longrightarrow> length (slice_put S j W) = length S"
  by (simp add: slice_put_def)

lemma at_offset_Add:
  assumes "j + length (Normalize P) \<le> length Z"
  obtains Z' c e where "at_offset j (\<lambda>W. AddAndReturnOverflow W P) Z = Some (Z', c)" "length Z' = length Z"
    "int (dval Z') = int (dval Z) + int digit_base ^ j * int (dval P) - int digit_base ^ length Z * e"
proof -
  have j: "j \<le> length Z" "length (Normalize P) \<le> length (drop j Z)" using assms by auto
  from AddAndReturnOverflow_spec [OF j(2)] obtain W c where W: "AddAndReturnOverflow (drop j Z) P = Some (W, c)"
    "length W = length Z - j" and eq: "dval W + digit_base ^ (length Z - j) * unat c = dval (drop j Z) + dval P" by auto
  have "digit_base ^ length Z = digit_base ^ j * digit_base ^ (length Z - j)" using j(1) by (simp flip: power_add)
  with arg_cong [OF eq, of "\<lambda>v. digit_base ^ j * v"] dval_take_drop [of Z j]
  have "dval (take j Z @ W) + digit_base ^ length Z * unat c = dval Z + digit_base ^ j * dval P"
    using j(1) by (simp add: algebra_simps min_absorb2)
  then have "int (dval (take j Z @ W) + digit_base ^ length Z * unat c) = int (dval Z + digit_base ^ j * dval P)" by simp
  then have "int (dval (take j Z @ W)) = int (dval Z) + int digit_base ^ j * int (dval P) - int digit_base ^ length Z * int (unat c)"
    by simp
  with W j(1) show thesis by (intro that [of "take j Z @ W" c "int (unat c)"]) (simp_all add: at_offset_def)
qed

lemma at_offset_Sub:
  assumes "j + length (Normalize P) \<le> length Z"
  obtains Z' c e where "at_offset j (\<lambda>W. SubAndReturnBorrow W P) Z = Some (Z', c)" "length Z' = length Z"
    "int (dval Z') = int (dval Z) - int digit_base ^ j * int (dval P) - int digit_base ^ length Z * e"
proof -
  have j: "j \<le> length Z" "length (Normalize P) \<le> length (drop j Z)" using assms by auto
  from SubAndReturnBorrow_spec [OF j(2)] obtain W c where W: "SubAndReturnBorrow (drop j Z) P = Some (W, c)"
    "length W = length Z - j" and eq: "dval W + dval P = dval (drop j Z) + digit_base ^ (length Z - j) * unat c" by auto
  have "digit_base ^ length Z = digit_base ^ j * digit_base ^ (length Z - j)" using j(1) by (simp flip: power_add)
  with arg_cong [OF eq, of "\<lambda>v. digit_base ^ j * v"] dval_take_drop [of Z j]
  have "dval (take j Z @ W) + digit_base ^ j * dval P = dval Z + digit_base ^ length Z * unat c"
    using j(1) by (simp add: algebra_simps min_absorb2)
  then have "int (dval (take j Z @ W) + digit_base ^ j * dval P) = int (dval Z + digit_base ^ length Z * unat c)" by simp
  then have "int (dval (take j Z @ W)) = int (dval Z) - int digit_base ^ j * int (dval P) - int digit_base ^ length Z * (- int (unat c))"
    by simp
  with W j(1) show thesis by (intro that [of "take j Z @ W" c "- int (unat c)"]) (simp_all add: at_offset_def)
qed

lemma KaratsubaSubtractionHelper_spec:
  assumes "length (Normalize X) \<le> length R" and "length (Normalize Y) \<le> length R"
  obtains R' s' where "KaratsubaSubtractionHelper R X Y s = Some (R', s')" "length R' = length R" "s' = s \<or> s' = - s"
    "s' * int (dval R') = s * (int (dval X) - int (dval Y))"
proof (cases "dval Y \<le> dval X")
  case True
  from Subtract_spec [OF assms(1) this] obtain R' where R': "Subtract R X Y = Some R'" "length R' = length R"
    "dval R' = dval X - dval Y" by blast
  then have "KaratsubaSubtractionHelper R X Y s = Some (R', s)"
    using True unfolding KaratsubaSubtractionHelper_def Subtract_def Let_def
    by (auto simp: GreaterThanOrEqual_iff split: bind_splits)
  with R' True show thesis by (intro that [of R' s]) (simp_all add: of_nat_diff)
next
  case False
  then have le: "dval X \<le> dval Y" by simp
  from Subtract_spec [OF assms(2) le] obtain R' where R': "Subtract R Y X = Some R'" "length R' = length R"
    "dval R' = dval Y - dval X" by blast
  then have "KaratsubaSubtractionHelper R X Y s = Some (R', - s)"
    using False unfolding KaratsubaSubtractionHelper_def Subtract_def Let_def
    by (auto simp: GreaterThanOrEqual_iff split: bind_splits)
  with R' le show thesis by (intro that [of R' "- s"]) (simp_all add: of_nat_diff algebra_simps)
qed

end
