(* ===== verification/Bigint_Karatsuba_Length.thy ===== *)
theory Bigint_Karatsuba_Length
  imports Bigint_Karatsuba Bigint_Div_Digit
begin

text \<open>
  The length that \<open>KaratsubaLength\<close> chooses for the operands below the threshold of the next faster algorithm: closed
  forms on three ranges, and the facts the recursion depends on.  The length can be halved down to the base case, it is
  not much larger than the operand, and no chunk of the operands ever needs a larger one.
\<close>

section \<open>Lengths that can be halved\<close>

function halvable :: "nat \<Rightarrow> bool" where
  "halvable n = (if n < kKaratsubaThreshold then True else even n \<and> halvable (n div 2))"
  by pat_completeness auto
termination
  by (relation "measure id") (auto simp: kKaratsubaThreshold_def)

declare halvable.simps [simp del]

section \<open>Rounding\<close>

lemma BitLength_eq:
  assumes "2 ^ (L - 1) \<le> n" and "n < 2 ^ L" and "0 < L" and "L \<le> 32"
  shows "BitLength n = L"
proof -
  let ?x = "of_nat n :: 32 word"
  have "n < 2 ^ 32" using assms(2,4) by (meson less_le_trans one_le_numeral power_increasing)
  then have n: "unat ?x = n" by (simp add: unat_of_nat)
  have "n \<noteq> 0" using assms(1) by (metis not_one_le_zero one_le_numeral one_le_power order_trans)
  then have "?x \<noteq> 0" using n by auto
  then have lower: "2 ^ (31 - CountLeadingZeros ?x) \<le> n" using clz_lower [of ?x] n by simp
  have upper: "n < 2 ^ (32 - CountLeadingZeros ?x)" using clz_upper [of ?x] n by simp
  have "L - 1 < 32 - CountLeadingZeros ?x" using assms(1) upper by (meson le_less_trans nat_power_less_imp_less zero_less_numeral)
  moreover have "31 - CountLeadingZeros ?x < L" using assms(2) lower by (meson le_less_trans nat_power_less_imp_less zero_less_numeral)
  ultimately show ?thesis using assms(3) by (simp add: BitLength_def)
qed

lemma RoundUpLen_shift:
  assumes "36 < len" and "s = (if len div 2 ^ (BitLength len - 5) \<ge> 24 then BitLength len - 5 + 1 else BitLength len - 5)"
  shows "RoundUpLen len = (if s \<ge> 2 \<and> len mod 2 ^ s < 2 ^ (s - 2) then len else 2 ^ s * ((len + 2 ^ s - 1) div 2 ^ s))"
proof -
  have "len AND (2 ^ s - 1) = len mod 2 ^ s"
    using take_bit_eq_mask [of s len] by (simp add: take_bit_eq_mod mask_eq_exp_minus_1)
  then show ?thesis
    using assms(1) unfolding RoundUpLen_def Let_def drop_bit_eq_div push_bit_eq_mult mult_1 assms(2) [symmetric]
    by (simp add: mult.commute)
qed

lemma RoundUpLen_range:
  assumes "36 < n" and "2 ^ (L - 1) \<le> n" and "n < 2 ^ L" and "5 < L" and "L \<le> 32"
    and "s = (if 24 * 2 ^ (L - 5) \<le> n then L - 4 else L - 5)"
  shows "RoundUpLen n = (if s \<ge> 2 \<and> n mod 2 ^ s < 2 ^ (s - 2) then n else 2 ^ s * ((n + 2 ^ s - 1) div 2 ^ s))"
proof (rule RoundUpLen_shift [OF assms(1)])
  have "BitLength n = L" using assms by (intro BitLength_eq) simp_all
  then show "s = (if n div 2 ^ (BitLength n - 5) \<ge> 24 then BitLength n - 5 + 1 else BitLength n - 5)"
    using assms(4,6) by (auto simp: less_eq_div_iff_mult_less_eq)
qed

lemma KaratsubaLength_small:
  assumes "34 \<le> n" and "n < 48"
  shows "KaratsubaLength n = 2 * ((n + 1) div 2)"
proof -
  have "RoundUpLen n = 2 * ((n + 1) div 2)"
  proof (cases "n \<le> 36")
    case True
    with assms(1) have "n = 34 \<or> n = 35 \<or> n = 36" by linarith
    then show ?thesis by (auto simp: RoundUpLen_def RoundUp_def)
  next
    case False
    then show ?thesis using RoundUpLen_range [of n 6 1] assms by simp
  qed
  then show ?thesis using assms
    by (simp add: KaratsubaLength_def KaratsubaLength_loop.simps kKaratsubaThreshold_def drop_bit_eq_div push_bit_eq_mult)
qed

lemma KaratsubaLength_loop_8:
  assumes "12 \<le> q" and "q \<le> 24" and "t \<le> 1"
  shows "KaratsubaLength_loop (8 * q + t) 0 = 8 * q"
proof -
  have "(8 * q + t) div 2 = 4 * q" using assms(3) by linarith
  moreover have "4 * q div 2 = 2 * q" by simp
  ultimately show ?thesis using assms
    by (simp add: KaratsubaLength_loop.simps [of "8 * q + t"] KaratsubaLength_loop.simps [of "4 * q"] KaratsubaLength_loop.simps [of "2 * q"]
        KaratsubaLength_loop.simps [of q] kKaratsubaThreshold_def drop_bit_eq_div push_bit_eq_mult)
qed

lemma KaratsubaLength_loop_4:
  assumes "12 \<le> q" and "q \<le> 24"
  shows "KaratsubaLength_loop (4 * q) 0 = 4 * q"
proof -
  have "4 * q div 2 = 2 * q" by simp
  then show ?thesis using assms
    by (simp add: KaratsubaLength_loop.simps [of "4 * q"] KaratsubaLength_loop.simps [of "2 * q"]
        KaratsubaLength_loop.simps [of q] kKaratsubaThreshold_def drop_bit_eq_div push_bit_eq_mult)
qed

lemma KaratsubaLength_mid:
  assumes "48 \<le> n" and "n < 96"
  shows "KaratsubaLength n = 4 * ((n + 3) div 4)"
proof -
  have "RoundUpLen n = (if n mod 4 < 1 then n else 4 * ((n + 3) div 4))"
  proof (cases "n < 64")
    case True
    then show ?thesis using RoundUpLen_range [of n 6 2] assms by (simp add: add.commute)
  next
    case False
    then show ?thesis using RoundUpLen_range [of n 7 2] assms by (simp add: add.commute)
  qed
  also have "\<dots> = 4 * ((n + 3) div 4)"
  proof (cases "n mod 4 < 1")
    case True
    then have "4 * ((n + 3) div 4) = n" by presburger
    then show ?thesis using True by simp
  qed simp
  finally show ?thesis using KaratsubaLength_loop_4 [of "(n + 3) div 4"] assms by (simp add: KaratsubaLength_def)
qed

lemma KaratsubaLength_high:
  assumes "96 \<le> n" and "n \<le> 192"
  shows "KaratsubaLength n = 8 * ((n + 6) div 8)"
proof -
  have r: "RoundUpLen n = (if n mod 8 < 2 then n else 8 * ((n + 7) div 8))"
  proof (cases "n < 192")
    case True
    then show ?thesis using RoundUpLen_range [of n 7 3] RoundUpLen_range [of n 8 3] assms by (cases "n < 128") (simp_all add: add.commute)
  next
    case False
    then show ?thesis using RoundUpLen_range [of n 8 4] assms by simp
  qed
  define a t where "a = n div 8" and "t = n mod 8"
  then have n: "n = 8 * a + t" "t < 8" and r': "RoundUpLen n = (if t < 2 then n else 8 * ((n + 7) div 8))" using r by simp_all
  show ?thesis
  proof (cases "t < 2")
    case True
    have "(n + 6) div 8 = a" by (rule div_nat_eqI) (use n True in simp_all)
    moreover have "RoundUpLen n = 8 * a + t" using r' True n(1) by simp
    ultimately show ?thesis using KaratsubaLength_loop_8 [of a t] True n assms by (simp add: KaratsubaLength_def)
  next
    case False
    have "(n + 6) div 8 = a + 1" by (rule div_nat_eqI) (use n False in simp_all)
    moreover have "(n + 7) div 8 = a + 1" by (rule div_nat_eqI) (use n False in simp_all)
    ultimately show ?thesis using KaratsubaLength_loop_8 [of "a + 1" 0] False n assms r' by (simp add: KaratsubaLength_def)
  qed
qed

lemma halvable_even:
  "17 \<le> q \<Longrightarrow> q < 34 \<Longrightarrow> halvable (2 * q)"
  "halvable q \<Longrightarrow> halvable (2 * q)"
  using halvable.simps [of "2 * q"] halvable.simps [of q] by (auto simp: kKaratsubaThreshold_def)

lemma halvable_multiples: "q \<le> 24 \<Longrightarrow> halvable (4 * q)" "q \<le> 24 \<Longrightarrow> halvable (8 * q)"
proof -
  assume "q \<le> 24"
  then have "halvable q" by (subst halvable.simps) (simp add: kKaratsubaThreshold_def)
  then have "halvable (2 * (2 * q))" "halvable (2 * (2 * (2 * q)))" by (intro halvable_even(2), assumption)+
  then show "halvable (4 * q)" "halvable (8 * q)" by simp_all
qed

lemma KaratsubaLength_cases:
  "34 \<le> m \<Longrightarrow> m \<le> 192 \<Longrightarrow> KaratsubaLength m =
    (if m < 48 then 2 * ((m + 1) div 2) else if m < 96 then 4 * ((m + 3) div 4) else 8 * ((m + 6) div 8))"
  using KaratsubaLength_small [of m] KaratsubaLength_mid [of m] KaratsubaLength_high [of m] by simp

lemma round_up_le:
  "m \<le> 2 * q \<Longrightarrow> 2 * ((m + 1) div 2) \<le> 2 * (q :: nat)"
  "m \<le> 4 * q \<Longrightarrow> 4 * ((m + 3) div 4) \<le> 4 * (q :: nat)"
  "m \<le> 8 * q \<Longrightarrow> 8 * ((m + 6) div 8) \<le> 8 * (q :: nat)"
  by presburger+

lemma KaratsubaLength_le:
  assumes "34 \<le> m"
  shows "q \<le> 24 \<Longrightarrow> m \<le> 2 * q \<Longrightarrow> KaratsubaLength m \<le> 2 * q"
    "12 \<le> q \<Longrightarrow> q \<le> 24 \<Longrightarrow> m \<le> 4 * q \<Longrightarrow> KaratsubaLength m \<le> 4 * q"
    "12 \<le> q \<Longrightarrow> q \<le> 24 \<Longrightarrow> m \<le> 8 * q \<Longrightarrow> KaratsubaLength m \<le> 8 * q"
proof -
  assume q: "q \<le> 24" "m \<le> 2 * q"
  then have "m < 48 \<or> m = 48 \<and> q = 24" by linarith
  then show "KaratsubaLength m \<le> 2 * q" using KaratsubaLength_cases [OF assms] round_up_le(1) [OF q(2)] by auto
next
  assume q: "12 \<le> q" "q \<le> 24" "m \<le> 4 * q"
  then have "m < 48 \<or> 48 \<le> m \<and> m < 96 \<or> m = 96 \<and> q = 24" by linarith
  then show "KaratsubaLength m \<le> 4 * q"
    using KaratsubaLength_cases [OF assms] round_up_le(1) [of m 24] round_up_le(2) [OF q(3)] q(1) by auto
next
  assume q: "12 \<le> q" "q \<le> 24" "m \<le> 8 * q"
  then have "m < 48 \<or> 48 \<le> m \<and> m < 96 \<or> 96 \<le> m \<and> m \<le> 192" by linarith
  then show "KaratsubaLength m \<le> 8 * q"
    using KaratsubaLength_cases [OF assms] round_up_le(1) [of m 24] round_up_le(2) [of m 24] round_up_le(3) [OF q(3)] q(1) by auto
qed

lemma KaratsubaLength_facts:
  assumes "34 \<le> n" and "n \<le> 192"
  shows "34 \<le> KaratsubaLength n" "KaratsubaLength n \<le> 192" "halvable (KaratsubaLength n)"
    "KaratsubaLength n + KaratsubaLength n div 2 \<le> 2 * n" "n \<le> 2 * KaratsubaLength n"
    "\<And>m. 34 \<le> m \<Longrightarrow> m \<le> KaratsubaLength n \<Longrightarrow> KaratsubaLength m \<le> KaratsubaLength n"
proof -
  consider "n < 48" | "48 \<le> n" "n < 96" | "96 \<le> n" by linarith
  then have "34 \<le> KaratsubaLength n \<and> KaratsubaLength n \<le> 192 \<and> halvable (KaratsubaLength n) \<and>
    KaratsubaLength n + KaratsubaLength n div 2 \<le> 2 * n \<and> n \<le> 2 * KaratsubaLength n \<and>
    (\<forall>m. 34 \<le> m \<longrightarrow> m \<le> KaratsubaLength n \<longrightarrow> KaratsubaLength m \<le> KaratsubaLength n)"
  proof cases
    case 1
    obtain q where q: "q = (n + 1) div 2" by simp
    have q': "17 \<le> q" "q \<le> 24" "3 * q \<le> 2 * n" "n \<le> 4 * q" unfolding q using assms 1 by linarith+
    have "KaratsubaLength n = 2 * q" unfolding q by (rule KaratsubaLength_small [OF assms(1) 1])
    then show ?thesis using q' halvable_even(1) [of q] KaratsubaLength_le(1) [of _ q] by auto
  next
    case 2
    obtain q where q: "q = (n + 3) div 4" by simp
    have q': "12 \<le> q" "q \<le> 24" "6 * q \<le> 2 * n" "n \<le> 8 * q" unfolding q using 2 by linarith+
    have "KaratsubaLength n = 4 * q" unfolding q by (rule KaratsubaLength_mid [OF 2])
    then show ?thesis using q' halvable_multiples(1) [of q] KaratsubaLength_le(2) [of _ q] by auto
  next
    case 3
    obtain q where q: "q = (n + 6) div 8" by simp
    have q': "12 \<le> q" "q \<le> 24" "12 * q \<le> 2 * n" "n \<le> 16 * q" unfolding q using 3 assms(2) by linarith+
    have "KaratsubaLength n = 8 * q" unfolding q by (rule KaratsubaLength_high [OF 3 assms(2)])
    then show ?thesis using q' halvable_multiples(2) [of q] KaratsubaLength_le(3) [of _ q] by auto
  qed
  then show "34 \<le> KaratsubaLength n" "KaratsubaLength n \<le> 192" "halvable (KaratsubaLength n)"
    "KaratsubaLength n + KaratsubaLength n div 2 \<le> 2 * n" "n \<le> 2 * KaratsubaLength n"
    "\<And>m. 34 \<le> m \<Longrightarrow> m \<le> KaratsubaLength n \<Longrightarrow> KaratsubaLength m \<le> KaratsubaLength n" by blast+
qed

end
