(* ===== verification/Bigint_Karatsuba_Correct.thy ===== *)
theory Bigint_Karatsuba_Correct
  imports Bigint_Karatsuba_Length
begin

text \<open>
  Correctness of Karatsuba multiplication: memory safety of every slice of the scratch buffer and of the product, and
  the value of the result.  The intermediate sums may wrap around at the end of the product buffer; the final value
  does not, because it is the product modulo a power of the digit base that is above it.
\<close>

section \<open>The recursion on halves\<close>

definition main_ok :: "nat \<Rightarrow> bool" where
  "main_ok n \<longleftrightarrow> (\<forall>p Z X Y S. (n < kKaratsubaThreshold \<longrightarrow> length X \<le> n \<and> length Y \<le> n \<and> 2 * n \<le> length Z) \<longrightarrow>
     n + n div 2 \<le> length Z \<longrightarrow> 4 * n \<le> length S \<longrightarrow> dval (take n X) * dval (take n Y) < digit_base ^ length Z \<longrightarrow>
     (\<exists>p' Z' S'. KaratsubaMain p Z X Y S n = Some (p', Z', S') \<and> length Z' = length Z \<and> length S' = length S \<and>
        dval (take (2 * n) Z') = dval (take n X) * dval (take n Y)))"

lemma small_length_digit_base: "n \<le> 400 \<Longrightarrow> n + 1 < digit_base"
  by (simp add: digit_base_def)

lemma main_ok_base:
  assumes "n < kKaratsubaThreshold"
  shows "main_ok n"
  unfolding main_ok_def
proof (intro allI impI)
  fix p and Z X Y S :: digits
  assume pre: "n < kKaratsubaThreshold \<longrightarrow> length X \<le> n \<and> length Y \<le> n \<and> 2 * n \<le> length Z"
  have X: "length (Normalize X) \<le> n" "length (Normalize Y) \<le> n" and Z: "2 * n \<le> length Z" and e: "take n X = X" "take n Y = Y"
    using pre assms length_Normalize [of X] length_Normalize [of Y] by auto
  have n: "n \<le> 33" using assms by (simp add: kKaratsubaThreshold_def)
  let ?W = "Digits_slice Z 0 (2 * n)"
  have W: "length ?W = 2 * n" using Z by simp
  have "\<exists>p' W'. (if length (Normalize X) \<ge> length (Normalize Y) then MultiplySchoolbook p ?W (Normalize X) (Normalize Y)
      else MultiplySchoolbook p ?W (Normalize Y) (Normalize X)) = Some (p', W') \<and> length W' = 2 * n \<and> dval W' = dval X * dval Y"
  proof (cases "length (Normalize Y) \<le> length (Normalize X)")
    case True
    from MultiplySchoolbook_spec [OF this, of ?W p] X W n True small_length_digit_base [of "length (Normalize X)"]
    show ?thesis by auto
  next
    case False
    from MultiplySchoolbook_spec [of "Normalize X" "Normalize Y" ?W p] X W n False small_length_digit_base [of "length (Normalize Y)"]
    show ?thesis by (auto simp: mult.commute)
  qed
  then obtain p' W' where "(if length (Normalize X) \<ge> length (Normalize Y) then MultiplySchoolbook p ?W (Normalize X) (Normalize Y)
      else MultiplySchoolbook p ?W (Normalize Y) (Normalize X)) = Some (p', W')" "length W' = 2 * n" "dval W' = dval X * dval Y"
    by blast
  then show "\<exists>p' Z' S'. KaratsubaMain p Z X Y S n = Some (p', Z', S') \<and> length Z' = length Z \<and> length S' = length S \<and>
        dval (take (2 * n) Z') = dval (take n X) * dval (take n Y)"
    using assms Z unfolding e by (subst KaratsubaMain.simps) (auto simp: Let_def slice_put_def)
qed

lemma karatsuba_identity:
  fixes z :: int
  assumes "z = p0 + B * B * p2 + L * g" and "M = L * h" and "z1 = z + B * p0 - M * e1" and "z2 = z1 + B * p2 - M * e2"
    and "z3 = z2 + B * (s * p1) - M * e3" and "s * p1 = (x1 - x0) * (y0 - y1)" and "p0 = x0 * y0" and "p2 = x1 * y1"
  shows "z3 = (x0 + B * x1) * (y0 + B * y1) + L * (g - h * (e1 + e2 + e3))"
  unfolding assms(5) assms(4) assms(3) assms(2) assms(1) assms(6-8) by (simp add: algebra_simps)

lemma dval_low_product:
  assumes "int (dval Z) = int v + int digit_base ^ L * G" and "v < digit_base ^ L"
  shows "dval (take L Z) = v"
proof -
  have "int (dval (take L Z)) = int (dval Z) mod int (digit_base ^ L)"
    by (simp only: dval_mod [symmetric] zmod_int)
  also have "\<dots> = int v mod int (digit_base ^ L)" by (simp add: assms(1))
  also have "\<dots> = int v" using assms(2) by (simp only: zmod_int [symmetric]) simp
  finally show ?thesis by simp
qed

lemma copy_halves:
  assumes "length P0 = n" and "length P2 = n" and "n \<le> length Z"
  obtains Z' g where "copy_loop P0 0 n Z = Some (P0 @ drop n Z)"
    "at_offset n (\<lambda>Z2. do { Z2 \<leftarrow> copy_loop P2 0 (min (length Z2) (length P2)) Z2; Some (Z2, ()) }) (P0 @ drop n Z) = Some (Z', ())"
    "length Z' = length Z"
    "int (dval Z') = int (dval P0) + int digit_base ^ n * int (dval P2) + int digit_base ^ min (2 * n) (length Z) * g"
proof -
  let ?Z2 = "drop n Z" and ?e = "min (length Z - n) n"
  have 1: "copy_loop P0 0 n Z = Some (P0 @ drop n Z)" using copy_loop_eq [of 0 n Z P0] assms by simp
  have "copy_loop P2 0 ?e ?Z2 = Some (take ?e P2 @ drop ?e ?Z2)" using copy_loop_eq [of 0 ?e ?Z2 P2] assms by simp
  then have 2: "at_offset n (\<lambda>Z2. do { Z2 \<leftarrow> copy_loop P2 0 (min (length Z2) (length P2)) Z2; Some (Z2, ()) }) (P0 @ drop n Z)
      = Some (P0 @ take ?e P2 @ drop ?e ?Z2, ())" using assms by (simp add: at_offset_def)
  have e: "min (2 * n) (length Z) = n + ?e" using assms(3) by simp
  have le: "length (take ?e P2) = ?e" using assms(2) by simp
  have "dval (P0 @ take ?e P2 @ drop ?e ?Z2) = dval P0 + digit_base ^ n * (dval (take ?e P2) + digit_base ^ ?e * dval (drop ?e ?Z2))"
    unfolding dval_append le assms(1) ..
  moreover have "dval P2 = dval (take ?e P2) + digit_base ^ ?e * dval (drop ?e P2)" by (rule dval_take_drop)
  ultimately have 3: "int (dval (P0 @ take ?e P2 @ drop ?e ?Z2)) = int (dval P0) + int digit_base ^ n * int (dval P2) +
      int digit_base ^ (n + ?e) * (int (dval (drop ?e ?Z2)) - int (dval (drop ?e P2)))"
    by (simp add: algebra_simps power_add)
  show thesis by (rule that [OF 1 2 _ 3 [folded e]]) (use assms in simp)
qed

lemma main_ok_half:
  assumes "main_ok m" and "length X \<le> m" and "length Y \<le> m" and "length Z = 2 * m" and "4 * m \<le> length S"
  obtains p' Z' S' where "KaratsubaMain p Z X Y S m = Some (p', Z', S')" "length Z' = 2 * m" "length S' = length S"
    "dval Z' = dval X * dval Y"
proof -
  have "dval X * dval Y < digit_base ^ length X * digit_base ^ length Y" by (intro mult_strict_mono dval_lt) simp_all
  also have "\<dots> \<le> digit_base ^ (2 * m)" using assms(2,3) by (simp add: Suc_leI power_increasing flip: power_add)
  finally have lt: "dval X * dval Y < digit_base ^ length Z" by (simp add: assms(4))
  have "\<exists>p' Z' S'. KaratsubaMain p Z X Y S m = Some (p', Z', S') \<and> length Z' = length Z \<and> length S' = length S \<and>
        dval (take (2 * m) Z') = dval (take m X) * dval (take m Y)"
    using assms lt by (intro assms(1) [unfolded main_ok_def, rule_format]) simp_all
  with assms that show thesis by auto
qed

lemma signed_update:
  assumes "s = 1 \<or> s = - 1" and "m + length (Normalize P) \<le> length Z"
  obtains Z' c e where "(if (s :: int) > 0 then at_offset m (\<lambda>W. AddAndReturnOverflow W P) Z
      else at_offset m (\<lambda>W. SubAndReturnBorrow W P) Z) = Some (Z', c)" "length Z' = length Z"
    "int (dval Z') = int (dval Z) + int digit_base ^ m * (s * int (dval P)) - int digit_base ^ length Z * e"
proof (cases "s = 1")
  case True
  with at_offset_Add [OF assms(2)] that show thesis by (metis mult_1 zero_less_one)
next
  case False
  then have s: "s = - 1" using assms(1) by simp
  from at_offset_Sub [OF assms(2)] obtain Z' c e where "at_offset m (\<lambda>W. SubAndReturnBorrow W P) Z = Some (Z', c)"
    "length Z' = length Z" "int (dval Z') = int (dval Z) - int digit_base ^ m * int (dval P) - int digit_base ^ length Z * e" .
  with that [of Z' c e] show thesis unfolding s by simp
qed

lemma halves_value: "n = 2 * m \<Longrightarrow> dval (take n X) = dval (Digits_slice X 0 m) + digit_base ^ m * dval (Digits_slice X m m)"
  using dval_take_drop [of "take n X" m] by (simp add: Digits_slice_def min_def take_drop mult_2)

lemma step_value:
  fixes X Y :: digits and m :: nat
  defines "x0 \<equiv> int (dval (Digits_slice X 0 m))" and "x1 \<equiv> int (dval (Digits_slice X m m))"
    and "y0 \<equiv> int (dval (Digits_slice Y 0 m))" and "y1 \<equiv> int (dval (Digits_slice Y m m))" and "b \<equiv> int digit_base"
  assumes n: "n = 2 * m" and lt: "dval (take n X) * dval (take n Y) < digit_base ^ length Z"
    and z: "z2 = x0 * y0 + b ^ n * (x1 * y1) + b ^ min (2 * n) (length Z) * g"
    "z3 = z2 + b ^ m * (x0 * y0) - b ^ length Z * e3" "z4 = z3 + b ^ m * (x1 * y1) - b ^ length Z * e4"
    "int (dval Z) = z4 + b ^ m * ((x1 - x0) * (y0 - y1)) - b ^ length Z * e5"
  shows "dval (take (2 * n) Z) = dval (take n X) * dval (take n Y)"
proof -
  let ?L = "min (2 * n) (length Z)"
  have M: "b ^ length Z = b ^ ?L * b ^ (length Z - ?L)" by (simp flip: power_add)
  have B: "b ^ n = b ^ m * b ^ m" by (simp add: n mult_2 power_add)
  have "int (dval Z) = (x0 + b ^ m * x1) * (y0 + b ^ m * y1) + b ^ ?L * (g - b ^ (length Z - ?L) * (e3 + e4 + e5))"
    by (rule karatsuba_identity [OF z(1) [unfolded B] M z(2,3), of _ 1 "(x1 - x0) * (y0 - y1)"]) (simp_all add: z(4))
  moreover have "(x0 + b ^ m * x1) * (y0 + b ^ m * y1) = int (dval (take n X) * dval (take n Y))"
    by (simp add: halves_value [OF n] x0_def x1_def y0_def y1_def b_def)
  moreover have "dval (take n X) * dval (take n Y) < digit_base ^ ?L"
  proof -
    have "dval (take n V) < digit_base ^ n" for V
      by (rule less_le_trans [OF dval_lt]) (simp add: Suc_leI power_increasing)
    from mult_strict_mono [OF this [of X] this [of Y]] show ?thesis using lt by (auto simp: min_def mult_2 power_add)
  qed
  ultimately have "dval (take ?L Z) = dval (take n X) * dval (take n Y)" by (intro dval_low_product) (simp_all add: b_def)
  then show ?thesis by (simp add: min_def split: if_splits)
qed

lemma main_ok_step:
  assumes "\<not> n < kKaratsubaThreshold" and "even n" and IH: "main_ok (n div 2)"
  shows "main_ok n"
  unfolding main_ok_def
proof (intro allI impI)
  fix p and Z X Y S :: digits
  define m where "m = n div 2"
  have n: "n = 2 * m" using assms(2) by (simp add: m_def)
  assume Z: "n + n div 2 \<le> length Z" and S: "4 * n \<le> length S" and lt: "dval (take n X) * dval (take n Y) < digit_base ^ length Z"
  let ?X0 = "Digits_slice X 0 m" and ?X1 = "Digits_slice X m m" and ?Y0 = "Digits_slice Y 0 m" and ?Y1 = "Digits_slice Y m m"
  let ?b = "int digit_base"
  note half = main_ok_half [OF IH [folded m_def]]
  obtain p1 P0 r1 where 1: "KaratsubaMain p (Digits_slice S 0 n) ?X0 ?Y0 (Digits_slice S (2 * n) (2 * n)) m = Some (p1, P0, r1)"
    "length P0 = 2 * m" "length r1 = length (Digits_slice S (2 * n) (2 * n))" "dval P0 = dval ?X0 * dval ?Y0"
    by (rule half [of ?X0 ?Y0 "Digits_slice S 0 n" "Digits_slice S (2 * n) (2 * n)" p]) (use S n in auto)
  define S1 where "S1 = slice_put (slice_put S 0 P0) (2 * n) r1"
  have S1: "length S1 = length S" using 1 S n by (simp add: S1_def)
  obtain p2 P2 r2 where 2: "KaratsubaMain p1 (Digits_slice S1 n n) ?X1 ?Y1 (Digits_slice S1 (2 * n) (2 * n)) m = Some (p2, P2, r2)"
    "length P2 = 2 * m" "length r2 = length (Digits_slice S1 (2 * n) (2 * n))" "dval P2 = dval ?X1 * dval ?Y1"
    by (rule half [of ?X1 ?Y1 "Digits_slice S1 n n" "Digits_slice S1 (2 * n) (2 * n)" p1]) (use S n S1 in auto)
  define S2 where "S2 = slice_put (slice_put S1 n P2) (2 * n) r2"
  have S2: "length S2 = length S" using 2 S n by (simp add: S2_def S1)
  obtain Z2 g where 3: "copy_loop P0 0 n Z = Some (P0 @ drop n Z)"
    "at_offset n (\<lambda>Z2. do { Z2 \<leftarrow> copy_loop P2 0 (min (length Z2) (length P2)) Z2; Some (Z2, ()) }) (P0 @ drop n Z) = Some (Z2, ())"
    "length Z2 = length Z" "int (dval Z2) = int (dval P0) + ?b ^ n * int (dval P2) + ?b ^ min (2 * n) (length Z) * g"
    by (rule copy_halves [of P0 n P2 Z]) (use 1 2 Z n in auto)
  have fits: "length P = 2 * m \<Longrightarrow> m + length (Normalize P) \<le> length Z" for P using Z n length_Normalize [of P] by simp
  obtain Z3 c3 e3 where 4: "at_offset m (\<lambda>W. AddAndReturnOverflow W P0) Z2 = Some (Z3, c3)" "length Z3 = length Z2"
    "int (dval Z3) = int (dval Z2) + ?b ^ m * int (dval P0) - ?b ^ length Z2 * e3"
    by (rule at_offset_Add [of m P0 Z2]) (use fits [of P0] 1(2) 3(3) in simp)
  obtain Z4 c4 e4 where 5: "at_offset m (\<lambda>W. AddAndReturnOverflow W P2) Z3 = Some (Z4, c4)" "length Z4 = length Z3"
    "int (dval Z4) = int (dval Z3) + ?b ^ m * int (dval P2) - ?b ^ length Z3 * e4"
    by (rule at_offset_Add [of m P2 Z3]) (use fits [of P2] 2(2) 3(3) 4(2) in simp)
  have sl: "length (Normalize (Digits_slice V j m)) \<le> m" for V j using length_Normalize [of "Digits_slice V j m"] by simp
  obtain X' s1 where 6: "KaratsubaSubtractionHelper (Digits_slice S2 0 m) ?X1 ?X0 1 = Some (X', s1)" "length X' = m" "s1 = 1 \<or> s1 = - 1"
    "s1 * int (dval X') = int (dval ?X1) - int (dval ?X0)"
    by (rule KaratsubaSubtractionHelper_spec [of ?X1 "Digits_slice S2 0 m" ?X0 1]) (use S S2 n sl in auto)
  define S3 where "S3 = slice_put S2 0 X'"
  have S3: "length S3 = length S" using 6 S n by (simp add: S3_def S2)
  obtain Y' s2 where 7: "KaratsubaSubtractionHelper (Digits_slice S3 m m) ?Y0 ?Y1 s1 = Some (Y', s2)" "length Y' = m" "s2 = s1 \<or> s2 = - s1"
    "s2 * int (dval Y') = s1 * (int (dval ?Y0) - int (dval ?Y1))"
    by (rule KaratsubaSubtractionHelper_spec [of ?Y0 "Digits_slice S3 m m" ?Y1 s1]) (use S S3 n sl in auto)
  define S4 where "S4 = slice_put S3 m Y'"
  have S4: "length S4 = length S" using 7 S n by (simp add: S4_def S3)
  obtain p3 P1 r3 where 8: "KaratsubaMain p2 (Digits_slice S4 n n) X' Y' (Digits_slice S4 (2 * n) (2 * n)) m = Some (p3, P1, r3)"
    "length P1 = 2 * m" "length r3 = length (Digits_slice S4 (2 * n) (2 * n))" "dval P1 = dval X' * dval Y'"
    by (rule half [of X' Y' "Digits_slice S4 n n" "Digits_slice S4 (2 * n) (2 * n)" p2]) (use S n S4 6 7 in auto)
  have s: "s2 = 1 \<or> s2 = - 1" using 6(3) 7(3) by auto
  have s2: "s2 * int (dval P1) = (int (dval ?X1) - int (dval ?X0)) * (int (dval ?Y0) - int (dval ?Y1))"
  proof -
    have "s2 * int (dval P1) = int (dval X') * (s2 * int (dval Y'))" by (simp add: 8(4))
    also have "\<dots> = (s1 * int (dval X')) * (int (dval ?Y0) - int (dval ?Y1))" by (simp only: 7(4) ac_simps)
    finally show ?thesis by (simp only: 6(4))
  qed
  obtain Z5 c5 e5 where 9: "(if s2 > 0 then at_offset m (\<lambda>W. AddAndReturnOverflow W P1) Z4
              else at_offset m (\<lambda>W. SubAndReturnBorrow W P1) Z4) = Some (Z5, c5)" "length Z5 = length Z4"
      "int (dval Z5) = int (dval Z4) + ?b ^ m * (s2 * int (dval P1)) - ?b ^ length Z4 * e5"
    by (rule signed_update [OF s, of m P1 Z4]) (use fits [of P1] 8(2) 3(3) 4(2) 5(2) in simp)
  have len: "length Z = length Z5" "length Z2 = length Z5" "length Z3 = length Z5" "length Z4 = length Z5"
    using 3(3) 4(2) 5(2) 9(2) by simp_all
  have "dval (take (2 * n) Z5) = dval (take n X) * dval (take n Y)"
    by (rule step_value [OF n lt [unfolded len] 3(4) [unfolded 1(4) 2(4) of_nat_mult len] 4(3) [unfolded 1(4) of_nat_mult len]
          5(3) [unfolded 2(4) of_nat_mult len] 9(3) [unfolded s2 len]])
  moreover have "KaratsubaMain p Z X Y S n = Some (p3, Z5, slice_put (slice_put S4 n P1) (2 * n) r3)"
    using assms(1) by (subst KaratsubaMain.simps)
      (simp add: Let_def m_def [symmetric] 1(1) 2(1) 3(1,2) 4(1) 5(1) 6(1) 7(1) 8(1) 9(1) S1_def [symmetric] S2_def [symmetric]
        S3_def [symmetric] S4_def [symmetric])
  moreover have "length (slice_put (slice_put S4 n P1) (2 * n) r3) = length S" using 8(2,3) S n by (simp add: S4)
  ultimately show "\<exists>p' Z' S'. KaratsubaMain p Z X Y S n = Some (p', Z', S') \<and> length Z' = length Z \<and> length S' = length S \<and>
        dval (take (2 * n) Z') = dval (take n X) * dval (take n Y)" using len(1) by metis
qed

lemma halvable_main_ok: "halvable n \<Longrightarrow> main_ok n"
proof (induction n rule: halvable.induct)
  case (1 n)
  show ?case
  proof (cases "n < kKaratsubaThreshold")
    case True
    then show ?thesis by (rule main_ok_base)
  next
    case False
    have h: "even n \<and> halvable (n div 2)" using iffD1 [OF halvable.simps 1(2)] False by (simp only: if_False)
    show ?thesis by (rule main_ok_step [OF False]) (use h 1(1) [OF False] in simp_all)
  qed
qed

section \<open>Chunks\<close>

lemma at_offset_Add_exact:
  assumes "j \<le> length Z" and "dval Z + digit_base ^ j * dval P < digit_base ^ length Z"
  obtains Z' c where "at_offset j (\<lambda>W. AddAndReturnOverflow W P) Z = Some (Z', c)" "length Z' = length Z"
    "dval Z' = dval Z + digit_base ^ j * dval P"
proof -
  have "digit_base ^ j * dval P < digit_base ^ j * digit_base ^ (length Z - j)" using assms by (simp flip: power_add)
  then have "length (Normalize P) \<le> length Z - j" by (intro Normalize_length_le) simp
  with assms(1) have fits: "j + length (Normalize P) \<le> length Z" by simp
  obtain Z' c e where Z': "at_offset j (\<lambda>W. AddAndReturnOverflow W P) Z = Some (Z', c)" "length Z' = length Z"
    "int (dval Z') = int (dval Z) + int digit_base ^ j * int (dval P) - int digit_base ^ length Z * e"
    by (rule at_offset_Add [OF fits])
  have "dval (take (length Z) Z') = dval Z + digit_base ^ j * dval P"
    by (rule dval_low_product [of _ _ _ "- e"]) (use Z'(3) assms(2) in simp_all)
  with Z' that show thesis by simp
qed

definition chunk_ok :: "(nat \<Rightarrow> digit_t) \<Rightarrow> nat \<Rightarrow> bool" where
  "chunk_ok junk N \<longleftrightarrow> (\<forall>p Z X Y S. length X + length Y \<le> N \<longrightarrow> length X \<le> 192 \<longrightarrow> length Y \<le> 192 \<longrightarrow>
     length X + length Y \<le> length Z \<longrightarrow>
     (\<forall>m. 34 \<le> m \<longrightarrow> m \<le> min (length X) (length Y) \<longrightarrow> 4 * KaratsubaLength m \<le> length S) \<longrightarrow>
     (\<exists>p' Z' S'. KaratsubaChunk junk p Z X Y S = Some (p', Z', S') \<and> length Z' = length Z \<and> length S' = length S \<and>
        dval Z' = dval X * dval Y))"

lemma chunk_okE:
  assumes "chunk_ok junk N" and "length X + length Y \<le> N" and "length X \<le> k" and "length Y \<le> 192" and "k \<le> 192"
    and "length X + length Y \<le> length Z" and "4 * k \<le> length S" and "\<And>m. 34 \<le> m \<Longrightarrow> m \<le> k \<Longrightarrow> KaratsubaLength m \<le> k"
  obtains p' Z' S' where "KaratsubaChunk junk p Z X Y S = Some (p', Z', S')" "length Z' = length Z" "length S' = length S"
    "dval Z' = dval X * dval Y"
proof -
  have "\<forall>m. 34 \<le> m \<longrightarrow> m \<le> min (length X) (length Y) \<longrightarrow> 4 * KaratsubaLength m \<le> length S"
    using assms(3,7,8) by (meson le_trans min.cobounded1 mult_le_mono2)
  with assms(1) [unfolded chunk_ok_def, rule_format, of X Y Z S p] assms that show thesis by auto
qed

lemma product_lt: "length X + length Y \<le> n \<Longrightarrow> dval X * dval Y < digit_base ^ n"
proof -
  assume n: "length X + length Y \<le> n"
  have "dval X * dval Y < digit_base ^ length X * digit_base ^ length Y" by (intro mult_strict_mono dval_lt) simp_all
  also have "\<dots> \<le> digit_base ^ n" using n by (simp add: Suc_leI power_increasing flip: power_add)
  finally show ?thesis .
qed

lemma dval_take_le: "dval (take n X) \<le> dval X"
  using dval_take_drop [of X n] by simp

lemma add_chunk:
  assumes "chunk_ok junk N" and "length V + length W \<le> N" and "length V \<le> k" and "length W \<le> k" and "k \<le> 192"
    and "length T = 2 * k" and "4 * k \<le> length S" and "\<And>m. 34 \<le> m \<Longrightarrow> m \<le> k \<Longrightarrow> KaratsubaLength m \<le> k"
    and "j \<le> length Z" and "dval Z + digit_base ^ j * (dval V * dval W) < digit_base ^ length Z"
  obtains p' T' S' Z' c where "KaratsubaChunk junk p T V W S = Some (p', T', S')" "length T' = 2 * k" "length S' = length S"
    "at_offset j (\<lambda>W. AddAndReturnOverflow W T') Z = Some (Z', c)" "length Z' = length Z"
    "dval Z' = dval Z + digit_base ^ j * (dval V * dval W)"
proof -
  obtain p' T' S' where 1: "KaratsubaChunk junk p T V W S = Some (p', T', S')" "length T' = length T" "length S' = length S"
    "dval T' = dval V * dval W"
    by (rule chunk_okE [OF assms(1-3) _ assms(5) _ assms(7,8), of T p]) (use assms(3-6) in simp_all)
  obtain Z' c where 2: "at_offset j (\<lambda>W. AddAndReturnOverflow W T') Z = Some (Z', c)" "length Z' = length Z"
    "dval Z' = dval Z + digit_base ^ j * dval T'"
    by (rule at_offset_Add_exact [OF assms(9), of T']) (use assms(10) 1(4) in simp_all)
  show thesis by (rule that [OF 1(1) _ 1(3) 2(1,2)]) (use 1 2 assms(6) in simp_all)
qed

lemma optional_chunk:
  assumes "chunk_ok junk N" and "length V + length W \<le> N" and "length V \<le> k" and "length W \<le> k" and "k \<le> 192"
    and "length T = 2 * k" and "4 * k \<le> length S" and "\<And>m. 34 \<le> m \<Longrightarrow> m \<le> k \<Longrightarrow> KaratsubaLength m \<le> k"
    and "W \<noteq> [] \<Longrightarrow> j \<le> length Z" and "dval Z + digit_base ^ j * (dval V * dval W) < digit_base ^ length Z"
  obtains p' Z' T' S' where "(if length W > 0 then do {
      (p, T, scratch) \<leftarrow> KaratsubaChunk junk p T V W S;
      (Z, _) \<leftarrow> at_offset j (\<lambda>W. AddAndReturnOverflow W T) Z;
      Some (p, Z, T, scratch) } else Some (p, Z, T, S)) = Some (p', Z', T', S')" "length Z' = length Z" "length T' = 2 * k"
    "length S' = length S" "dval Z' = dval Z + digit_base ^ j * (dval V * dval W)"
proof (cases "W = []")
  case True
  show thesis by (rule that [of p Z T S]) (use True assms(6) in simp_all)
next
  case False
  obtain p' T' S' Z' c where "KaratsubaChunk junk p T V W S = Some (p', T', S')" "length T' = 2 * k" "length S' = length S"
    "at_offset j (\<lambda>W. AddAndReturnOverflow W T') Z = Some (Z', c)" "length Z' = length Z"
    "dval Z' = dval Z + digit_base ^ j * (dval V * dval W)"
    by (rule add_chunk [OF assms(1-8) assms(9) [OF False] assms(10)])
  then show thesis by (intro that [of p' Z' T' S']) (simp_all add: False)
qed

lemma KaratsubaChunks_spec:
  assumes ok: "chunk_ok junk N" and k: "0 < k" "k \<le> 192" "\<And>m. 34 \<le> m \<Longrightarrow> m \<le> k \<Longrightarrow> KaratsubaLength m \<le> k"
    and Y: "Y0 = take k Y" "Y1 = drop k Y" "length Y \<le> 2 * k" and Z: "length X + length Y \<le> length Z"
    and "i \<le> length X \<or> rest = []" and "rest = drop i X" and "length rest + length Y \<le> N" and "length T = 2 * k" and "4 * k \<le> length S"
    and "dval Z = dval (take i X) * dval Y"
  shows "\<exists>p' Z' S'. KaratsubaChunks junk Y0 Y1 k rest i p Z T S = Some (p', Z', S') \<and> length Z' = length Z \<and>
    length S' = length S \<and> dval Z' = dval X * dval Y"
  using assms(9-14) Z
proof (induction "length rest" arbitrary: rest i p Z T S rule: less_induct)
  case less
  show ?case
  proof (cases "rest = []")
    case True
    with less.prems(2,6) have "dval Z = dval X * dval Y" by simp
    with True show ?thesis by (simp add: KaratsubaChunks.simps)
  next
    case False
    let ?Xi = "Digits_slice rest 0 k" and ?b = digit_base
    have i: "i < length X" using False less.prems(2) by simp
    have Xi: "dval (take (i + k) X) = dval (take i X) + ?b ^ i * dval ?Xi"
      using i less.prems(2) by (simp add: take_add Digits_slice_def)
    have Yk: "dval Y = dval Y0 + ?b ^ k * dval Y1" unfolding Y by (rule dval_take_drop)
    have "dval (take (i + k) X) * dval Y \<le> dval X * dval Y" by (intro mult_le_mono1 dval_take_le)
    also have "\<dots> < ?b ^ length Z" by (rule product_lt [OF less.prems(7)])
    finally have bound: "dval Z + (?b ^ i * dval ?Xi * dval Y0 + ?b ^ i * dval ?Xi * (?b ^ k * dval Y1)) < ?b ^ length Z"
      unfolding Xi less.prems(6) Yk by (simp add: algebra_simps)
    obtain p1 T1 S1 Z1 c1 where 1: "KaratsubaChunk junk p T ?Xi Y0 S = Some (p1, T1, S1)" "length T1 = 2 * k" "length S1 = length S"
      "at_offset i (\<lambda>W. AddAndReturnOverflow W T1) Z = Some (Z1, c1)" "length Z1 = length Z"
      "dval Z1 = dval Z + ?b ^ i * (dval ?Xi * dval Y0)"
      by (rule add_chunk [OF ok _ _ _ k(2) less.prems(4,5) k(3), of ?Xi Y0 i Z p]) 
         (use less.prems i Y bound in \<open>simp_all add: algebra_simps\<close>)
    obtain p2 Z2 T2 S2 where 2: "(if length Y1 > 0 then do {
             (p, T, scratch) \<leftarrow> KaratsubaChunk junk p1 T1 ?Xi Y1 S1;
             (Z, _) \<leftarrow> at_offset (i + k) (\<lambda>W. AddAndReturnOverflow W T) Z1;
             Some (p, Z, T, scratch) } else Some (p1, Z1, T1, S1)) = Some (p2, Z2, T2, S2)" "length Z2 = length Z1"
        "length T2 = 2 * k" "length S2 = length S1" "dval Z2 = dval Z1 + ?b ^ (i + k) * (dval ?Xi * dval Y1)"
      by (rule optional_chunk [OF ok _ _ _ k(2) 1(2) _ k(3), of ?Xi Y1 S1 "i + k" Z1 p1])
        (use less.prems 1 i Y bound in \<open>simp_all add: algebra_simps power_add\<close>)
    have Z2: "dval Z2 = dval (take (i + k) X) * dval Y"
      unfolding Xi Yk 2(5) 1(6) less.prems(6) by (simp add: algebra_simps power_add)
    have run: "KaratsubaChunks junk Y0 Y1 k rest i p Z T S = KaratsubaChunks junk Y0 Y1 k (drop k rest) (i + k) p2 Z2 T2 S2"
      using False k(1) by (subst KaratsubaChunks.simps) (simp only: Let_def 1(1,4) 2(1) bind.simps prod.case if_False, simp)
    have "length (drop k rest) < length rest" using False k(1) by (cases rest) simp_all
    then have "\<exists>p' Z' S'. KaratsubaChunks junk Y0 Y1 k (drop k rest) (i + k) p2 Z2 T2 S2 = Some (p', Z', S') \<and>
        length Z' = length Z2 \<and> length S' = length S2 \<and> dval Z' = dval X * dval Y"
      by (rule less.hyps) (use less.prems 1 2 Z2 in \<open>auto simp: add.commute\<close>)
    with run 1(3,5) 2(2,4) show ?thesis by simp
  qed
qed


lemma KaratsubaMain_spec:
  assumes "34 \<le> length Y" and "length Y \<le> 192" and "length Y \<le> length X" and "length X + length Y \<le> length Z"
    and "k = KaratsubaLength (length Y)" and "4 * k \<le> length S"
  obtains p' Z' S' where "KaratsubaMain p Z X Y S k = Some (p', Z', S')" "length Z' = length Z" "length S' = length S"
    "dval (take (2 * k) Z') = dval (take k X) * dval (take k Y)"
proof -
  note facts = KaratsubaLength_facts [OF assms(1,2), folded assms(5)]
  have "dval (take k X) * dval (take k Y) \<le> dval X * dval Y" by (intro mult_le_mono dval_take_le)
  also have "\<dots> < digit_base ^ length Z" by (rule product_lt [OF assms(4)])
  finally have "\<exists>p' Z' S'. KaratsubaMain p Z X Y S k = Some (p', Z', S') \<and> length Z' = length Z \<and> length S' = length S \<and>
        dval (take (2 * k) Z') = dval (take k X) * dval (take k Y)"
    using assms facts by (intro halvable_main_ok [OF facts(3), unfolded main_ok_def, rule_format]) (simp_all add: kKaratsubaThreshold_def)
  with that show thesis by blast
qed

lemma KaratsubaStart_spec:
  assumes "chunk_ok junk N" and "length X + length Y \<le> N + 1" and "34 \<le> length Y" and "length Y \<le> 192" and "length Y \<le> length X"
    and "length X + length Y \<le> length Z" and "k = KaratsubaLength (length Y)" and "4 * k \<le> length S"
  shows "\<exists>p' Z' S'. KaratsubaStart junk p Z X Y S k = Some (p', Z', S') \<and> length Z' = length Z \<and> length S' = length S \<and> dval Z' = dval X * dval Y"
proof -
  note facts = KaratsubaLength_facts [OF assms(3,4), folded assms(7)]
  have k: "0 < k" "k \<le> 192" using facts by simp_all
  obtain p1 Z0 S1 where 1: "KaratsubaMain p Z X Y S k = Some (p1, Z0, S1)" "length Z0 = length Z" "length S1 = length S"
    "dval (take (2 * k) Z0) = dval (take k X) * dval (take k Y)"
    by (rule KaratsubaMain_spec [OF assms(3-8)])
  obtain Z1 where 2: "zero_from (2 * k) Z0 = Some Z1" "length Z1 = length Z" "dval Z1 = dval (take k X) * dval (take k Y)"
  proof (cases "2 * k \<le> length Z0")
    case True
    with zero_from_eq [OF this] 1 that show ?thesis by (simp add: min_def)
  next
    case False
    with 1 that show ?thesis by (simp add: zero_from_def for_up.simps)
  qed
  show ?thesis
  proof (cases "k < length Y \<or> length X \<noteq> length Y")
    case False
    then have "KaratsubaStart junk p Z X Y S k = Some (p1, Z1, S1)"
      using k by (subst KaratsubaStart.simps) (simp add: 1(1) 2(1))
    with False 1(3) 2 show ?thesis by simp
  next
    case True
    let ?T = "ScratchDigits junk (2 * k)" and ?X0 = "Digits_slice X 0 k" and ?Y1 = "drop (min k (length Y)) Y"
    have Y1: "?Y1 = drop k Y" by (simp add: min_def)
    have T: "length ?T = 2 * k" by (simp add: ScratchDigits_def)
    have Yk: "dval Y = dval (take k Y) + digit_base ^ k * dval (drop k Y)" by (rule dval_take_drop)
    have "dval (take k X) * dval Y \<le> dval X * dval Y" by (intro mult_le_mono1 dval_take_le)
    also have "\<dots> < digit_base ^ length Z" by (rule product_lt [OF assms(6)])
    finally have bound: "dval Z1 + digit_base ^ k * (dval ?X0 * dval ?Y1) < digit_base ^ length Z1"
      unfolding 2(2,3) Yk Y1 by (simp add: Digits_slice_def algebra_simps)
    obtain p2 Z2 T2 S2 where 3: "(if length ?Y1 > 0 then do {
               (p, T, scratch) \<leftarrow> KaratsubaChunk junk p1 ?T ?X0 ?Y1 S1;
               (Z, _) \<leftarrow> at_offset k (\<lambda>W. AddAndReturnOverflow W T) Z1;
               Some (p, Z, T, scratch)
             } else Some (p1, Z1, ?T, S1)) = Some (p2, Z2, T2, S2)" "length Z2 = length Z1" "length T2 = 2 * k"
        "length S2 = length S1" "dval Z2 = dval Z1 + digit_base ^ k * (dval ?X0 * dval ?Y1)"
      by (rule optional_chunk [OF assms(1) _ _ _ k(2) T _ facts(6) _ bound, of S1 p1])
        (use assms k facts(5) 1(3) 2(2) True in auto)
    have run: "KaratsubaStart junk p Z X Y S k = KaratsubaChunks junk (take k Y) ?Y1 k (drop k X) k p2 Z2 T2 S2"
      using k True by (subst KaratsubaStart.simps) (simp only: Let_def 1(1) 2(1) 3(1) bind.simps prod.case if_True, simp add: Digits_slice_def)
    have Z2: "dval Z2 = dval (take k X) * dval Y" unfolding 3(5) 2(3) Yk Y1 by (simp add: Digits_slice_def algebra_simps)
    have "\<exists>p' Z' S'. KaratsubaChunks junk (take k Y) (drop k Y) k (drop k X) k p2 Z2 T2 S2 = Some (p', Z', S') \<and>
        length Z' = length Z2 \<and> length S' = length S2 \<and> dval Z' = dval X * dval Y"
      by (rule KaratsubaChunks_spec [OF assms(1) k facts(6) refl refl])
        (use assms(2,3,5,6,8) facts(5) 1(3) 2(2) 3(2-4) k Z2 in auto)
    then show ?thesis unfolding run Y1 using 1(3) 2(2) 3(2,4) by simp
  qed
qed

lemma KaratsubaChunk_step:
  assumes "chunk_ok junk N"
  shows "chunk_ok junk (Suc N)"
  unfolding chunk_ok_def
proof (intro allI impI)
  fix p and Z X Y S :: digits
  assume A: "length X + length Y \<le> Suc N" "length X \<le> 192" "length Y \<le> 192" "length X + length Y \<le> length Z"
    and S: "\<forall>m. 34 \<le> m \<longrightarrow> m \<le> min (length X) (length Y) \<longrightarrow> 4 * KaratsubaLength m \<le> length S"
  let ?X = "Normalize X" and ?Y = "Normalize Y"
  note le = length_Normalize [of X] length_Normalize [of Y]
  define V W where "V = (if length ?X < length ?Y then ?Y else ?X)" and "W = (if length ?X < length ?Y then ?X else ?Y)"
  have VW: "length W \<le> length V" "length V + length W \<le> Suc N" "length V \<le> 192" "length V + length W \<le> length Z"
    "length W \<le> min (length X) (length Y)" "dval V * dval W = dval X * dval Y"
    using A le by (auto simp: V_def W_def)
  have run: "KaratsubaChunk junk p Z X Y S = (if length W = 0 then Some (p, Clear Z, S)
      else if length W = 1 then do { w \<leftarrow> rd W 0; (p, Z) \<leftarrow> MultiplySingle p Z V w; Some (p, Z, S) }
      else if length W < kKaratsubaThreshold then do { (p, Z) \<leftarrow> MultiplySchoolbook p Z V W; Some (p, Z, S) }
      else KaratsubaStart junk p Z V W S (KaratsubaLength (length W)))"
    by (subst KaratsubaChunk.simps) (auto simp: V_def W_def Let_def)
  consider "length W = 0" | "length W = 1" | "2 \<le> length W" "length W < 34" | "34 \<le> length W" by linarith
  then show "\<exists>p' Z' S'. KaratsubaChunk junk p Z X Y S = Some (p', Z', S') \<and> length Z' = length Z \<and> length S' = length S \<and>
        dval Z' = dval X * dval Y"
  proof cases
    case 1
    then show ?thesis using VW(6) by (simp add: run Clear_def)
  next
    case 2
    then obtain w where w: "W = [w]" by (cases W) auto
    have "length V < length Z" using VW(4) 2 by simp
    from MultiplySingle_spec [OF this, of p w] show ?thesis using VW(6) by (auto simp: run w rd_def)
  next
    case 3
    from MultiplySchoolbook_spec [OF VW(1,4), of p] small_length_digit_base [of "length V"] VW(3) 3 show ?thesis
      by (auto simp: run kKaratsubaThreshold_def VW(6))
  next
    case 4
    have "length W \<le> 192" using VW(1,3) by simp
    moreover have "4 * KaratsubaLength (length W) \<le> length S" using S 4 VW(5) by blast
    ultimately have "\<exists>p' Z' S'. KaratsubaStart junk p Z V W S (KaratsubaLength (length W)) = Some (p', Z', S') \<and>
        length Z' = length Z \<and> length S' = length S \<and> dval Z' = dval V * dval W"
      using VW 4 by (intro KaratsubaStart_spec [OF assms]) simp_all
    with 4 show ?thesis by (auto simp: run kKaratsubaThreshold_def VW(6))
  qed
qed

lemma chunk_ok_all: "chunk_ok junk N"
proof (induction N)
  case 0
  have "Normalize [] = []" using length_Normalize [of "[]"] by simp
  then show ?case by (auto simp: chunk_ok_def KaratsubaChunk.simps Clear_def)
qed (rule KaratsubaChunk_step)

lemma MultiplyKaratsuba_spec:
  assumes "34 \<le> length Y" and "length Y \<le> 192" and "length Y \<le> length X" and "length X + length Y \<le> length Z"
  shows "\<exists>p' Z'. MultiplyKaratsuba junk p Z X Y = Some (p', Z') \<and> length Z' = length Z \<and> dval Z' = dval X * dval Y"
proof -
  let ?k = "KaratsubaLength (length Y)"
  have "\<exists>p' Z' S'. KaratsubaStart junk p Z X Y (ScratchDigits junk (4 * ?k)) ?k = Some (p', Z', S') \<and>
      length Z' = length Z \<and> length S' = length (ScratchDigits junk (4 * ?k)) \<and> dval Z' = dval X * dval Y"
    by (rule KaratsubaStart_spec [OF chunk_ok_all [of _ "length X + length Y"]]) (use assms in \<open>simp_all add: ScratchDigits_def\<close>)
  then show ?thesis by (auto simp: MultiplyKaratsuba_def)
qed

section \<open>Properties\<close>

text \<open>
  C10.  For operands in the range where the multiplication uses the Karatsuba algorithm, every access to the operands,
  the product and the shared scratch buffer stays in bounds, the recursion ends, and the product buffer holds the exact
  product, whatever the scratch memory contained.
\<close>
theorem MultiplyKaratsuba_correct:
  assumes "34 \<le> length Y" and "length Y \<le> 192" and "length Y \<le> length X" and "length X + length Y \<le> length Z"
  shows "\<exists>p' Z'. MultiplyKaratsuba junk p Z X Y = Some (p', Z') \<and> length Z' = length Z \<and> dval Z' = dval X * dval Y"
  by (rule MultiplyKaratsuba_spec [OF assms])

theorem MultiplyKaratsuba_correct_witness:
  "\<exists>p' Z'. MultiplyKaratsuba (\<lambda>i. 7) (ProcessorImpl_new (\<lambda>_. False)) (replicate 80 3) (replicate 40 5) (replicate 34 9) = Some (p', Z') \<and>
    length Z' = length (replicate 80 (3 :: digit_t)) \<and> dval Z' = dval (replicate 40 5) * dval (replicate 34 9)"
  by (rule MultiplyKaratsuba_correct) simp_all

end
