(* ===== verification/Bigint_Divide.thy ===== *)
theory Bigint_Divide
  imports Bigint_Mul Bigint_Shift
begin

text \<open>
  \<open>bigint/div-helpers.{h,cc}\<close> and \<open>bigint/div-schoolbook.cc\<close>: division of digit vectors by a single digit, and Knuth's
  algorithm D.  The contents of scratch buffers before they are written are the parameter \<open>junk\<close>.
\<close>

section \<open>Helpers\<close>

definition Copy_digits :: "digits \<Rightarrow> digits \<Rightarrow> digits option" where
  "Copy_digits Z X = do { Z \<leftarrow> copy_loop X 0 (length X) Z; zero_from (length X) Z }"

definition LeftShift_helper :: "digits \<Rightarrow> digits \<Rightarrow> nat \<Rightarrow> digits option" where
  "LeftShift_helper Z X shift =
     (if shift = 0 then Copy_digits Z X
      else do {
        (Z, carry) \<leftarrow> for_up 0 (length X) (\<lambda>i (Z, carry). do {
          d \<leftarrow> rd X i;
          Z \<leftarrow> wr Z i (push_bit shift d OR carry);
          Some (Z, drop_bit (kDigitBits - shift) d) }) (Z, 0);
        let i = length X;
        (i, Z) \<leftarrow> (if i < length Z then do { Z \<leftarrow> wr Z i carry; Some (i + 1, Z) } else Some (i, Z));
        zero_from i Z })"

definition RightShift_helper :: "digits \<Rightarrow> digits \<Rightarrow> nat \<Rightarrow> digits option" where
  "RightShift_helper Z X shift =
     (let X = Normalize X
      in if shift = 0 then Copy_digits Z X
         else do {
           (i, Z) \<leftarrow> (if length X > 0 then do {
               x \<leftarrow> rd X 0;
               let carry = drop_bit shift x;
               let last = length X - 1;
               (Z, carry) \<leftarrow> for_up 0 last (\<lambda>i (Z, carry). do {
                 d \<leftarrow> rd X (i + 1);
                 Z \<leftarrow> wr Z i (push_bit (kDigitBits - shift) d OR carry);
                 Some (Z, drop_bit shift d) }) (Z, carry);
               Z \<leftarrow> wr Z last carry;
               Some (last + 1, Z)
             } else Some (0, Z));
           zero_from i Z })"

definition ShiftedDigits :: "(nat \<Rightarrow> digit_t) \<Rightarrow> digits \<Rightarrow> (digits \<times> nat) option" where
  "ShiftedDigits junk original = do {
     top \<leftarrow> msd original;
     let shift = CountLeadingZeros top;
     if shift = 0 then Some (original, shift)
     else do {
       rw_view \<leftarrow> LeftShift_helper (ScratchDigits junk (length original)) original shift;
       Some (rw_view, shift) } }"

section \<open>Division by a digit\<close>

definition DivideSingle_loop :: "digits \<Rightarrow> digit_t \<Rightarrow> nat \<Rightarrow> digits \<times> digit_t \<Rightarrow> (digits \<times> digit_t) option" where
  "DivideSingle_loop A b n s = for_down n (\<lambda>i (Q, remainder). do {
     a \<leftarrow> rd A i;
     (q, remainder) \<leftarrow> digit_div remainder a b;
     Q \<leftarrow> wr Q i q;
     Some (Q, remainder) }) s"

definition DivideSingle :: "digits \<Rightarrow> digits \<Rightarrow> digit_t \<Rightarrow> (digits \<times> digit_t) option" where
  "DivideSingle Q A b =
     (let len = length A
      in if length Q \<noteq> 0 then do {
           top \<leftarrow> rd A (len - 1);
           if top \<ge> b then do {
             (Q, remainder) \<leftarrow> DivideSingle_loop A b len (Q, 0);
             Q \<leftarrow> zero_from len Q;
             Some (Q, remainder)
           } else do {
             (Q, remainder) \<leftarrow> DivideSingle_loop A b (len - 1) (Q, top);
             Q \<leftarrow> zero_from (len - 1) Q;
             Some (Q, remainder) }
         } else do {
           remainder \<leftarrow> for_down len (\<lambda>i remainder. do {
             a \<leftarrow> rd A i;
             (q, remainder) \<leftarrow> digit_div remainder a b;
             Some remainder }) 0;
           Some (Q, remainder) })"

section \<open>Algorithm D\<close>

definition InplaceAdd :: "digits \<Rightarrow> digits \<Rightarrow> (digits \<times> digit_t) option" where
  "InplaceAdd Z X = AddAndReturnCarry Z (\<lambda>Z. Z) X"

definition InplaceSub :: "digits \<Rightarrow> digits \<Rightarrow> (digits \<times> digit_t) option" where
  "InplaceSub Z X = SubtractAndReturnBorrow Z (\<lambda>Z. Z) X"

definition ProductGreaterThan :: "digit_t \<Rightarrow> digit_t \<Rightarrow> digit_t \<Rightarrow> digit_t \<Rightarrow> bool" where
  "ProductGreaterThan factor1 factor2 high low \<longleftrightarrow>
     (let (result_low, result_high) = digit_mul factor1 factor2
      in result_high > high \<or> (result_high = high \<and> result_low > low))"

lemma ProductGreaterThan_iff:
  "ProductGreaterThan f g high low \<longleftrightarrow> unat f * unat g > unat high * digit_base + unat low"
proof -
  obtain l h where lh: "digit_mul f g = (l, h)" by fastforce
  have eq: "unat l + digit_base * unat h = unat f * unat g" using digit_mul_eq [of f g] lh by simp
  have "unat l < digit_base" "unat low < digit_base" by (simp_all add: unat_lt_base)
  then have "unat h > unat high \<or> (unat h = unat high \<and> unat l > unat low) \<longleftrightarrow>
      unat l + digit_base * unat h > unat high * digit_base + unat low"
  proof -
    assume l: "unat l < digit_base" "unat low < digit_base"
    consider "unat h < unat high" | "unat h = unat high" | "unat h > unat high" by linarith
    then show ?thesis
    proof cases
      case 1
      then have "digit_base * Suc (unat h) \<le> digit_base * unat high" by (intro mult_le_mono2) simp
      with 1 l show ?thesis by (simp add: mult.commute)
    next
      case 2
      then show ?thesis by (simp add: mult.commute)
    next
      case 3
      then have "digit_base * Suc (unat high) \<le> digit_base * unat h" by (intro mult_le_mono2) simp
      with 3 l show ?thesis by (simp add: mult.commute)
    qed
  qed
  then show ?thesis using eq by (auto simp: ProductGreaterThan_def lh word_less_nat_alt word_unat_eq_iff)
qed

function qhat_adjust :: "digit_t \<Rightarrow> digit_t \<Rightarrow> digit_t \<Rightarrow> digit_t \<Rightarrow> digit_t \<Rightarrow> digit_t" where
  "qhat_adjust vn1 vn2 ujn2 qhat rhat =
     (if ProductGreaterThan qhat vn2 rhat ujn2 then
        (let qhat = qhat - 1; prev_rhat = rhat; rhat = rhat + vn1
         in if rhat < prev_rhat then qhat else qhat_adjust vn1 vn2 ujn2 qhat rhat)
      else qhat)"
  by pat_completeness auto
termination
proof (relation "measure (\<lambda>(vn1, vn2, ujn2, qhat, rhat). unat qhat)")
  fix vn1 vn2 ujn2 qhat rhat q' prev r' :: digit_t
  assume p: "ProductGreaterThan qhat vn2 rhat ujn2" and q': "q' = qhat - 1"
  from p have "unat rhat * digit_base + unat ujn2 < unat qhat * unat vn2" by (simp only: ProductGreaterThan_iff)
  then have "0 < unat qhat" by (cases "unat qhat") simp_all
  then have "unat q' < unat qhat" by (simp add: q' unat_digit_sub Suc_leI)
  then show "((vn1, vn2, ujn2, q', r'), vn1, vn2, ujn2, qhat, rhat) \<in> measure (\<lambda>(vn1, vn2, ujn2, qhat, rhat). unat qhat)"
    by simp
qed simp

declare qhat_adjust.simps [simp del]

definition estimate_qhat :: "digits \<Rightarrow> digits \<Rightarrow> nat \<Rightarrow> digit_t \<Rightarrow> nat \<Rightarrow> digit_t option" where
  "estimate_qhat U B n vn1 j = do {
     let qhat = - 1;
     ujn \<leftarrow> rd U (j + n);
     if ujn \<noteq> vn1 then do {
       u \<leftarrow> rd U (j + n - 1);
       (qhat, rhat) \<leftarrow> digit_div ujn u vn1;
       vn2 \<leftarrow> rd B (n - 2);
       ujn2 \<leftarrow> rd U (j + n - 2);
       Some (qhat_adjust vn1 vn2 ujn2 qhat rhat)
     } else Some qhat }"

definition subtract_product :: "digits \<Rightarrow> digits \<Rightarrow> nat \<Rightarrow> nat \<Rightarrow> digits \<Rightarrow> digit_t \<Rightarrow> (digits \<times> digit_t) option" where
  "subtract_product U B n j qhatv qhat = do {
     (U, c) \<leftarrow> at_offset j (\<lambda>W. InplaceSub W qhatv) U;
     if c \<noteq> 0 then do {
       (U, c) \<leftarrow> at_offset j (\<lambda>W. InplaceAdd W B) U;
       u \<leftarrow> rd U (j + n);
       U \<leftarrow> wr U (j + n) (u + c);
       Some (U, qhat - 1)
     } else Some (U, qhat) }"

definition schoolbook_step :: "digits \<Rightarrow> nat \<Rightarrow> digit_t \<Rightarrow> nat \<Rightarrow> ProcessorImpl \<times> digits \<times> digits \<times> digits \<Rightarrow>
    (ProcessorImpl \<times> digits \<times> digits \<times> digits) option" where
  "schoolbook_step B n vn1 j = (\<lambda>(p, qhatv, U, Q). do {
     qhat \<leftarrow> estimate_qhat U B n vn1 j;
     (p, qhatv) \<leftarrow> (if qhat = 0 then Some (p, Clear qhatv) else MultiplySingle p qhatv B qhat);
     (U, qhat) \<leftarrow> subtract_product U B n j qhatv qhat;
     Q \<leftarrow> (if length Q \<noteq> 0 \<and> j < length Q then wr Q j qhat else Some Q);
     Some (p, qhatv, U, Q) })"

definition DivideSchoolbook :: "(nat \<Rightarrow> digit_t) \<Rightarrow> ProcessorImpl \<Rightarrow> digits \<Rightarrow> digits \<Rightarrow> digits \<Rightarrow> digits \<Rightarrow>
    (ProcessorImpl \<times> digits \<times> digits) option" where
  "DivideSchoolbook junk p Q R A B =
     (let n = length B;
          m = int (length A) - int n;
          qhatv = ScratchDigits junk (n + 1)
      in do {
        (B, shift) \<leftarrow> ShiftedDigits junk B;
        U \<leftarrow> LeftShift_helper (ScratchDigits junk (length A + 1)) A shift;
        vn1 \<leftarrow> rd B (n - 1);
        (p, qhatv, U, Q) \<leftarrow> for_down (nat (m + 1)) (schoolbook_step B n vn1) (p, qhatv, U, Q);
        R \<leftarrow> (if length R \<noteq> 0 then RightShift_helper R U shift else Some R);
        Q \<leftarrow> zero_from (nat (m + 1)) Q;
        Some (p, Q, R) })"

section \<open>Shift helpers\<close>

lemma Copy_digits_spec:
  assumes "length X \<le> length Z"
  shows "\<exists>Z'. Copy_digits Z X = Some Z' \<and> length Z' = length Z \<and> dval Z' = dval X"
proof -
  have "Copy_digits Z X = Some (X @ replicate (length Z - length X) 0)"
    using assms by (simp add: Copy_digits_def copy_loop_eq zero_from_eq)
  then show ?thesis using assms by (simp add: dval_append)
qed

lemma lsh_carry_fits:
  assumes "b < 64" and "dval X * 2 ^ b < digit_base ^ length X"
  shows "lsh_carry b X (length X) = 0"
proof (cases "X = []")
  case False
  let ?P = "digit_base ^ (length X - 1)"
  have P: "digit_base ^ length X = ?P * digit_base" using False by (cases X) simp_all
  have "?P * (unat (last X) * 2 ^ b) \<le> dval X * 2 ^ b" using dval_last [OF False] by simp
  with assms(2) P have "?P * (unat (last X) * 2 ^ b) < ?P * digit_base" by linarith
  then have "unat (last X) * 2 ^ b < digit_base" by simp
  also have "digit_base = 2 ^ (64 - b) * 2 ^ b" using assms(1) by (simp add: digit_base_def flip: power_add)
  finally have "unat (last X) < 2 ^ (64 - b)" by simp
  then have "unat (drop_bit (64 - b) (last X)) = 0" unfolding unat_drop_bit_eq by (simp add: drop_bit_eq_div)
  then have "drop_bit (64 - b) (last X) = 0" by (simp only: unat_eq_0)
  then show ?thesis using False by (simp add: lsh_carry_def digit_at_def last_conv_nth)
qed (simp add: lsh_carry_def)

lemma LeftShift_helper_spec:
  assumes "shift < 64" and "length X \<le> length Z" and "dval X * 2 ^ shift < digit_base ^ length Z"
  shows "\<exists>Z'. LeftShift_helper Z X shift = Some Z' \<and> length Z' = length Z \<and> dval Z' = dval X * 2 ^ shift"
proof (cases "shift = 0")
  case True
  then show ?thesis using Copy_digits_spec [OF assms(2)] by (simp add: LeftShift_helper_def)
next
  case False
  let ?G = "lsh_at 0 shift X" and ?n = "length X" and ?c = "lsh_carry shift X (length X)"
  have loop: "for_up 0 ?n (\<lambda>i (Z, carry). do {
          d \<leftarrow> rd X i;
          Z \<leftarrow> wr Z i (push_bit shift d OR carry);
          Some (Z, drop_bit (kDigitBits - shift) d) }) (Z, 0) = Some (fill ?G ?n Z, ?c)"
    using lsh_loops(3) [of 0 X Z shift] assms by simp
  have room: "?n + of_bool (?c \<noteq> 0) \<le> length Z"
    using assms lsh_carry_fits [OF assms(1), of X] by (cases "?n = length Z") auto
  have c: "?G ?n = ?c" by (simp add: lsh_at_def)
  have "LeftShift_helper Z X shift = Some (map ?G [0..<length Z])"
  proof (cases "?n < length Z")
    case True
    have "wr (fill ?G ?n Z) ?n ?c = Some (fill ?G (Suc ?n) Z)"
      using fill_update [of ?n Z ?G] True by (simp add: wr_def c)
    moreover have "zero_from (Suc ?n) (fill ?G (Suc ?n) Z) = Some (map ?G [0..<length Z])"
      using True by (intro zero_from_fill) (simp_all add: lsh_at_beyond)
    ultimately show ?thesis using True False assms(2) by (simp add: LeftShift_helper_def loop)
  next
    case f: False
    then have n: "?n = length Z" using assms(2) by simp
    then show ?thesis using False zero_from_eq [of "length Z" "map ?G [0..<length Z]"] loop [unfolded n] by (simp add: LeftShift_helper_def n)
  qed
  moreover have "int (dval (map ?G [0..<length Z])) = int (dval X * 2 ^ shift)"
    using dval_lsh [OF assms(1), of 0 X "length Z"] room by (simp add: push_bit_eq_mult)
  ultimately show ?thesis by (simp only: of_nat_eq_iff) simp
qed

lemma RightShift_helper_spec:
  assumes "shift < 64" and "length (Normalize X) \<le> length Z"
  shows "\<exists>Z'. RightShift_helper Z X shift = Some Z' \<and> length Z' = length Z \<and> dval Z' = dval X div 2 ^ shift"
proof -
  let ?X = "Normalize X"
  let ?G = "rsh_at 0 shift ?X" and ?n = "length ?X"
  consider "shift = 0" | "shift \<noteq> 0" "?X = []" | "shift \<noteq> 0" "?X \<noteq> []" by blast
  then show ?thesis
  proof cases
    case 1
    then show ?thesis using Copy_digits_spec [OF assms(2)] by (simp add: RightShift_helper_def dval_Normalize)
  next
    case 2
    then have "dval X = 0" using dval_Normalize [of X] by simp
    with 2 show ?thesis using zero_from_eq [of 0 Z] by (simp add: RightShift_helper_def)
  next
    case 3
    then have n: "Suc (?n - 1) = ?n" by (cases ?X) simp_all
    let ?body = "\<lambda>i (Z, carry). do {
                 d \<leftarrow> rd ?X (i + 1);
                 Z \<leftarrow> wr Z i (push_bit (kDigitBits - shift) d OR carry);
                 Some (Z, drop_bit shift d) }"
    have loop: "for_up 0 (?n - 1) ?body (Z, drop_bit shift (?X ! 0)) = Some (fill ?G (?n - 1) Z, drop_bit shift (last ?X))"
      using rsh_loops(2) [of ?X 0 Z shift] assms 3 by simp
    have c: "?G (?n - 1) = drop_bit shift (last ?X)"
      using 3 n by (simp add: rsh_at_def digit_at_def last_conv_nth)
    have "wr (fill ?G (?n - 1) Z) (?n - 1) (drop_bit shift (last ?X)) = Some (fill ?G ?n Z)"
      using fill_update [of "?n - 1" Z ?G] n assms(2) unfolding c [symmetric] by (simp add: wr_def)
    moreover have "zero_from ?n (fill ?G ?n Z) = Some (map ?G [0..<length Z])"
      using assms(2) by (intro zero_from_fill) (simp_all add: rsh_at_beyond)
    ultimately have "RightShift_helper Z X shift = Some (map ?G [0..<length Z])"
      using 3 n loop by (simp add: RightShift_helper_def rd_def Let_def)
    moreover have "int (dval (map ?G [0..<length Z])) = int (dval X div 2 ^ shift)"
      using dval_rsh [OF assms(1), of ?X "length Z" 0] assms(2) by (simp add: dval_Normalize drop_bit_eq_div zdiv_int)
    ultimately show ?thesis by (simp only: of_nat_eq_iff) simp
  qed
qed

section \<open>Division by a digit\<close>

lemma digit_div_spec:
  assumes "unat h < unat d"
  obtains q r where "digit_div h l d = Some (q, r)" "unat h * digit_base + unat l = unat d * unat q + unat r" "unat r < unat d"
proof -
  let ?D = "unat h * digit_base + unat l"
  have d: "0 < unat d" using assms by simp
  have "?D < Suc (unat h) * digit_base" using unat_lt_base [of l] by simp
  also have "\<dots> \<le> unat d * digit_base" using assms by (intro mult_le_mono1) simp
  finally have q: "?D div unat d < digit_base" by (simp add: less_mult_imp_div_less mult.commute)
  have r: "?D mod unat d < unat d" using d by simp
  then have r': "?D mod unat d < digit_base" using unat_lt_base [of d] by linarith
  have "unat (of_nat (?D div unat d) :: digit_t) = ?D div unat d" "unat (of_nat (?D mod unat d) :: digit_t) = ?D mod unat d"
    using q r' by (simp_all add: unat_of_nat digit_base_def)
  moreover have "d \<noteq> 0" using d by auto
  ultimately show thesis
    using that [of "of_nat (?D div unat d)" "of_nat (?D mod unat d)"] q r
    by (simp add: digit_div_def Let_def)
qed

lemma DivideSingle_loop_spec:
  assumes "unat r < unat b" and "n \<le> length A" and "n \<le> length Q"
  shows "\<exists>Q' r'. DivideSingle_loop A b n (Q, r) = Some (Q', r') \<and> length Q' = length Q \<and> drop n Q' = drop n Q \<and>
    unat r * digit_base ^ n + dval (take n A) = unat b * dval (take n Q') + unat r' \<and> unat r' < unat b"
  using assms
proof (induction n arbitrary: Q r)
  case 0
  then show ?case by (simp add: DivideSingle_loop_def)
next
  case (Suc n)
  from digit_div_spec [OF Suc.prems(1), of "A ! n"] obtain q r1 where
    d: "digit_div r (A ! n) b = Some (q, r1)" "unat r * digit_base + unat (A ! n) = unat b * unat q + unat r1" "unat r1 < unat b" .
  from Suc.IH [OF d(3), of "Q[n := q]"] Suc.prems obtain Q' r' where
    loop: "DivideSingle_loop A b n (Q[n := q], r1) = Some (Q', r')" and Q': "length Q' = length Q" "drop n Q' = drop n (Q[n := q])"
    and eq: "unat r1 * digit_base ^ n + dval (take n A) = unat b * dval (take n Q') + unat r'" and r': "unat r' < unat b" by auto
  have "Q' ! n = q" using Q' Suc.prems(3) nth_drop_eq [OF Q'(2)] by simp
  then have t: "dval (take (Suc n) Q') = dval (take n Q') + digit_base ^ n * unat q"
    using dval_take_Suc [of n Q'] Q'(1) Suc.prems(3) by simp
  have "drop (Suc n) Q' = drop (Suc n) Q" using Q'(2) by (metis drop_Suc_update drop_SucI)
  moreover have "unat r * digit_base ^ Suc n + dval (take (Suc n) A) = unat b * dval (take (Suc n) Q') + unat r'"
  proof -
    have "unat r * digit_base ^ Suc n + dval (take (Suc n) A) = digit_base ^ n * (unat r * digit_base + unat (A ! n)) + dval (take n A)"
      using dval_take_Suc [of n A] Suc.prems(2) by (simp add: algebra_simps)
    also have "\<dots> = digit_base ^ n * (unat b * unat q) + (unat r1 * digit_base ^ n + dval (take n A))"
      by (simp only: d(2)) (simp add: algebra_simps)
    also have "\<dots> = unat b * dval (take (Suc n) Q') + unat r'" by (simp only: eq t) (simp add: algebra_simps)
    finally show ?thesis .
  qed
  moreover have "DivideSingle_loop A b (Suc n) (Q, r) = Some (Q', r')"
    using loop Suc.prems by (simp add: DivideSingle_loop_def rd_def wr_def d(1))
  ultimately show ?case using Q'(1) r' by blast
qed

lemma remainder_loop_spec:
  assumes "unat r < unat b" and "n \<le> length A"
  shows "\<exists>r'. for_down n (\<lambda>i remainder. do {
             a \<leftarrow> rd A i;
             (q, remainder) \<leftarrow> digit_div remainder a b;
             Some remainder }) r = Some r' \<and> unat r' = (unat r * digit_base ^ n + dval (take n A)) mod unat b"
  using assms
proof (induction n arbitrary: r)
  case (Suc n)
  from digit_div_spec [OF Suc.prems(1), of "A ! n"] obtain q r1 where
    d: "digit_div r (A ! n) b = Some (q, r1)" "unat r * digit_base + unat (A ! n) = unat b * unat q + unat r1" "unat r1 < unat b" .
  have "unat r * digit_base ^ Suc n + dval (take (Suc n) A) = digit_base ^ n * (unat r * digit_base + unat (A ! n)) + dval (take n A)"
    using dval_take_Suc [of n A] Suc.prems(2) by (simp add: algebra_simps)
  also have "\<dots> = unat b * (digit_base ^ n * unat q) + (unat r1 * digit_base ^ n + dval (take n A))"
    by (simp only: d(2)) (simp add: algebra_simps)
  finally have "(unat r * digit_base ^ Suc n + dval (take (Suc n) A)) mod unat b = (unat r1 * digit_base ^ n + dval (take n A)) mod unat b"
    by (simp only: mod_mult_self4)
  with Suc.IH [OF d(3)] Suc.prems d(1) show ?case by (simp add: rd_def)
qed simp

lemma DivideSingle_spec:
  assumes "b \<noteq> 0" and "A \<noteq> []" and "Q = [] \<or> length A \<le> length Q + of_bool (last A < b)"
  shows "\<exists>Q' r. DivideSingle Q A b = Some (Q', r) \<and> length Q' = length Q \<and> unat r = dval A mod unat b \<and>
    (Q \<noteq> [] \<longrightarrow> dval Q' = dval A div unat b)"
proof (cases "Q = []")
  case True
  have "unat (0 :: digit_t) < unat b" using assms(1) by (simp add: unat_gt_0)
  from remainder_loop_spec [OF this, of "length A" A] show ?thesis by (auto simp: DivideSingle_def True)
next
  case False
  let ?n = "length A - 1"
  have b: "0 < unat b" using assms(1) by (simp add: unat_gt_0)
  have A: "A ! ?n = last A" "?n < length A" using assms(2) by (simp_all add: last_conv_nth)
  note d = dval_last [OF assms(2)]
  define n r where "n = (if last A < b then ?n else length A)" and "r = (if last A < b then last A else 0)"
  have len: "n \<le> length A" "n \<le> length Q" and r: "unat r < unat b"
    using assms(3) False b A(2) by (auto simp: n_def r_def word_less_nat_alt not_less)
  from DivideSingle_loop_spec [OF r len] obtain Q' r' where
    loop: "DivideSingle_loop A b n (Q, r) = Some (Q', r')" and Q': "length Q' = length Q"
    and eq: "unat r * digit_base ^ n + dval (take n A) = unat b * dval (take n Q') + unat r'" and r': "unat r' < unat b" by blast
  have "unat r * digit_base ^ n + dval (take n A) = dval A"
    using d by (auto simp: n_def r_def butlast_conv_take)
  with eq have "dval A = unat b * dval (take n Q') + unat r'" by simp
  then have "dval A div unat b = dval (take n Q')" "dval A mod unat b = unat r'" using r' by simp_all
  moreover have "DivideSingle Q A b = Some (take n Q' @ replicate (length Q - n) 0, r')"
    using False loop zero_from_eq [of n Q'] len Q' A by (auto simp: DivideSingle_def rd_def n_def r_def not_less Let_def split: if_splits)
  ultimately show ?thesis using len Q' by (simp add: dval_append)
qed

section \<open>The quotient estimate of algorithm D\<close>

text \<open>
  \<open>lead\<close> and \<open>vtop\<close> are the three leading digits of the dividend and the two leading digits of the divisor, and \<open>P\<close> is
  the weight of the digits below them.
\<close>

lemma estimate_too_large:
  fixes P :: nat
  assumes "W = lead * P + w" and "w < P" and "v = vtop * P + v0" and "lead < q * vtop"
  shows "W < q * v"
proof -
  have "W < Suc lead * P" using assms(1,2) by simp
  also have "\<dots> \<le> q * vtop * P" using assms(4) by (intro mult_le_mono1) simp
  also have "\<dots> \<le> q * v" by (simp add: assms(3) algebra_simps)
  finally show ?thesis .
qed

lemma estimate_close:
  fixes P :: nat
  assumes "W = lead * P + w" and "v = vtop * P + v0" and "v0 < P" and "q * vtop \<le> lead" and "q \<le> Suc vtop"
  shows "(q - 1) * v \<le> W"
proof (cases q)
  case (Suc r)
  have "r * v \<le> r * (vtop * P + P)" using assms(2,3) by (intro mult_le_mono2) simp
  also have "\<dots> = (r * vtop + r) * P" by (simp add: algebra_simps)
  also have "\<dots> \<le> lead * P" using assms(4,5) Suc by (intro mult_le_mono1) simp
  finally show ?thesis using assms(1) Suc by simp
qed simp

lemma estimate_max:
  fixes b :: nat
  assumes "vn1 * b * P \<le> W" and "v < Suc vn1 * P" and "b \<le> 2 * vn1 + 2"
  shows "(b - 2) * v \<le> W"
proof -
  have "(b - 2) * Suc vn1 \<le> vn1 * b"
  proof (cases "2 \<le> b")
    case True
    then obtain c where c: "b = c + 2" using nat_le_iff_add by (metis add.commute)
    with assms(3) show ?thesis by (simp add: algebra_simps)
  qed simp
  then have a: "(b - 2) * Suc vn1 * P \<le> vn1 * b * P" by (rule mult_le_mono1)
  have "(b - 2) * v \<le> (b - 2) * (Suc vn1 * P)" using assms(2) by (intro mult_le_mono2) simp
  also have "\<dots> = (b - 2) * Suc vn1 * P" by (simp only: mult.assoc)
  also note a
  also note assms(1)
  finally show ?thesis .
qed

lemma qhat_adjust_spec:
  assumes "unat qhat * unat vn1 + unat rhat = D"
  shows "unat (qhat_adjust vn1 vn2 ujn2 qhat rhat) * (unat vn1 * digit_base + unat vn2) \<le> D * digit_base + unat ujn2 \<and>
    unat (qhat_adjust vn1 vn2 ujn2 qhat rhat) \<le> unat qhat \<and>
    (\<forall>t. unat (qhat_adjust vn1 vn2 ujn2 qhat rhat) < t \<and> t \<le> unat qhat \<longrightarrow>
       D * digit_base + unat ujn2 < t * (unat vn1 * digit_base + unat vn2))"
  using assms
proof (induction vn1 vn2 ujn2 qhat rhat rule: qhat_adjust.induct)
  case (1 vn1 vn2 ujn2 qhat rhat)
  let ?b = digit_base
  let ?vtop = "unat vn1 * ?b + unat vn2" and ?lead = "D * ?b + unat ujn2"
  have eq: "q * ?vtop = (q * unat vn1) * ?b + q * unat vn2" for q by (simp add: algebra_simps)
  have D: "?lead = unat qhat * unat vn1 * ?b + unat rhat * ?b + unat ujn2" using "1.prems" by (simp add: algebra_simps flip: "1.prems")
  show ?case
  proof (cases "ProductGreaterThan qhat vn2 rhat ujn2")
    case False
    then have "unat qhat * unat vn2 \<le> unat rhat * ?b + unat ujn2" by (simp add: ProductGreaterThan_iff)
    then show ?thesis using False D by (auto simp: qhat_adjust.simps [of vn1 vn2 ujn2 qhat] eq)
  next
    case True
    then have gt: "unat rhat * ?b + unat ujn2 < unat qhat * unat vn2" by (simp only: ProductGreaterThan_iff)
    then have pos: "0 < unat qhat" by (cases "unat qhat") simp_all
    then have q1: "unat (qhat - 1) = unat qhat - 1" by (simp add: unat_digit_sub Suc_leI)
    have over: "?lead < unat qhat * ?vtop" using gt D by (simp add: eq)
    have D1: "(unat qhat - 1) * unat vn1 + (unat rhat + unat vn1) = D" using "1.prems" pos by (cases "unat qhat") simp_all
    have t: "t = unat qhat \<or> t \<le> unat qhat - 1" if "t \<le> unat qhat" for t using that by linarith
    show ?thesis
    proof (cases "rhat + vn1 < rhat")
      case wrap: True
      then have "?b \<le> unat rhat + unat vn1" using unat_digit_add [of rhat vn1] by (simp add: word_less_nat_alt split: if_splits)
      then have "?b * ?b \<le> (unat rhat + unat vn1) * ?b" by (rule mult_le_mono1)
      moreover have "(unat qhat - 1) * unat vn2 < ?b * ?b"
        using unat_lt_base [of qhat] unat_lt_base [of vn2] by (intro mult_strict_mono') simp_all
      moreover have "?lead = (unat qhat - 1) * unat vn1 * ?b + (unat rhat + unat vn1) * ?b + unat ujn2"
        by (simp only: D1 [symmetric] add_mult_distrib)
      ultimately have "(unat qhat - 1) * ?vtop \<le> ?lead" unfolding eq by linarith
      moreover have "t = unat qhat" if "unat qhat - 1 < t" "t \<le> unat qhat" for t using that by linarith
      ultimately show ?thesis using True wrap over q1 by (auto simp: qhat_adjust.simps [of vn1 vn2 ujn2 qhat] Let_def)
    next
      case no_wrap: False
      then have r1: "unat (rhat + vn1) = unat rhat + unat vn1"
        using unat_digit_add [of rhat vn1] unat_lt_base [of vn1] by (auto simp: word_less_nat_alt split: if_splits)
      have "unat (qhat - 1) * unat vn1 + unat (rhat + vn1) = D" using D1 by (simp only: q1 r1)
      from "1.IH" [OF True refl refl refl no_wrap this] show ?thesis
        using True no_wrap over t q1 by (auto simp: qhat_adjust.simps [of vn1 vn2 ujn2 qhat] Let_def)
    qed
  qed
qed

lemma take_drop_Suc: "dval (take (Suc k) (drop j U)) = dval (take k (drop j U)) + digit_base ^ k * unat (U ! (j + k))"
  if "j + k < length U"
  using dval_take_Suc [of k "drop j U"] that by simp

lemma divisor_below:
  fixes b :: nat
  assumes "v = (vn1 * b + v2) * P + v0" and "v2 < b" and "v0 < P"
  shows "v < Suc vn1 * (b * P)"
proof -
  have "v2 * P + P \<le> b * P" using mult_le_mono1 [of "Suc v2" b P] assms(2) by simp
  then show ?thesis using assms(1,3) by (simp add: algebra_simps)
qed

lemma adjusted_estimate:
  fixes D P v W :: nat
  assumes Wd: "W = (D * digit_base + unat u2) * P + w" and w: "w < P"
    and vd: "v = (unat vn1 * digit_base + unat v2) * P + v0" and v0: "v0 < P"
    and d: "D = unat vn1 * unat q + unat r" "unat r < unat vn1"
  defines "q' \<equiv> qhat_adjust vn1 v2 u2 q r"
  shows "W div v \<le> unat q'" and "unat q' \<le> W div v + 1"
proof -
  let ?b = digit_base
  let ?vtop = "unat vn1 * ?b + unat v2" and ?lead = "D * ?b + unat u2"
  have adj: "unat q' * ?vtop \<le> ?lead" "unat q' \<le> unat q" "\<And>t. unat q' < t \<Longrightarrow> t \<le> unat q \<Longrightarrow> ?lead < t * ?vtop"
    using qhat_adjust_spec [of q vn1 r D v2 u2] d(1) by (simp_all add: mult.commute q'_def)
  have big: "?lead < t * ?vtop" if "unat q' < t" for t
  proof (cases "t \<le> unat q")
    case False
    have "D < t * unat vn1" using d False mult_le_mono1 [of "Suc (unat q)" t "unat vn1"] by (simp add: mult.commute)
    then have "Suc D * ?b \<le> t * unat vn1 * ?b" by (intro mult_le_mono1) simp
    then show ?thesis using unat_lt_base [of u2] by (simp add: algebra_simps)
  qed (use adj(3) that in blast)
  show "W div v \<le> unat q'"
  proof (rule ccontr)
    assume "\<not> ?thesis"
    then have "W < (W div v) * v" using big estimate_too_large [OF Wd w vd, of "W div v"] by simp
    then show False using times_div_less_eq_dividend [of v W] by (simp add: mult.commute)
  qed
  have vn1: "0 < unat vn1" using d(2) by simp
  have "(unat q' - 1) * v \<le> W"
  proof (rule estimate_close [OF Wd vd v0 adj(1)])
    have "?b \<le> unat vn1 * ?b" using vn1 by simp
    then show "unat q' \<le> Suc ?vtop" using unat_lt_base [of q'] by linarith
  qed
  moreover have "0 < v" using vd vn1 v0 by simp
  ultimately show "unat q' \<le> W div v + 1" using less_eq_div_iff_mult_less_eq [of v "unat q' - 1" W] by linarith
qed

lemma estimate_qhat_spec:
  assumes n: "length B = n" "2 \<le> n" and j: "j + n < length U"
    and vn1: "vn1 = B ! (n - 1)" "digit_base \<le> 2 * unat vn1"
    and W: "dval (take (n + 1) (drop j U)) < digit_base * dval B"
  shows "\<exists>q. estimate_qhat U B n vn1 j = Some q \<and> dval (take (n + 1) (drop j U)) div dval B \<le> unat q \<and>
    unat q \<le> dval (take (n + 1) (drop j U)) div dval B + 1"
proof -
  define k where "k = n - 2"
  have nk: "n = k + 2" using n(2) by (simp add: k_def)
  let ?b = digit_base and ?P = "digit_base ^ k"
  let ?u = "U ! (j + k + 2)" and ?u1 = "U ! (j + k + 1)" and ?u2 = "U ! (j + k)" and ?v2 = "B ! k"
  define W v where "W = dval (take (n + 1) (drop j U))" and "v = dval B"
  let ?D = "unat ?u * ?b + unat ?u1"
  have Wd: "W = (?D * ?b + unat ?u2) * ?P + dval (take k (drop j U))"
    using take_drop_Suc [of j "Suc (Suc k)" U] take_drop_Suc [of j "Suc k" U] take_drop_Suc [of j k U] j nk
    by (simp add: W_def algebra_simps)
  have vd: "v = (unat vn1 * ?b + unat ?v2) * ?P + dval (take k B)"
    using dval_take_Suc [of "Suc k" B] dval_take_Suc [of k B] n(1) nk vn1(1) by (simp add: v_def algebra_simps)
  have w0: "dval (take k (drop j U)) < ?P" using dval_lt [of "take k (drop j U)"] j nk by simp
  have v0: "dval (take k B) < ?P" using dval_lt [of "take k B"] n nk by simp
  have v_pos: "0 < v" using vd vn1(2) v0 by (cases "unat vn1") simp_all
  have v_lt: "v < Suc (unat vn1) * (?b * ?P)" by (rule divisor_below [OF vd unat_lt_base v0])
  have Wv: "W < ?b * v" using W by (simp add: W_def v_def)
  show ?thesis
  proof (cases "?u = vn1")
    case True
    have "unat (- 1 :: digit_t) = ?b - 1" by (simp add: digit_base_def mask_eq_exp_minus_1 unsigned_minus_1_eq_mask)
    moreover have "?b - 1 \<ge> W div v" using Wv less_mult_imp_div_less [of W ?b v] by (simp add: less_Suc_eq_le)
    moreover have "unat vn1 * ?b * (?b * ?P) \<le> W" unfolding Wd True by (simp add: algebra_simps)
    then have "(?b - 2) * v \<le> W" by (rule estimate_max [OF _ v_lt]) (use vn1(2) in simp)
    then have "?b - 2 \<le> W div v" using v_pos by (simp add: less_eq_div_iff_mult_less_eq)
    ultimately show ?thesis using True j nk by (simp add: estimate_qhat_def rd_def W_def v_def add.commute add.left_commute)
  next
    case False
    have "unat ?u * (?b * ?b * ?P) \<le> W" unfolding Wd by (simp add: algebra_simps)
    moreover have "?b * v < ?b * (Suc (unat vn1) * (?b * ?P))" using v_lt by simp
    ultimately have "unat ?u * (?b * ?b * ?P) < Suc (unat vn1) * (?b * ?b * ?P)" using Wv by (simp add: algebra_simps)
    then have "unat ?u < Suc (unat vn1)" using mult_less_cancel2 [of "unat ?u" "?b * ?b * ?P" "Suc (unat vn1)"] by blast
    with False have lt: "unat ?u < unat vn1" by (simp add: word_unat_eq_iff)
    from digit_div_spec [OF lt, of ?u1] obtain q r where
      d: "digit_div ?u ?u1 vn1 = Some (q, r)" "?D = unat vn1 * unat q + unat r" "unat r < unat vn1" .
    from adjusted_estimate [OF Wd w0 vd v0 d(2,3)] show ?thesis using False j n nk d(1) vn1(1)
      by (simp add: estimate_qhat_def rd_def W_def v_def add.commute add.left_commute)
  qed
qed

end
