(* ===== verification/Bigint_Div_Schoolbook.thy ===== *)
theory Bigint_Div_Schoolbook
  imports Bigint_Divide
begin

text \<open>
  The correctness of Knuth's algorithm D as implemented by \<open>DivideSchoolbook\<close>: each step subtracts the right multiple of the
  divisor from the window it works on, and the loop leaves the quotient digits and the shifted remainder.
\<close>

section \<open>One step of algorithm D\<close>

lemma InplaceSub_spec:
  assumes "length X \<le> length Z"
  shows "\<exists>Z' c. InplaceSub Z X = Some (Z', c) \<and> length Z' = length Z \<and> drop (length X) Z' = drop (length X) Z \<and> unat c \<le> 1 \<and>
    dval (take (length X) Z') + dval X = dval (take (length X) Z) + digit_base ^ length X * unat c"
proof -
  have "sub_inv Z (\<lambda>k. dval (take k Z)) (\<lambda>k. dval (take k X)) 0 (Z, 0)" by (rule sub_inv_init) simp_all
  from sub2_loopE [OF reads_as_self [OF assms] order_refl assms le0 this] show ?thesis
    by (fastforce simp: InplaceSub_def SubtractAndReturnBorrow_def sub_inv_def)
qed

lemma InplaceAdd_spec:
  assumes "length X \<le> length Z"
  shows "\<exists>Z' c. InplaceAdd Z X = Some (Z', c) \<and> length Z' = length Z \<and> drop (length X) Z' = drop (length X) Z \<and> unat c \<le> 1 \<and>
    dval (take (length X) Z') + digit_base ^ length X * unat c = dval (take (length X) Z) + dval X"
proof -
  have "add_inv Z 1 (\<lambda>k. dval (take k Z) + dval (take k X) + 0) 0 (Z, 0)" by (rule add_inv_init) simp
  from add3_loopE [OF reads_as_self [OF assms] order_refl assms le0 this] show ?thesis
    by (fastforce simp: InplaceAdd_def AddAndReturnCarry_def add_inv_def)
qed

lemma add_back:
  assumes D: "n < length D" and B: "length B = n"
    and neg: "dval (take (Suc n) D) + dval B = digit_base ^ Suc n + R" "R < digit_base ^ n"
  shows "\<exists>D' c. InplaceAdd D B = Some (D', c) \<and> length D' = length D \<and>
    drop (Suc n) (D'[n := D' ! n + c]) = drop (Suc n) D \<and> dval (take (Suc n) (D'[n := D' ! n + c])) = R"
proof -
  let ?b = digit_base
  from InplaceAdd_spec [of B D] D B obtain D' c where D': "InplaceAdd D B = Some (D', c)" "length D' = length D"
    "drop n D' = drop n D" "unat c \<le> 1" "dval (take n D') + ?b ^ n * unat c = dval (take n D) + dval B" by auto
  have "D' ! n = D ! n" using D D'(2) nth_drop_eq [OF D'(3)] by simp
  then have t: "dval (take n D') + ?b ^ n * (unat (D' ! n) + unat c) = ?b ^ Suc n + R"
    using D'(5) neg(1) dval_take_Suc [of n D] D by (simp add: algebra_simps)
  have lt: "dval (take n D') < ?b ^ n" using dval_lt [of "take n D'"] D'(2) D by simp
  have ge: "?b \<le> unat (D' ! n) + unat c"
  proof (rule ccontr)
    assume "\<not> ?thesis"
    then have "?b ^ n * Suc (unat (D' ! n) + unat c) \<le> ?b ^ n * ?b" by (intro mult_le_mono2) simp
    moreover have "?b ^ n * ?b = ?b ^ Suc n" by simp
    ultimately show False using t lt by simp
  qed
  then have "unat (D' ! n + c) = unat (D' ! n) + unat c - ?b" by (simp add: unat_digit_add)
  then have "?b ^ n * unat (D' ! n + c) + ?b ^ Suc n = ?b ^ n * (unat (D' ! n) + unat c)"
    using ge by (simp add: diff_mult_distrib2 mult.commute)
  then have "dval (take (Suc n) (D'[n := D' ! n + c])) = R"
    using t D D'(2) dval_take_Suc [of n "D'[n := D' ! n + c]"] by simp
  moreover have "drop (Suc n) (D'[n := D' ! n + c]) = drop (Suc n) D" by (simp add: drop_SucI [OF D'(3)])
  ultimately show ?thesis using D' by blast
qed

lemma subtract_multiple:
  fixes q :: digit_t
  assumes D: "n < length D" and B: "length B = n" "0 < dval B" and qv: "length qhatv = Suc n" "dval qhatv = unat q * dval B"
    and W: "W = dval (take (Suc n) D)" and q: "W div dval B \<le> unat q" "unat q \<le> W div dval B + 1"
  shows "\<exists>D' q'. (do {
      (D, c) \<leftarrow> InplaceSub D qhatv;
      if c \<noteq> 0 then do { (D, c) \<leftarrow> InplaceAdd D B; u \<leftarrow> rd D n; D \<leftarrow> wr D n (u + c); Some (D, q - 1) } else Some (D, q) }) = Some (D', q') \<and>
    length D' = length D \<and> drop (Suc n) D' = drop (Suc n) D \<and> dval (take (Suc n) D') = W mod dval B \<and> unat q' = W div dval B"
proof -
  let ?b = digit_base and ?v = "dval B"
  have v: "?v < ?b ^ n" using dval_lt [of B] B(1) by simp
  have Wd: "W = W div ?v * ?v + W mod ?v" by simp
  from InplaceSub_spec [of qhatv D] D qv obtain D1 c where D1: "InplaceSub D qhatv = Some (D1, c)" "length D1 = length D"
    "drop (Suc n) D1 = drop (Suc n) D" "unat c \<le> 1" "dval (take (Suc n) D1) + unat q * ?v = W + ?b ^ Suc n * unat c"
    by (auto simp: W)
  have lt: "dval (take (Suc n) D1) < ?b ^ Suc n" using dval_lt [of "take (Suc n) D1"] D1(2) D by (simp add: min_absorb2)
  have "unat c = 0 \<or> unat c = 1" using D1(4) by linarith
  then consider "c = 0" | "unat c = 1" unfolding unat_eq_0 by blast
  then show ?thesis
  proof cases
    case 1
    have qq: "unat q = W div ?v"
    proof (rule ccontr)
      assume "unat q \<noteq> W div ?v"
      with q have "unat q = W div ?v + 1" by simp
      then have "unat q * ?v = W div ?v * ?v + ?v" by simp
      with D1(5) 1 have "W div ?v * ?v + ?v \<le> W" by simp
      with Wd mod_less_divisor [OF B(2), of W] show False by linarith
    qed
    with D1(5) 1 have "dval (take (Suc n) D1) + W div ?v * ?v = W" by simp
    with Wd have "dval (take (Suc n) D1) = W mod ?v" by linarith
    with 1 D1 qq show ?thesis by simp
  next
    case 2
    have c1: "dval (take (Suc n) D1) + unat q * ?v = W + ?b ^ Suc n" using D1(5) 2 by simp
    have qq: "unat q = W div ?v + 1"
    proof (rule ccontr)
      assume "unat q \<noteq> W div ?v + 1"
      with q have "unat q = W div ?v" by linarith
      then have "unat q * ?v \<le> W" by simp
      with c1 lt show False by linarith
    qed
    then have "unat q * ?v = W div ?v * ?v + ?v" by simp
    with c1 Wd have m: "dval (take (Suc n) D1) + ?v = ?b ^ Suc n + W mod ?v" by linarith
    have "W mod ?v < ?b ^ n" using mod_less_divisor [OF B(2), of W] v by linarith
    from add_back [OF _ B(1) m this] D D1(2) obtain D2 c2 where D2: "InplaceAdd D1 B = Some (D2, c2)" "length D2 = length D1"
      "drop (Suc n) (D2[n := D2 ! n + c2]) = drop (Suc n) D1" "dval (take (Suc n) (D2[n := D2 ! n + c2])) = W mod ?v"
      by auto
    have "unat (q - 1) = W div ?v" using qq unat_digit_sub [of q 1] by simp
    moreover have "c \<noteq> 0" using 2 by auto
    ultimately show ?thesis using D1 D2 D by (simp add: rd_def wr_def)
  qed
qed

lemma rd_append: "length xs = j \<Longrightarrow> rd (xs @ ys) (j + n) = rd ys n"
  by (auto simp: rd_def nth_append)

lemma wr_append: "length xs = j \<Longrightarrow> wr (xs @ ys) (j + n) v = map_option ((@) xs) (wr ys n v)"
  by (auto simp: wr_def list_update_append)

lemma window_code:
  assumes "j \<le> length U"
  shows "subtract_product U B n j qhatv q =
    map_option (\<lambda>(D, q). (take j U @ D, q)) (do {
      (D, c) \<leftarrow> InplaceSub (drop j U) qhatv;
      if c \<noteq> 0 then do { (D, c) \<leftarrow> InplaceAdd D B; u \<leftarrow> rd D n; D \<leftarrow> wr D n (u + c); Some (D, q - 1) } else Some (D, q) })"
  using assms
  by (auto simp: subtract_product_def at_offset_def rd_append wr_append bind_eq_None_conv map_option_case
      split: option.splits Option.bind_splits prod.splits)

lemma schoolbook_step_spec:
  assumes n: "length B = n" "2 \<le> n" and vn1: "vn1 = B ! (n - 1)" "digit_base \<le> 2 * unat vn1"
    and qv: "length qhatv = n + 1" and j: "j + n < length U" and lt: "dval (drop (Suc j) U) < dval B"
  shows "\<exists>p' qv' U' q. schoolbook_step B n vn1 j (p, qhatv, U, Q) = Some (p', qv', U', if j < length Q then Q[j := q] else Q) \<and>
    length qv' = n + 1 \<and> length U' = length U \<and> dval (drop j U') < dval B \<and> dval U = dval U' + digit_base ^ j * (dval B * unat q)"
proof -
  let ?b = digit_base and ?v = "dval B" and ?D = "drop j U"
  have v: "0 < ?v" "?v < ?b ^ n" using lt dval_lt [of B] n(1) by simp_all
  have "dval ?D = unat (U ! j) + ?b * dval (drop (Suc j) U)" using j by (simp add: Cons_nth_drop_Suc [symmetric])
  moreover have "?b * Suc (dval (drop (Suc j) U)) \<le> ?b * ?v" using lt by (intro mult_le_mono2) simp
  ultimately have D: "dval ?D < ?b * ?v" using unat_lt_base [of "U ! j"] by simp
  have split: "dval ?D = dval (take (n + 1) ?D) + ?b ^ (n + 1) * dval (drop (n + 1) ?D)" by (rule dval_take_drop)
  have "?b * ?v < ?b * ?b ^ n" using v(2) by simp
  moreover have "?b ^ (n + 1) = ?b * ?b ^ n" by simp
  ultimately have small: "?b ^ (n + 1) * dval (drop (n + 1) ?D) < ?b ^ (n + 1)" using D split by linarith
  have top: "dval (drop (n + 1) ?D) = 0"
  proof (rule ccontr)
    assume "\<not> ?thesis"
    then have "?b ^ (n + 1) * 1 \<le> ?b ^ (n + 1) * dval (drop (n + 1) ?D)" by (intro mult_le_mono2) simp
    with small show False by linarith
  qed
  have W: "dval (take (n + 1) ?D) = dval ?D" using split top by simp
  from estimate_qhat_spec [OF n j vn1] W D obtain q0 where q0: "estimate_qhat U B n vn1 j = Some q0"
    "dval ?D div ?v \<le> unat q0" "unat q0 \<le> dval ?D div ?v + 1" by auto
  have "\<exists>p' qv'. (if q0 = 0 then Some (p, Clear qhatv) else MultiplySingle p qhatv B q0) = Some (p', qv') \<and>
      length qv' = Suc n \<and> dval qv' = unat q0 * ?v"
    using MultiplySingle_spec [of B qhatv p q0] qv n(1) by (auto simp: Clear_def mult.commute)
  then obtain p' qv' where m: "(if q0 = 0 then Some (p, Clear qhatv) else MultiplySingle p qhatv B q0) = Some (p', qv')"
    "length qv' = Suc n" "dval qv' = unat q0 * ?v" by blast
  have len: "n < length ?D" using j by simp
  from subtract_multiple [OF len n(1) v(1) m(2,3) refl] q0(2,3) W obtain D' q where
    sub: "(do {
      (D, c) \<leftarrow> InplaceSub ?D qv';
      if c \<noteq> 0 then do { (D, c) \<leftarrow> InplaceAdd D B; u \<leftarrow> rd D n; D \<leftarrow> wr D n (u + c); Some (D, q0 - 1) } else Some (D, q0) }) = Some (D', q)"
    and D': "length D' = length ?D" "drop (Suc n) D' = drop (Suc n) ?D" "dval (take (Suc n) D') = dval ?D mod ?v" "unat q = dval ?D div ?v" by auto
  have dD': "dval D' = dval ?D mod ?v" using dval_take_drop [of D' "Suc n"] D' top by simp
  have "schoolbook_step B n vn1 j (p, qhatv, U, Q) = Some (p', qv', take j U @ D', if j < length Q then Q[j := q] else Q)"
    using window_code [of j U B n qv' q0] sub j m(1) q0(1)
    by (simp add: schoolbook_step_def wr_def)
  moreover have "dval U = dval (take j U @ D') + ?b ^ j * (?v * unat q)"
  proof -
    have "dval U = dval (take j U) + ?b ^ j * dval ?D" by (rule dval_take_drop)
    also have "dval ?D = dval D' + ?v * unat q" by (simp add: dD' D'(4))
    finally show ?thesis using j by (simp add: dval_append algebra_simps)
  qed
  ultimately show ?thesis using m(2) D'(1) dD' v(1) j by auto
qed

section \<open>The whole division\<close>

lemma dval_lt_last: "X \<noteq> [] \<Longrightarrow> dval X < Suc (unat (last X)) * digit_base ^ (length X - 1)"
  using dval_last [of X] dval_lt [of "butlast X"] by (simp add: mult.commute)

lemma ShiftedDigits_spec:
  assumes "IsDigitNormalized B" and "B \<noteq> []"
  shows "\<exists>B' s. ShiftedDigits junk B = Some (B', s) \<and> s < 64 \<and> length B' = length B \<and> dval B' = dval B * 2 ^ s \<and>
    digit_base \<le> 2 * unat (last B')"
proof -
  let ?P = "digit_base ^ (length B - 1)"
  define s where "s = CountLeadingZeros (last B)"
  have nz: "last B \<noteq> 0" using assms by (auto simp: IsDigitNormalized_def)
  have s: "s < 64" using clz_lt [OF nz] by (simp add: s_def)
  have up: "Suc (unat (last B)) \<le> 2 ^ (64 - s)" using clz_upper [of "last B"] by (simp add: s_def)
  have lo: "2 ^ (63 - s) \<le> unat (last B)" using clz_lower [OF nz] by (simp add: s_def)
  have P: "digit_base ^ length B = 2 ^ (64 - s) * 2 ^ s * ?P"
    using assms(2) s by (cases B) (simp_all add: digit_base_def flip: power_add)
  have "dval B * 2 ^ s < Suc (unat (last B)) * ?P * 2 ^ s" using dval_lt_last [OF assms(2)] by simp
  also have "\<dots> \<le> 2 ^ (64 - s) * ?P * 2 ^ s" using up by (intro mult_le_mono1)
  finally have fits: "dval B * 2 ^ s < digit_base ^ length B" by (simp add: P mult.assoc mult.left_commute mult.commute)
  have "\<exists>B'. ShiftedDigits junk B = Some (B', s) \<and> length B' = length B \<and> dval B' = dval B * 2 ^ s"
  proof (cases "s = 0")
    case True
    then show ?thesis using assms(2) by (simp add: ShiftedDigits_def msd_def rd_def last_conv_nth flip: s_def)
      (simp add: s_def last_conv_nth)
  next
    case False
    from LeftShift_helper_spec [OF s, of B "ScratchDigits junk (length B)"] fits obtain B' where
      "LeftShift_helper (ScratchDigits junk (length B)) B s = Some B'" "length B' = length B" "dval B' = dval B * 2 ^ s"
      by (auto simp: ScratchDigits_def)
    with False assms(2) show ?thesis by (simp add: ShiftedDigits_def msd_def rd_def s_def last_conv_nth)
  qed
  then obtain B' where B': "ShiftedDigits junk B = Some (B', s)" "length B' = length B" "dval B' = dval B * 2 ^ s" by blast
  have "2 ^ 63 * ?P = 2 ^ (63 - s) * 2 ^ s * ?P" using s by (simp flip: power_add)
  also have "\<dots> \<le> unat (last B) * 2 ^ s * ?P" using lo by simp
  also have "\<dots> \<le> dval B' " using dval_last [OF assms(2)] B'(3) by (simp add: mult.assoc mult.left_commute mult.commute)
  also have "\<dots> < Suc (unat (last B')) * ?P" using dval_lt_last [of B'] B'(2) assms(2) by (cases "B' = []") simp_all
  finally have "2 ^ 63 < Suc (unat (last B'))" using mult_less_cancel2 [of "2 ^ 63" ?P "Suc (unat (last B'))"] by blast
  then have "digit_base \<le> 2 * unat (last B')" by (simp add: digit_base_def)
  with B' s show ?thesis by blast
qed

lemma schoolbook_loop:
  assumes n: "length B = n" "2 \<le> n" and vn1: "vn1 = B ! (n - 1)" "digit_base \<le> 2 * unat vn1"
    and qv: "length qhatv = n + 1" and U: "length U = Suc m + n" and lt: "dval (drop (Suc m) U) < dval B"
  shows "\<exists>p' qv' U' Q' qs. for_down (Suc m) (schoolbook_step B n vn1) (p, qhatv, U, Q) = Some (p', qv', U', Q') \<and>
    length U' = length U \<and> length Q' = length Q \<and> dval U' < dval B \<and> length qs = Suc m \<and>
    dval U = dval U' + dval B * dval qs \<and> (\<forall>i < Suc m. i < length Q \<longrightarrow> Q' ! i = qs ! i)"
proof -
  let ?b = digit_base and ?v = "dval B"
  define I where "I = (\<lambda>k (p :: ProcessorImpl, qv :: digits, U' :: digits, Q' :: digits). length qv = n + 1 \<and> length U' = length U \<and>
    length Q' = length Q \<and> dval (drop k U') < ?v \<and> (\<exists>qs. length qs = Suc m - k \<and> dval U = dval U' + ?b ^ k * (?v * dval qs) \<and>
       (\<forall>i < length qs. k + i < length Q \<longrightarrow> Q' ! (k + i) = qs ! i)))"
  have "ok (for_down (Suc m) (schoolbook_step B n vn1) (p, qhatv, U, Q)) (I 0)"
  proof (rule ok_for_down [where I = I])
    show "I (Suc m) (p, qhatv, U, Q)" using qv U lt by (simp add: I_def)
  next
    fix k s assume k: "k < Suc m" and "I (Suc k) s"
    then obtain p1 qv1 U1 Q1 qs where s: "s = (p1, qv1, U1, Q1)" and inv: "length qv1 = n + 1" "length U1 = length U"
      "length Q1 = length Q" "dval (drop (Suc k) U1) < ?v" "length qs = m - k" "dval U = dval U1 + ?b ^ Suc k * (?v * dval qs)"
      "\<And>i. i < length qs \<Longrightarrow> Suc k + i < length Q \<Longrightarrow> Q1 ! (Suc k + i) = qs ! i"
      by (cases s) (auto simp: I_def)
    have "k + n < length U1" using k U inv(2) by simp
    from schoolbook_step_spec [OF n vn1 inv(1) this inv(4), of p1 Q1] obtain p2 qv2 U2 q where
      st: "schoolbook_step B n vn1 k (p1, qv1, U1, Q1) = Some (p2, qv2, U2, if k < length Q1 then Q1[k := q] else Q1)"
      "length qv2 = n + 1" "length U2 = length U1" "dval (drop k U2) < ?v" "dval U1 = dval U2 + ?b ^ k * (?v * unat q)" by blast
    have "dval U = dval U2 + ?b ^ k * (?v * dval (q # qs))" using inv(6) st(5) by (simp add: algebra_simps)
    moreover have "(if k < length Q1 then Q1[k := q] else Q1) ! (k + i) = (q # qs) ! i" if "i < length (q # qs)" "k + i < length Q" for i
      using that inv(7) [of "i - 1"] inv(3) by (cases i) auto
    moreover have "length (q # qs) = Suc m - k" using inv(5) k by simp
    ultimately have "\<exists>qs. length qs = Suc m - k \<and> dval U = dval U2 + ?b ^ k * (?v * dval qs) \<and>
       (\<forall>i < length qs. k + i < length Q \<longrightarrow> (if k < length Q1 then Q1[k := q] else Q1) ! (k + i) = qs ! i)" by blast
    then show "ok (schoolbook_step B n vn1 k s) (I k)" using st inv(2,3) by (simp add: s I_def)
  qed
  then obtain s where s: "for_down (Suc m) (schoolbook_step B n vn1) (p, qhatv, U, Q) = Some s" "I 0 s" by (auto simp: ok_def)
  then show ?thesis by (cases s) (auto simp: I_def)
qed

lemma quotient_digits:
  assumes "length Q' = length Q" and "length qs = Suc m" and "\<forall>i < Suc m. i < length Q \<longrightarrow> Q' ! i = qs ! i"
  shows "\<exists>Q''. zero_from (Suc m) Q' = Some Q'' \<and> length Q'' = length Q \<and> dval Q'' = dval qs mod digit_base ^ length Q"
proof (cases "Suc m \<le> length Q")
  case True
  then have "take (Suc m) Q' = qs" using assms by (intro nth_equalityI) simp_all
  moreover have "take (length Q) qs = qs" using True assms(2) by simp
  ultimately show ?thesis using True assms(1,2) zero_from_eq [of "Suc m" Q'] by (simp add: dval_append dval_mod)
next
  case False
  then have "Q' = take (length Q) qs" using assms by (intro nth_equalityI) simp_all
  moreover have "zero_from (Suc m) Q' = Some Q'" using False assms(1) by (simp add: zero_from_def for_up_nop)
  ultimately show ?thesis using assms(1) by (simp add: dval_mod)
qed

lemma DivideSchoolbook_spec:
  assumes "IsDigitNormalized B" and "2 \<le> length B" and "length B \<le> length A" and "R = [] \<or> length B \<le> length R"
  shows "\<exists>p' Q' R'. DivideSchoolbook junk p Q R A B = Some (p', Q', R') \<and> length Q' = length Q \<and> length R' = length R \<and>
    dval Q' = (dval A div dval B) mod digit_base ^ length Q \<and> (R \<noteq> [] \<longrightarrow> dval R' = dval A mod dval B)"
proof -
  let ?b = digit_base and ?n = "length B"
  define m where "m = length A - ?n"
  have ne: "B \<noteq> []" using assms(2) by auto
  from ShiftedDigits_spec [OF assms(1) ne, of junk] obtain B' s where
    B': "ShiftedDigits junk B = Some (B', s)" "s < 64" "length B' = ?n" "dval B' = dval B * 2 ^ s" "?b \<le> 2 * unat (last B')" by blast
  have s: "2 ^ s \<le> ?b" using B'(2) unfolding digit_base_def by (intro power_increasing) simp_all
  have "dval A * 2 ^ s < ?b ^ length A * ?b" using dval_lt [of A] s by (intro mult_less_le_imp_less) simp_all
  then have fits: "dval A * 2 ^ s < ?b ^ length (ScratchDigits junk (length A + 1))" by (simp add: ScratchDigits_def mult.commute)
  from LeftShift_helper_spec [OF B'(2) _ fits] obtain U where
    U: "LeftShift_helper (ScratchDigits junk (length A + 1)) A s = Some U" "length U = length A + 1" "dval U = dval A * 2 ^ s"
    by (auto simp: ScratchDigits_def)
  have vn1: "last B' = B' ! (?n - 1)" using B'(3) ne by (metis last_conv_nth length_0_conv)
  have lenU: "length U = Suc m + ?n" using U(2) assms(3) by (simp add: m_def)
  have lt: "dval (drop (Suc m) U) < dval B'"
  proof -
    have "?b ^ Suc m * dval (drop (Suc m) U) \<le> dval A * 2 ^ s" using dval_take_drop [of U "Suc m"] U(3) by simp
    also have "\<dots> < ?b ^ length A * 2 ^ s" using dval_lt [of A] by simp
    also have "?b ^ length A = ?b ^ Suc m * ?b ^ (?n - 1)" using assms(2,3) by (simp add: m_def flip: power_add power_Suc)
    finally have "dval (drop (Suc m) U) < ?b ^ (?n - 1) * 2 ^ s" by (simp add: mult.assoc)
    also have "\<dots> \<le> dval B'" using dval_ge_normalized [OF assms(1) ne] B'(4) by simp
    finally show ?thesis .
  qed
  from schoolbook_loop [OF B'(3) assms(2) vn1 B'(5) _ lenU lt, of "ScratchDigits junk (?n + 1)" p Q] obtain p' qv' U' Q' qs where
    L: "for_down (Suc m) (schoolbook_step B' ?n (last B')) (p, ScratchDigits junk (?n + 1), U, Q) = Some (p', qv', U', Q')"
    "length U' = length U" "length Q' = length Q" "dval U' < dval B'" "length qs = Suc m" "dval U = dval U' + dval B' * dval qs"
    "\<forall>i < Suc m. i < length Q \<longrightarrow> Q' ! i = qs ! i" by (auto simp: ScratchDigits_def)
  from quotient_digits [OF L(3,5,7)] obtain Q'' where
    Q'': "zero_from (Suc m) Q' = Some Q''" "length Q'' = length Q" "dval Q'' = dval qs mod ?b ^ length Q" by blast
  have X: "dval A * 2 ^ s = dval U' + (dval B * 2 ^ s) * dval qs" "dval U' < dval B * 2 ^ s" using L(4,6) U(3) B'(4) by simp_all
  have "(r + V * q) div V = q \<and> (r + V * q) mod V = r" if "r < V" for r V q :: nat using that by simp
  from this [OF X(2), of "dval qs", folded X(1)]
  have "(dval A * 2 ^ s) div (dval B * 2 ^ s) = dval qs" "(dval A * 2 ^ s) mod (dval B * 2 ^ s) = dval U'" by blast+
  then have qr: "dval A div dval B = dval qs" "dval A mod dval B * 2 ^ s = dval U'" by (simp_all add: mod_mult_mult2)
  have "\<exists>R'. (if length R \<noteq> 0 then RightShift_helper R U' s else Some R) = Some R' \<and> length R' = length R \<and>
      (R \<noteq> [] \<longrightarrow> dval R' = dval A mod dval B)"
  proof (cases "R = []")
    case False
    have "dval U' < ?b ^ ?n" using L(4) dval_lt [of B'] B'(3) by simp
    then have "length (Normalize U') \<le> length R" using Normalize_length_le [of U' ?n] assms(4) False by simp
    from RightShift_helper_spec [OF B'(2) this] show ?thesis using False by (simp flip: qr(2))
  qed simp
  then obtain R' where R': "(if length R \<noteq> 0 then RightShift_helper R U' s else Some R) = Some R'" "length R' = length R"
    "R \<noteq> [] \<longrightarrow> dval R' = dval A mod dval B" by blast
  have m: "nat (int (length A) - int ?n + 1) = Suc m" using assms(3) by (simp add: m_def)
  have "rd B' (?n - 1) = Some (last B')" using B'(3) ne by (simp add: rd_def vn1)
  then have "DivideSchoolbook junk p Q R A B = Some (p', Q'', R')"
    unfolding DivideSchoolbook_def Let_def m B'(1) using U(1) L(1) R'(1) Q''(1) by simp
  then show ?thesis using Q'' R' qr(1) by auto
qed

section \<open>Properties\<close>



text \<open>
  C28.  Division by a single digit returns the remainder, and the quotient if a quotient buffer is passed; the buffer may be
  one digit shorter than the dividend when the leading digit is smaller than the divisor.
\<close>
theorem DivideSingle_correct:
  assumes "b \<noteq> 0" and "A \<noteq> []" and "Q = [] \<or> length A \<le> length Q + of_bool (last A < b)"
  shows "\<exists>Q' r. DivideSingle Q A b = Some (Q', r) \<and> length Q' = length Q \<and> unat r = dval A mod unat b \<and>
    (Q \<noteq> [] \<longrightarrow> dval Q' = dval A div unat b)"
  by (rule DivideSingle_spec [OF assms])

theorem DivideSingle_correct_witness:
  "\<exists>Q' r. DivideSingle [0] [7, 2] 3 = Some (Q', r) \<and> length Q' = length [0 :: digit_t] \<and> unat r = dval [7, 2] mod unat (3 :: digit_t) \<and>
    ([0 :: digit_t] \<noteq> [] \<longrightarrow> dval Q' = dval [7, 2] div unat (3 :: digit_t))"
  by (rule DivideSingle_correct) simp_all

end
