(* ===== verification/Bigint_Processor.thy ===== *)
theory Bigint_Processor
  imports Bigint_Karatsuba_Correct Bigint_Div_Schoolbook
begin

text \<open>
  \<open>bigint/bigint-internal.cc\<close>: multiplication, division and remainder choose an algorithm by the lengths of the
  normalized operands.  The algorithms for operands above the thresholds (Toom-Cook, FFT, Burnikel-Ziegler, Barrett) are not
  modelled; the dispatch takes them as the record \<open>advanced\<close>, and the theorems are about operands that never reach them
  (with \<open>below_thresholds\<close>, reaching one of them is a failure).
\<close>

section \<open>Dispatch\<close>

record advanced =
  MultiplyToomCook :: "ProcessorImpl \<Rightarrow> digits \<Rightarrow> digits \<Rightarrow> digits \<Rightarrow> (ProcessorImpl \<times> digits) option"
  MultiplyFFT :: "ProcessorImpl \<Rightarrow> digits \<Rightarrow> digits \<Rightarrow> digits \<Rightarrow> (ProcessorImpl \<times> digits) option"
  DivideBurnikelZiegler :: "ProcessorImpl \<Rightarrow> digits \<Rightarrow> digits \<Rightarrow> digits \<Rightarrow> digits \<Rightarrow> (ProcessorImpl \<times> digits \<times> digits) option"
  DivideBarrett :: "ProcessorImpl \<Rightarrow> digits \<Rightarrow> digits \<Rightarrow> digits \<Rightarrow> digits \<Rightarrow> (ProcessorImpl \<times> digits \<times> digits) option"

definition below_thresholds :: advanced where
  "below_thresholds = \<lparr>MultiplyToomCook = \<lambda>_ _ _ _. None, MultiplyFFT = \<lambda>_ _ _ _. None,
     DivideBurnikelZiegler = \<lambda>_ _ _ _ _. None, DivideBarrett = \<lambda>_ _ _ _ _. None\<rparr>"

definition kToomThreshold :: nat where "kToomThreshold = 193"
definition kFftThreshold :: nat where "kFftThreshold = 1500"
definition kBurnikelThreshold :: nat where "kBurnikelThreshold = 57"
definition kBarrettThreshold :: nat where "kBarrettThreshold = 13310"

definition MultiplyResultLength :: "digits \<Rightarrow> digits \<Rightarrow> nat" where
  "MultiplyResultLength X Y = length X + length Y"

definition DivideResultLength :: "digits \<Rightarrow> digits \<Rightarrow> nat" where
  "DivideResultLength A B =
     (let kBarrettExtraScratch = (if length B \<ge> kBarrettThreshold then 1 else 0)
      in length A - length B + 1 + kBarrettExtraScratch)"

definition ModuloResultLength :: "digits \<Rightarrow> nat" where
  "ModuloResultLength B = length B"

definition ProcessorImpl_Multiply :: "advanced \<Rightarrow> (nat \<Rightarrow> digit_t) \<Rightarrow> ProcessorImpl \<Rightarrow> digits \<Rightarrow> digits \<Rightarrow> digits \<Rightarrow>
    (ProcessorImpl \<times> digits) option" where
  "ProcessorImpl_Multiply adv junk p Z X Y =
     (let X = Normalize X; Y = Normalize Y
      in if length X = 0 \<or> length Y = 0 then Some (p, Clear Z)
         else (let (X, Y) = (if length X < length Y then (Y, X) else (X, Y))
               in if length Y = 1 then do { y \<leftarrow> rd Y 0; MultiplySingle p Z X y }
                  else if length Y < kKaratsubaThreshold then MultiplySchoolbook p Z X Y
                  else if length Y < kToomThreshold then MultiplyKaratsuba junk p Z X Y
                  else if length Y < kFftThreshold then MultiplyToomCook adv p Z X Y
                  else MultiplyFFT adv p Z X Y))"

definition ProcessorImpl_Divide :: "advanced \<Rightarrow> (nat \<Rightarrow> digit_t) \<Rightarrow> ProcessorImpl \<Rightarrow> digits \<Rightarrow> digits \<Rightarrow> digits \<Rightarrow>
    (ProcessorImpl \<times> digits) option" where
  "ProcessorImpl_Divide adv junk p Q A B =
     (let A = Normalize A; B = Normalize B; cmp = Compare A B
      in if cmp < 0 then Some (p, Clear Q)
         else if cmp = 0 then do {
           Q \<leftarrow> wr Q 0 1;
           Q \<leftarrow> zero_from 1 Q;
           Some (p, Q) }
         else if length B = 1 then do {
           b \<leftarrow> rd B 0;
           (Q, remainder) \<leftarrow> DivideSingle Q A b;
           Some (p, Q) }
         else if length B < kBurnikelThreshold then do {
           (p, Q, R) \<leftarrow> DivideSchoolbook junk p Q [] A B;
           Some (p, Q) }
         else if length B < kBarrettThreshold \<or> length A = length B then do {
           (p, Q, R) \<leftarrow> DivideBurnikelZiegler adv p Q [] A B;
           Some (p, Q) }
         else do {
           (p, Q, R) \<leftarrow> DivideBarrett adv p Q (ScratchDigits junk (length B)) A B;
           Some (p, Q) })"

definition ProcessorImpl_Modulo :: "advanced \<Rightarrow> (nat \<Rightarrow> digit_t) \<Rightarrow> ProcessorImpl \<Rightarrow> digits \<Rightarrow> digits \<Rightarrow> digits \<Rightarrow>
    (ProcessorImpl \<times> digits) option" where
  "ProcessorImpl_Modulo adv junk p R A B =
     (let A = Normalize A; B = Normalize B; cmp = Compare A B
      in if cmp < 0 then do {
           R \<leftarrow> copy_loop B 0 (length B) R;
           R \<leftarrow> zero_from (length B) R;
           Some (p, R) }
         else if cmp = 0 then Some (p, Clear R)
         else if length B = 1 then do {
           b \<leftarrow> rd B 0;
           (Q, remainder) \<leftarrow> DivideSingle [] A b;
           R \<leftarrow> wr R 0 remainder;
           R \<leftarrow> zero_from 1 R;
           Some (p, R) }
         else if length B < kBurnikelThreshold then do {
           (p, Q, R) \<leftarrow> DivideSchoolbook junk p [] R A B;
           Some (p, R) }
         else (let Q = ScratchDigits junk (DivideResultLength A B)
               in if length B < kBarrettThreshold \<or> length A = length B then do {
                    (p, Q, R) \<leftarrow> DivideBurnikelZiegler adv p Q R A B;
                    Some (p, R) }
                  else do {
                    (p, Q, R) \<leftarrow> DivideBarrett adv p Q R A B;
                    Some (p, R) }))"

definition with_status :: "(ProcessorImpl \<times> digits) option \<Rightarrow> (Status \<times> ProcessorImpl \<times> digits) option" where
  "with_status m = do {
     (p, Z) \<leftarrow> m;
     let (s, p) = get_and_clear_status p;
     Some (s, p, Z) }"

definition Processor_Multiply :: "advanced \<Rightarrow> (nat \<Rightarrow> digit_t) \<Rightarrow> ProcessorImpl \<Rightarrow> digits \<Rightarrow> digits \<Rightarrow> digits \<Rightarrow>
    (Status \<times> ProcessorImpl \<times> digits) option" where
  "Processor_Multiply adv junk p Z X Y = with_status (ProcessorImpl_Multiply adv junk p Z X Y)"

definition Processor_Divide :: "advanced \<Rightarrow> (nat \<Rightarrow> digit_t) \<Rightarrow> ProcessorImpl \<Rightarrow> digits \<Rightarrow> digits \<Rightarrow> digits \<Rightarrow>
    (Status \<times> ProcessorImpl \<times> digits) option" where
  "Processor_Divide adv junk p Q A B = with_status (ProcessorImpl_Divide adv junk p Q A B)"

definition Processor_Modulo :: "advanced \<Rightarrow> (nat \<Rightarrow> digit_t) \<Rightarrow> ProcessorImpl \<Rightarrow> digits \<Rightarrow> digits \<Rightarrow> digits \<Rightarrow>
    (Status \<times> ProcessorImpl \<times> digits) option" where
  "Processor_Modulo adv junk p R A B = with_status (ProcessorImpl_Modulo adv junk p R A B)"

section \<open>Correctness below the thresholds\<close>

lemma ProcessorImpl_Multiply_spec:
  assumes "min (length (Normalize X)) (length (Normalize Y)) < kToomThreshold"
    and "length (Normalize X) + length (Normalize Y) \<le> length Z" and "length Z < digit_base"
  shows "\<exists>p' Z'. ProcessorImpl_Multiply adv junk p Z X Y = Some (p', Z') \<and> length Z' = length Z \<and> dval Z' = dval X * dval Y"
proof -
  let ?X = "Normalize X" and ?Y = "Normalize Y"
  define V W where "V = (if length ?X < length ?Y then ?Y else ?X)" and "W = (if length ?X < length ?Y then ?X else ?Y)"
  have VW: "length W \<le> length V" "length V + length W \<le> length Z" "length W < 193" "dval V * dval W = dval X * dval Y"
    using assms by (auto simp: V_def W_def kToomThreshold_def min_def split: if_splits)
  have run: "ProcessorImpl_Multiply adv junk p Z X Y = (if length W = 0 then Some (p, Clear Z)
      else if length W = 1 then do { w \<leftarrow> rd W 0; MultiplySingle p Z V w }
      else if length W < 34 then MultiplySchoolbook p Z V W else MultiplyKaratsuba junk p Z V W)"
    using VW(3) by (auto simp: ProcessorImpl_Multiply_def V_def W_def Let_def kToomThreshold_def kKaratsubaThreshold_def)
  consider "length W = 0" | "length W = 1" | "2 \<le> length W" "length W < 34" | "34 \<le> length W" by linarith
  then show ?thesis
  proof cases
    case 1
    then show ?thesis using VW(4) by (simp add: run Clear_def)
  next
    case 2
    then obtain w where w: "W = [w]" by (cases W) auto
    have "length V < length Z" using VW(2) 2 by simp
    from MultiplySingle_spec [OF this, of p w] show ?thesis using VW(4) by (auto simp: run w rd_def)
  next
    case 3
    from MultiplySchoolbook_spec [OF VW(1,2), of p] VW assms(3) 3 show ?thesis by (auto simp: run)
  next
    case 4
    from MultiplyKaratsuba_spec [OF 4 _ VW(1,2), of junk p] VW(3,4) 4 show ?thesis by (auto simp: run)
  qed
qed

lemma quotient_lt:
  assumes "IsDigitNormalized B" and "B \<noteq> []" and "length B \<le> length A"
  shows "dval A div dval B < digit_base ^ (length A - length B + 1)"
proof -
  have "dval A < digit_base ^ length A" by (rule dval_lt)
  also have "\<dots> = digit_base ^ (length A - length B + 1) * digit_base ^ (length B - 1)"
    using assms(2,3) by (cases B) (simp_all flip: power_add power_Suc)
  also have "\<dots> \<le> digit_base ^ (length A - length B + 1) * dval B"
    using dval_ge_normalized [OF assms(1,2)] by (rule mult_le_mono2)
  finally show ?thesis by (rule less_mult_imp_div_less)
qed

lemma Compare_cases:
  obtains "Compare A B < 0" "dval A < dval B" | "Compare A B = 0" "dval A = dval B" | "Compare A B > 0" "dval B < dval A"
  using Compare_less [of A B] Compare_eq [of A B] by (metis less_linear)

lemma larger_operand:
  assumes "dval B < dval A"
  shows "length (Normalize B) \<le> length (Normalize A)" and "Normalize A \<noteq> []"
proof -
  show "length (Normalize B) \<le> length (Normalize A)"
    using normalized_length_less [of "Normalize B" "Normalize A"] assms by (force simp: IsDigitNormalized_Normalize intro: leI)
  show "Normalize A \<noteq> []" using assms by (metis dval_Normalize dval.simps(1) not_less_zero)
qed

lemma ProcessorImpl_Divide_spec:
  assumes "dval B \<noteq> 0" and "length (Normalize B) < kBurnikelThreshold"
    and "dval A < dval B \<or> DivideResultLength (Normalize A) (Normalize B) \<le> length Q"
  shows "\<exists>p' Q'. ProcessorImpl_Divide adv junk p Q A B = Some (p', Q') \<and> length Q' = length Q \<and> dval Q' = dval A div dval B"
proof -
  let ?A = "Normalize A" and ?B = "Normalize B"
  have B: "?B \<noteq> []" using assms(1) by (metis dval_Normalize dval.simps(1))
  have len: "length ?B < 57" using assms(2) by (simp add: kBurnikelThreshold_def)
  then have q: "length ?A - length ?B + 1 \<le> length Q" if "\<not> dval A < dval B"
    using assms(3) that by (auto simp: DivideResultLength_def kBarrettThreshold_def)
  show ?thesis
  proof (cases rule: Compare_cases [of ?A ?B])
    case 1
    then show ?thesis by (auto simp: ProcessorImpl_Divide_def Let_def Clear_def)
  next
    case 2
    then obtain d Q0 where Q: "Q = d # Q0" using q by (cases Q) auto
    have "zero_from 1 (1 # Q0) = Some (1 # replicate (length Q0) 0)" using zero_from_eq [of 1 "1 # Q0"] by simp
    then show ?thesis using 2 assms(1) by (auto simp: ProcessorImpl_Divide_def Let_def wr_def Q)
  next
    case 3
    then have le: "length ?B \<le> length ?A" and A: "?A \<noteq> []" using larger_operand [of B A] by simp_all
    have Q: "Q \<noteq> []" using q 3 by fastforce
    show ?thesis
    proof (cases "length ?B = 1")
      case True
      then obtain b where b: "?B = [b]" by (cases ?B) auto
      then have dB: "dval B = unat b" using dval_Normalize [of B] by simp
      then have b0: "b \<noteq> 0" using assms(1) by auto
      have "length ?A \<le> length Q" using q 3 True A by simp
      then obtain Q' r where "DivideSingle Q ?A b = Some (Q', r)" "length Q' = length Q" "dval Q' = dval ?A div unat b"
        using DivideSingle_spec [of b ?A Q] A Q b0 by auto
      then show ?thesis using 3 dB by (auto simp: ProcessorImpl_Divide_def Let_def b rd_def)
    next
      case False
      then have "2 \<le> length ?B" using B length_greater_0_conv [of ?B] by linarith
      from DivideSchoolbook_spec [OF IsDigitNormalized_Normalize this le, of "[]" junk p Q] obtain p' Q' R' where
        "DivideSchoolbook junk p Q [] ?A ?B = Some (p', Q', R')" "length Q' = length Q"
        "dval Q' = (dval ?A div dval ?B) mod digit_base ^ length Q" by auto
      moreover have "dval ?A div dval ?B < digit_base ^ length Q"
        using q 3 by (intro less_le_trans [OF quotient_lt [OF IsDigitNormalized_Normalize B le]] power_increasing) (simp_all add: Suc_leI)
      ultimately show ?thesis using 3 False len by (auto simp: ProcessorImpl_Divide_def Let_def kBurnikelThreshold_def)
    qed
  qed
qed

lemma ProcessorImpl_Modulo_spec:
  assumes "dval B \<noteq> 0" and "length (Normalize B) < kBurnikelThreshold" and "length (Normalize B) \<le> length R"
  shows "\<exists>p' R'. ProcessorImpl_Modulo adv junk p R A B = Some (p', R') \<and> length R' = length R \<and>
    dval R' = (if dval A < dval B then dval B else dval A mod dval B)"
proof -
  let ?A = "Normalize A" and ?B = "Normalize B"
  have B: "?B \<noteq> []" using assms(1) by (metis dval_Normalize dval.simps(1))
  have R: "R \<noteq> []" using B assms(3) by auto
  have len: "length ?B < 57" using assms(2) by (simp add: kBurnikelThreshold_def)
  show ?thesis
  proof (cases rule: Compare_cases [of ?A ?B])
    case 1
    then show ?thesis using copy_loop_eq [of 0 "length ?B" R ?B] zero_from_eq [of "length ?B" "?B @ drop (length ?B) R"] assms(3)
      by (auto simp: ProcessorImpl_Modulo_def Let_def)
  next
    case 2
    then show ?thesis by (auto simp: ProcessorImpl_Modulo_def Let_def Clear_def)
  next
    case 3
    then have le: "length ?B \<le> length ?A" and A: "?A \<noteq> []" using larger_operand [of B A] by simp_all
    show ?thesis
    proof (cases "length ?B = 1")
      case True
      then obtain b where b: "?B = [b]" by (cases ?B) auto
      then have dB: "dval B = unat b" using dval_Normalize [of B] by simp
      then have b0: "b \<noteq> 0" using assms(1) by auto
      obtain r where "DivideSingle [] ?A b = Some ([], r)" "unat r = dval ?A mod unat b"
        using DivideSingle_spec [of b ?A "[]"] A b0 by auto
      moreover obtain d R0 where R0: "R = d # R0" using R by (cases R) auto
      moreover have "zero_from 1 (r # R0) = Some (r # replicate (length R0) 0)" for r using zero_from_eq [of 1 "r # R0"] by simp
      ultimately show ?thesis using 3 dB by (auto simp: ProcessorImpl_Modulo_def Let_def b rd_def wr_def)
    next
      case False
      then have "2 \<le> length ?B" using B length_greater_0_conv [of ?B] by linarith
      from DivideSchoolbook_spec [OF IsDigitNormalized_Normalize this le, of R junk p "[]"] assms(3) R obtain p' Q' R' where
        "DivideSchoolbook junk p [] R ?A ?B = Some (p', Q', R')" "length R' = length R" "dval R' = dval ?A mod dval ?B" by auto
      then show ?thesis using 3 False len by (auto simp: ProcessorImpl_Modulo_def Let_def kBurnikelThreshold_def)
    qed
  qed
qed

lemma with_status_Some: "m = Some (p, Z) \<Longrightarrow> with_status m = Some (status p, p\<lparr>status := kOk\<rparr>, Z)"
  by (simp add: with_status_def get_and_clear_status_def)

section \<open>Properties\<close>

text \<open>
  C32.  Below the Toom-Cook and the Burnikel-Ziegler thresholds, multiplication and division through the
  processor stay within the result buffers that the callers reserve, and return the product and the quotient; the status of
  the processor is cleared.
\<close>
theorem Processor_Multiply_Divide_correct:
  assumes "min (length (Normalize X)) (length (Normalize Y)) < kToomThreshold" and "length Z < digit_base"
    and "MultiplyResultLength X Y \<le> length Z"
    and "dval B \<noteq> 0" and "length (Normalize B) < kBurnikelThreshold"
    and "dval A < dval B \<or> DivideResultLength (Normalize A) (Normalize B) \<le> length Q"
  shows "(\<exists>s p' Z'. Processor_Multiply adv junk p Z X Y = Some (s, p', Z') \<and> status p' = kOk \<and> length Z' = length Z \<and>
      dval Z' = dval X * dval Y) \<and>
    (\<exists>s p' Q'. Processor_Divide adv junk p Q A B = Some (s, p', Q') \<and> status p' = kOk \<and> length Q' = length Q \<and>
      dval Q' = dval A div dval B)"
proof -
  have "length (Normalize X) + length (Normalize Y) \<le> length Z"
    using assms(3) length_Normalize [of X] length_Normalize [of Y] by (simp add: MultiplyResultLength_def)
  from ProcessorImpl_Multiply_spec [OF assms(1) this assms(2), of adv junk p] ProcessorImpl_Divide_spec [OF assms(4-6), of adv junk p]
  show ?thesis by (auto simp: Processor_Multiply_def Processor_Divide_def dest: with_status_Some)
qed

theorem Processor_Multiply_Divide_correct_witness:
  "(\<exists>s p' Z'. Processor_Multiply below_thresholds (\<lambda>_. 7) (ProcessorImpl_new (\<lambda>_. True)) [1, 1, 1] [2, 3] [4] = Some (s, p', Z') \<and> status p' = kOk \<and>
      length Z' = length [1 :: digit_t, 1, 1] \<and> dval Z' = dval [2, 3] * dval [4]) \<and>
    (\<exists>s p' Q'. Processor_Divide below_thresholds (\<lambda>_. 7) (ProcessorImpl_new (\<lambda>_. True)) [0] [9] [2] = Some (s, p', Q') \<and> status p' = kOk \<and>
      length Q' = length [0 :: digit_t] \<and> dval Q' = dval [9] div dval [2])"
proof (rule Processor_Multiply_Divide_correct)
  have n: "length (Normalize V) \<le> length V" for V by (rule length_Normalize)
  show "min (length (Normalize [2, 3])) (length (Normalize [4])) < kToomThreshold" "length (Normalize [2]) < kBurnikelThreshold"
    using n [of "[4]"] n [of "[2]"] by (auto simp: kToomThreshold_def kBurnikelThreshold_def)
  show "dval [9] < dval [2] \<or> DivideResultLength (Normalize [9]) (Normalize [2]) \<le> length [0 :: digit_t]"
    by (simp add: DivideResultLength_def kBarrettThreshold_def Normalize_id IsDigitNormalized_def)
qed (simp_all add: MultiplyResultLength_def digit_base_def)



end
