(* ===== verification/Bigint_Interrupts.thy ===== *)
theory Bigint_Interrupts
  imports Bigint_Processor
begin

text \<open>
  When the processor reports an interrupt.  \<open>always m Q\<close> states that every result of \<open>m\<close> satisfies \<open>Q\<close>; a processor is
  quiet when no interrupt is pending and its platform never requests one.  Every modelled algorithm keeps a quiet processor
  quiet, so that an operation reports an interrupt only if the platform asked for one.
\<close>

definition always :: "'a option \<Rightarrow> ('a \<Rightarrow> bool) \<Rightarrow> bool" where
  "always m Q \<longleftrightarrow> (\<forall>x. m = Some x \<longrightarrow> Q x)"

lemma always_simps [simp]:
  "always None Q" "always (Some x) Q = Q x"
  "always (if b then m else m') Q = ((b \<longrightarrow> always m Q) \<and> (\<not> b \<longrightarrow> always m' Q))"
  by (simp_all add: always_def)

lemma always_bindI: "(\<And>x. always (f x) Q) \<Longrightarrow> always (m \<bind> f) Q"
  by (cases m) (simp_all add: always_def)

lemma always_bind: "always m P \<Longrightarrow> (\<And>x. P x \<Longrightarrow> always (f x) Q) \<Longrightarrow> always (m \<bind> f) Q"
  by (cases m) (simp_all add: always_def)

lemma always_case_prod: "(\<And>a b. x = (a, b) \<Longrightarrow> always (f a b) Q) \<Longrightarrow> always (case x of (a, b) \<Rightarrow> f a b) Q"
  by (cases x) simp

lemma always_if: "(b \<Longrightarrow> always m Q) \<Longrightarrow> (\<not> b \<Longrightarrow> always m' Q) \<Longrightarrow> always (if b then m else m') Q"
  by simp

lemma always_Let: "(\<And>x. x = a \<Longrightarrow> always (f x) Q) \<Longrightarrow> always (let x = a in f x) Q"
  by simp

lemma always_for_up:
  assumes "I s" and "\<And>k s. I s \<Longrightarrow> always (body k s) I"
  shows "always (for_up i n body s) I"
  using assms
proof (induction i n body s rule: for_up.induct)
  case (1 i n body s)
  show ?case
  proof (cases "i < n \<and> body i s \<noteq> None")
    case True
    then obtain s' where s': "i < n" "body i s = Some s'" by blast
    then have "I s'" using 1(3) [OF 1(2), of i] by (simp add: always_def)
    from 1(1) [OF s' this 1(3)] show ?thesis by (subst for_up.simps) (simp add: s')
  next
    case False
    then show ?thesis using 1(2) by (subst for_up.simps) auto
  qed
qed

lemma always_for_down:
  assumes "I s" and "\<And>k s. I s \<Longrightarrow> always (body k s) I"
  shows "always (for_down n body s) I"
  using assms(1)
proof (induction n arbitrary: s)
  case (Suc n)
  with assms(2) [OF Suc.prems, of n] show ?case by (cases "body n s") simp_all
qed simp

definition quiet :: "ProcessorImpl \<Rightarrow> bool" where
  "quiet p \<longleftrightarrow> status p = kOk \<and> (\<forall>n. \<not> platform p n)"

abbreviation stays_quiet :: "(ProcessorImpl \<times> 'a) option \<Rightarrow> bool" where
  "stays_quiet m \<equiv> always m (\<lambda>r. quiet (fst r))"

lemma quiet_AddWorkEstimate: "quiet p \<Longrightarrow> quiet (AddWorkEstimate e p)"
  by (simp add: quiet_def AddWorkEstimate_def Let_def)

lemma quiet_bind:
  assumes "stays_quiet m" and "\<And>p s. quiet p \<Longrightarrow> always (f (p, s)) Q"
  shows "always (m \<bind> f) Q"
  by (rule always_bind [OF assms(1)]) (metis assms(2) prod.collapse)

lemma MultiplySingle_quiet: "quiet p \<Longrightarrow> stays_quiet (MultiplySingle p Z X y)"
  unfolding MultiplySingle_def Let_def
  by ((rule always_bindI always_case_prod | simp add: quiet_AddWorkEstimate)+)

lemma school_steps_quiet:
  "quiet (fst s) \<Longrightarrow> stays_quiet (school_main_step X Y i s)"
  "quiet (fst s) \<Longrightarrow> stays_quiet (school_last_step X Y i s)"
  unfolding school_main_step_def school_last_step_def Let_def
  by ((rule always_bindI always_case_prod | simp add: quiet_AddWorkEstimate)+)

lemma school_loops_quiet:
  assumes "quiet p"
  shows "stays_quiet (for_up i n (school_main_step X Y) (p, s))" and "stays_quiet (for_up i n (school_last_step X Y) (p, s))"
  by (rule always_for_up, simp add: assms, rule school_steps_quiet, assumption)+

lemma MultiplySchoolbook_quiet: "quiet p \<Longrightarrow> stays_quiet (MultiplySchoolbook p Z X Y)"
  unfolding MultiplySchoolbook_def Let_def
  by (simp only: prod.case | rule always_case_prod always_if | rule quiet_bind, rule school_loops_quiet, assumption | rule always_bindI | simp)+

lemma DivideSchoolbook_quiet:
  assumes "quiet p"
  shows "stays_quiet (DivideSchoolbook junk p Q R A B)"
proof -
  have m: "quiet p \<Longrightarrow> stays_quiet (if c then Some (p, Z) else MultiplySingle p Z' X y)" for c p Z Z' X y
    by (simp add: MultiplySingle_quiet)
  have step: "quiet (fst s) \<Longrightarrow> stays_quiet (schoolbook_step B n vn1 j s)" for B n vn1 j s
    unfolding schoolbook_step_def
    by (cases s) (simp only: prod.case fst_conv | rule always_case_prod always_if | rule quiet_bind, rule m, assumption | rule always_bindI | simp)+
  have loop: "quiet p \<Longrightarrow> stays_quiet (for_down k (schoolbook_step B n vn1) (p, s))" for k B n vn1 p s
    by (rule always_for_down, simp, rule step, assumption)
  show ?thesis using assms
    unfolding DivideSchoolbook_def
    by - (simp (no_asm) only: prod.case always_simps(2) fst_conv | assumption | rule always_Let always_case_prod |
        rule quiet_bind, rule loop, assumption | rule always_bindI)+
qed

lemma KaratsubaMain_quiet: "quiet p \<Longrightarrow> stays_quiet (KaratsubaMain p Z X Y S n)"
proof (induction n arbitrary: p Z X Y S rule: less_induct)
  case (less n)
  show ?case
  proof (cases "n < kKaratsubaThreshold")
    case True
    have m: "stays_quiet (if c then MultiplySchoolbook p Z X Y else MultiplySchoolbook p Z Y X)" for c Z X Y
      by (simp add: MultiplySchoolbook_quiet less.prems)
    show ?thesis unfolding KaratsubaMain.simps [of p Z X Y S n]
      by (simp only: prod.case True if_True | rule always_Let always_case_prod | rule quiet_bind, rule m | simp)+
  next
    case False
    then have "n div 2 < n" by (simp add: kKaratsubaThreshold_def)
    from less.IH [OF this] have IH: "m = n div 2 \<Longrightarrow> quiet p \<Longrightarrow> stays_quiet (KaratsubaMain p Z X Y S m)" for p Z X Y S m by blast
    show ?thesis using less.prems unfolding KaratsubaMain.simps [of p Z X Y S n]
      by - (simp (no_asm) only: prod.case False if_False always_simps(2) fst_conv | assumption | rule always_Let always_case_prod | rule quiet_bind, rule IH, assumption, assumption | rule always_bindI)+
  qed
qed

definition chunks_quiet :: "(nat \<Rightarrow> digit_t) \<Rightarrow> nat \<Rightarrow> bool" where
  "chunks_quiet junk N \<longleftrightarrow> (\<forall>p Z X Y S. length X + length Y \<le> N \<longrightarrow> quiet p \<longrightarrow> stays_quiet (KaratsubaChunk junk p Z X Y S))"

lemma optional_chunk_quiet:
  assumes "chunks_quiet junk N" and "length V + length W \<le> N" and "quiet p"
  shows "stays_quiet (if length W > 0 then do {
      (p, T, scratch) \<leftarrow> KaratsubaChunk junk p T V W S;
      (Z, _) \<leftarrow> at_offset j (\<lambda>W. AddAndReturnOverflow W T) Z;
      Some (p, Z, T, scratch) } else Some (p, Z, T, S))"
proof -
  have "stays_quiet (KaratsubaChunk junk p T V W S)" using assms by (simp add: chunks_quiet_def)
  with assms(3) show ?thesis
    by - (simp (no_asm) only: prod.case always_simps(2) fst_conv | assumption | rule always_if always_case_prod |
        rule quiet_bind, assumption | rule always_bindI)+
qed

lemma KaratsubaChunks_quiet:
  assumes "chunks_quiet junk N" and "length rest + length Y0 + length Y1 \<le> N" and "quiet p"
  shows "stays_quiet (KaratsubaChunks junk Y0 Y1 k rest i p Z T S)"
  using assms(2,3)
proof (induction "length rest" arbitrary: rest i p Z T S rule: less_induct)
  case less
  show ?case
  proof (cases "rest = [] \<or> k = 0")
    case True
    with less.prems show ?thesis by (subst KaratsubaChunks.simps) auto
  next
    case False
    let ?Xi = "Digits_slice rest 0 k"
    have c: "quiet p \<Longrightarrow> stays_quiet (KaratsubaChunk junk p T ?Xi Y0 S)" for p T S
      using assms(1) less.prems(1) by (simp add: chunks_quiet_def)
    have o: "quiet p \<Longrightarrow> stays_quiet (if length Y1 > 0 then do {
        (p, T, scratch) \<leftarrow> KaratsubaChunk junk p T ?Xi Y1 S;
        (Z, _) \<leftarrow> at_offset (i + k) (\<lambda>W. AddAndReturnOverflow W T) Z;
        Some (p, Z, T, scratch) } else Some (p, Z, T, S))" for p T S Z
      by (rule optional_chunk_quiet [OF assms(1)]) (use less.prems(1) in simp_all)
    have r: "quiet p \<Longrightarrow> stays_quiet (KaratsubaChunks junk Y0 Y1 k (drop k rest) (i + k) p Z T S)" for p Z T S
      by (rule less.hyps) (use False less.prems(1) in \<open>cases rest, auto\<close>)
    have e: "(rest = []) = False" "(k = 0) = False" using False by simp_all
    show ?thesis using less.prems(2) unfolding KaratsubaChunks.simps [of junk Y0 Y1 k rest] Let_def
      by - (simp (no_asm) only: e if_False prod.case always_simps(2) fst_conv | assumption | rule r, assumption | rule always_case_prod |
        rule quiet_bind, rule c, assumption | rule quiet_bind, rule o, assumption | rule always_bindI)+
  qed
qed

lemma KaratsubaStart_quiet:
  assumes "chunks_quiet junk N" and "length X + length Y \<le> Suc N" and "quiet p"
  shows "stays_quiet (KaratsubaStart junk p Z X Y S k)"
proof (cases "k = 0")
  case True
  then show ?thesis by (subst KaratsubaStart.simps) simp
next
  case False
  let ?X0 = "Digits_slice X 0 k" and ?Y1 = "drop (min k (length Y)) Y" and ?Y0 = "Digits_slice Y 0 k"
  have o: "stays_quiet (if length ?Y1 > 0 then do {
      (p, T, scratch) \<leftarrow> KaratsubaChunk junk p T ?X0 ?Y1 S;
      (Z, _) \<leftarrow> at_offset k (\<lambda>W. AddAndReturnOverflow W T) Z;
      Some (p, Z, T, scratch) } else Some (p, Z, T, S))" if "quiet p" for p T S Z
  proof (cases "k < length Y")
    case True
    then show ?thesis by (intro optional_chunk_quiet [OF assms(1) _ that]) (use assms(2) False in auto)
  qed (use that in simp)
  have r: "stays_quiet (KaratsubaChunks junk ?Y0 ?Y1 k (drop k X) k p Z T S)" if "quiet p" for p T S Z
  proof (cases "drop k X = []")
    case True
    then show ?thesis using that by (subst KaratsubaChunks.simps) simp
  next
    case b: False
    then show ?thesis by (intro KaratsubaChunks_quiet [OF assms(1) _ that]) (use assms(2) False in auto)
  qed
  have e: "(k = 0) = False" using False by simp
  show ?thesis using assms(3) unfolding KaratsubaStart.simps [of junk p Z X Y S k] Let_def
    by - (simp (no_asm) only: e if_False prod.case always_simps(2) fst_conv | assumption | rule r, assumption | rule always_if always_case_prod |
        rule quiet_bind, rule KaratsubaMain_quiet, assumption | rule quiet_bind, rule o, assumption | rule always_bindI)+
qed

lemma chunks_quiet_all: "chunks_quiet junk N"
proof (induction N)
  case 0
  have "Normalize [] = []" using length_Normalize [of "[]"] by simp
  then show ?case by (auto simp: chunks_quiet_def KaratsubaChunk.simps)
next
  case (Suc N)
  show ?case unfolding chunks_quiet_def
  proof (intro allI impI)
    fix p and Z X Y S :: digits
    assume len: "length X + length Y \<le> Suc N" and p: "quiet p"
    have s: "length V + length W \<le> Suc N" if "(V, W) = (Normalize X, Normalize Y) \<or> (V, W) = (Normalize Y, Normalize X)" for V W
      using that len length_Normalize [of X] length_Normalize [of Y] by auto
    show "stays_quiet (KaratsubaChunk junk p Z X Y S)"
      using p KaratsubaStart_quiet [OF Suc.IH s p] unfolding KaratsubaChunk.simps [of junk p Z X Y S] Let_def
      by (auto split: if_splits intro: always_bindI
          intro!: quiet_bind [OF MultiplySingle_quiet [OF p]] quiet_bind [OF MultiplySchoolbook_quiet [OF p]])
  qed
qed

lemma MultiplyKaratsuba_quiet:
  assumes "quiet p"
  shows "stays_quiet (MultiplyKaratsuba junk p Z X Y)"
  unfolding MultiplyKaratsuba_def Let_def
  by (rule quiet_bind, rule KaratsubaStart_quiet [OF chunks_quiet_all [of _ "length X + length Y"] _ assms]) auto

lemma ProcessorImpl_Multiply_quiet:
  assumes "quiet p" and "min (length (Normalize X)) (length (Normalize Y)) < kToomThreshold"
  shows "stays_quiet (ProcessorImpl_Multiply adv junk p Z X Y)"
  using assms MultiplySingle_quiet [OF assms(1)] MultiplySchoolbook_quiet [OF assms(1)] MultiplyKaratsuba_quiet [OF assms(1)]
  unfolding ProcessorImpl_Multiply_def Let_def
  by (auto simp: min_def split: if_splits intro: always_bindI)

lemma ProcessorImpl_Divide_quiet:
  assumes "quiet p" and "length (Normalize B) < kBurnikelThreshold"
  shows "stays_quiet (ProcessorImpl_Divide adv junk p Q A B)" and "stays_quiet (ProcessorImpl_Modulo adv junk p R A B)"
  using assms(1) unfolding ProcessorImpl_Divide_def ProcessorImpl_Modulo_def Let_def
  by - (simp (no_asm) only: eqTrueI [OF assms(2)] if_True prod.case always_simps(2) fst_conv | assumption | rule always_if always_case_prod |
      rule quiet_bind, rule DivideSchoolbook_quiet, assumption | rule always_bindI)+

lemma with_status_quiet:
  assumes "stays_quiet m" and "with_status m = Some (s, p, Z)"
  shows "s = kOk" and "quiet p"
  using assms by (auto simp: with_status_def get_and_clear_status_def always_def quiet_def bind_eq_Some_conv)

lemmas Processor_quiet =
  with_status_quiet [OF ProcessorImpl_Multiply_quiet, folded Processor_Multiply_def]
  with_status_quiet [OF ProcessorImpl_Divide_quiet(1), folded Processor_Divide_def]
  with_status_quiet [OF ProcessorImpl_Divide_quiet(2), folded Processor_Modulo_def]

end
