(* ===== verification/BigInt_Arith.thy ===== *)
theory BigInt_Arith
  imports BigInt_Object Bigint_Interrupts
begin

text \<open>
  Multiplication, division, remainder and exponentiation of \<open>objects/bigint.cc\<close>.  They run on the processor of the
  isolate, which is passed through; an interrupt that the platform requests during the computation ends the operation with
  the termination error.  The theorems cover operands below the thresholds of the unmodelled algorithms.
\<close>

type_synonym ProcessorResult = "(ProcessorImpl \<times> (BigIntError + BigIntBase)) option"

definition interrupted_or :: "BigIntBase \<Rightarrow> bool \<Rightarrow> (Status \<times> ProcessorImpl \<times> digits) option \<Rightarrow> ProcessorResult" where
  "interrupted_or result result_sign m = do {
     (s, p, Z) \<leftarrow> m;
     if s = kInterrupted then Some (p, Inl kTerminated)
     else Some (p, Inr (MakeImmutable (result\<lparr>digits := Z, sign := result_sign\<rparr>))) }"

definition BigInt_Multiply :: "advanced \<Rightarrow> memory \<Rightarrow> ProcessorImpl \<Rightarrow> BigIntBase \<Rightarrow> BigIntBase \<Rightarrow> ProcessorResult" where
  "BigInt_Multiply adv junk p x y =
     (if is_zero x then Some (p, Inr x)
      else if is_zero y then Some (p, Inr y)
      else (let result_length = MultiplyResultLength (digits x) (digits y)
            in case New junk result_length of
                 Inl e \<Rightarrow> Some (p, Inl e)
               | Inr result \<Rightarrow>
                   interrupted_or result (sign x \<noteq> sign y)
                     (Processor_Multiply adv junk p (digits result) (digits x) (digits y))))"

definition is_one :: "BigIntBase \<Rightarrow> bool" where
  "is_one y \<longleftrightarrow> length (digits y) = 1 \<and> digit y 0 = Some 1"

definition BigInt_Divide :: "advanced \<Rightarrow> memory \<Rightarrow> ProcessorImpl \<Rightarrow> BigIntBase \<Rightarrow> BigIntBase \<Rightarrow> ProcessorResult" where
  "BigInt_Divide adv junk p x y =
     (if is_zero y then Some (p, Inl kBigIntDivZero)
      else if Compare (digits x) (digits y) < 0 then do { z \<leftarrow> Zero junk; Some (p, Inr z) }
      else (let result_sign = (sign x \<noteq> sign y)
            in if is_one y then
                 (if result_sign = sign x then Some (p, Inr x) else do { z \<leftarrow> UnaryMinus junk x; Some (p, Inr z) })
               else (let result_length = DivideResultLength (digits x) (digits y)
                     in case New junk result_length of
                          Inl e \<Rightarrow> Some (p, Inl e)
                        | Inr quot \<Rightarrow>
                            interrupted_or quot result_sign
                              (Processor_Divide adv junk p (digits quot) (digits x) (digits y)))))"

definition BigInt_Remainder :: "advanced \<Rightarrow> memory \<Rightarrow> ProcessorImpl \<Rightarrow> BigIntBase \<Rightarrow> BigIntBase \<Rightarrow> ProcessorResult" where
  "BigInt_Remainder adv junk p x y =
     (if is_zero y then Some (p, Inl kBigIntDivZero)
      else if Compare (digits x) (digits y) < 0 then Some (p, Inr x)
      else if is_one y then do { z \<leftarrow> Zero junk; Some (p, Inr z) }
      else (let result_length = ModuloResultLength (digits y)
            in case New junk result_length of
                 Inl e \<Rightarrow> Some (p, Inl e)
               | Inr remainder \<Rightarrow>
                   interrupted_or remainder (sign x)
                     (Processor_Modulo adv junk p (digits remainder) (digits x) (digits y))))"

function Exponentiate_loop :: "advanced \<Rightarrow> memory \<Rightarrow> ProcessorImpl \<Rightarrow> nat \<Rightarrow> BigIntBase option \<Rightarrow> BigIntBase \<Rightarrow> ProcessorResult" where
  "Exponentiate_loop adv junk p n result running_square =
     (if n = 0 then do { r \<leftarrow> result; Some (p, Inr r) }
      else do {
        (p, maybe_result) \<leftarrow> BigInt_Multiply adv junk p running_square running_square;
        case maybe_result of
          Inl e \<Rightarrow> Some (p, Inl e)
        | Inr running_square \<Rightarrow>
            if odd n then
              (case result of
                 None \<Rightarrow> Exponentiate_loop adv junk p (n div 2) (Some running_square) running_square
               | Some r \<Rightarrow> do {
                   (p, maybe_result) \<leftarrow> BigInt_Multiply adv junk p r running_square;
                   case maybe_result of
                     Inl e \<Rightarrow> Some (p, Inl e)
                   | Inr r \<Rightarrow> Exponentiate_loop adv junk p (n div 2) (Some r) running_square })
            else Exponentiate_loop adv junk p (n div 2) result running_square })"
  by pat_completeness auto
termination
  by (relation "measure (\<lambda>(adv, junk, p, n, result, sq). n)") auto

declare Exponentiate_loop.simps [simp del]

definition BigInt_Exponentiate :: "advanced \<Rightarrow> memory \<Rightarrow> ProcessorImpl \<Rightarrow> BigIntBase \<Rightarrow> BigIntBase \<Rightarrow> ProcessorResult" where
  "BigInt_Exponentiate adv junk p base exponent =
     (if sign exponent then Some (p, Inl kMustBePositive)
      else if is_zero exponent then do { z \<leftarrow> NewFromInt junk 1; Some (p, Inr z) }
      else if is_zero base then Some (p, Inr base)
      else if is_one base then do {
        e0 \<leftarrow> digit exponent 0;
        if sign base \<and> e0 AND 1 = 0 then do { z \<leftarrow> UnaryMinus junk base; Some (p, Inr z) }
        else Some (p, Inr base) }
      else if length (digits exponent) > 1 then Some (p, Inl kBigIntTooBig)
      else do {
        exp_value \<leftarrow> digit exponent 0;
        if exp_value = 1 then Some (p, Inr base)
        else if unat exp_value \<ge> kMaxLengthBits then Some (p, Inl kBigIntTooBig)
        else do {
          let n = unat exp_value;
          b0 \<leftarrow> digit base 0;
          if length (digits base) = 1 \<and> b0 = 2 then
            (let needed_digits = 1 + n div kDigitBits
             in case New junk needed_digits of
                  Inl e \<Rightarrow> Some (p, Inl e)
                | Inr result \<Rightarrow> do {
                    let result = result\<lparr>digits := replicate needed_digits 0\<rparr>;
                    let msd = push_bit (n mod kDigitBits) 1;
                    result \<leftarrow> set_digit (needed_digits - 1) msd result;
                    let result = (if sign base then result\<lparr>sign := odd n\<rparr> else result);
                    Some (p, Inr (MakeImmutable result)) })
          else Exponentiate_loop adv junk p (n div 2) (if odd n then Some base else None) base } })"

section \<open>Outcomes\<close>

text \<open>
  The outcome of an operation on the processor: the announced error, or the object of the mathematical value, or the
  termination error, which a quiet processor never gives.
\<close>

definition outcome :: "ProcessorImpl \<Rightarrow> ProcessorResult \<Rightarrow> BigIntError option \<Rightarrow> int \<Rightarrow> bool" where
  "outcome p m fails v \<longleftrightarrow> (\<exists>p' r. m = Some (p', r) \<and> (quiet p \<longrightarrow> quiet p') \<and>
     (case fails of Some e \<Rightarrow> r = Inl e | None \<Rightarrow> returns (Some r) v \<or> (r = Inl kTerminated \<and> \<not> quiet p)))"

lemma outcome_value: "canonical z \<Longrightarrow> bigint_val z = v \<Longrightarrow> outcome p (Some (p, Inr z)) None v"
  by (simp add: outcome_def returns_def)

lemma outcome_error: "outcome p (Some (p, Inl e)) (Some e) v"
  by (simp add: outcome_def)

lemma outcome_interrupted_or:
  assumes "m = Some (s, p', Z)" and "quiet p \<Longrightarrow> s = kOk \<and> quiet p'" and "length Z \<le> kMaxLength" and "Z \<noteq> []"
    and "sval result_sign Z = v"
  shows "outcome p (interrupted_or result result_sign m) None v"
proof (cases "s = kInterrupted")
  case True
  then show ?thesis using assms(1,2) by (auto simp: interrupted_or_def outcome_def)
next
  case False
  let ?r = "result\<lparr>digits := Z, sign := result_sign\<rparr>"
  have "returns (Some (Inr (MakeImmutable ?r))) v"
    by (rule returns_MakeImmutable) (use assms(3-5) in \<open>simp_all add: bigint_val_def\<close>)
  then show ?thesis using assms(1,2) False by (auto simp: interrupted_or_def outcome_def)
qed

section \<open>Multiplication\<close>

definition Multiply_fails :: "BigIntBase \<Rightarrow> BigIntBase \<Rightarrow> BigIntError option" where
  "Multiply_fails x y =
     (if \<not> is_zero x \<and> \<not> is_zero y \<and> kMaxLength < length (digits x) + length (digits y) then Some kBigIntTooBig else None)"

definition multipliable :: "BigIntBase \<Rightarrow> BigIntBase \<Rightarrow> bool" where
  "multipliable x y \<longleftrightarrow> min (length (digits x)) (length (digits y)) < kToomThreshold"

lemma canonical_Normalize: "canonical x \<Longrightarrow> Normalize (digits x) = digits x"
  by (simp add: canonical_def Normalize_id)

lemma BigInt_Multiply_outcome:
  assumes "canonical x" and "canonical y" and "multipliable x y"
  shows "outcome p (BigInt_Multiply adv junk p x y) (Multiply_fails x y) (bigint_val x * bigint_val y)"
proof (cases "is_zero x \<or> is_zero y")
  case True
  then show ?thesis using assms(1,2) canonical_zero [of x] canonical_zero [of y]
    by (auto simp: BigInt_Multiply_def Multiply_fails_def intro!: outcome_value)
next
  case nz: False
  let ?n = "length (digits x) + length (digits y)"
  show ?thesis
  proof (cases "kMaxLength < ?n")
    case True
    then show ?thesis using nz by (auto simp: BigInt_Multiply_def Multiply_fails_def MultiplyResultLength_def New_too_big intro!: outcome_error)
  next
    case False
    let ?Z = "map junk [0..<?n]"
    have small: "min (length (Normalize (digits x))) (length (Normalize (digits y))) < kToomThreshold"
      using assms by (simp add: canonical_Normalize multipliable_def)
    have "length ?Z < digit_base" using False kMaxLength_bounds(2) by simp
    with ProcessorImpl_Multiply_spec [OF small, of ?Z adv junk p] assms(1,2) obtain p' Z' where
      m: "ProcessorImpl_Multiply adv junk p ?Z (digits x) (digits y) = Some (p', Z')" and
      Z': "length Z' = ?n" "dval Z' = dval (digits x) * dval (digits y)" by (auto simp: canonical_Normalize)
    then have P: "Processor_Multiply adv junk p ?Z (digits x) (digits y) = Some (status p', p'\<lparr>status := kOk\<rparr>, Z')"
      by (simp add: Processor_Multiply_def with_status_Some)
    have q: "quiet p \<Longrightarrow> status p' = kOk \<and> quiet (p'\<lparr>status := kOk\<rparr>)"
      using Processor_quiet(1) [OF _ small P] Processor_quiet(2) [OF _ small P] by blast
    have "BigInt_Multiply adv junk p x y = interrupted_or \<lparr>sign = False, digits = ?Z\<rparr> (sign x \<noteq> sign y)
        (Processor_Multiply adv junk p ?Z (digits x) (digits y))"
      using nz False by (simp add: BigInt_Multiply_def Let_def MultiplyResultLength_def New_ok)
    moreover have "outcome p \<dots> None (bigint_val x * bigint_val y)"
      by (rule outcome_interrupted_or [OF P q])
        (use Z' False nz in \<open>auto simp: is_zero_def bigint_val_def sval_def\<close>)
    ultimately show ?thesis using False by (simp add: Multiply_fails_def)
  qed
qed

section \<open>Division\<close>

definition divisible :: "BigIntBase \<Rightarrow> bool" where
  "divisible y \<longleftrightarrow> length (digits y) < kBurnikelThreshold"

definition Divide_fails :: "BigIntBase \<Rightarrow> BigIntError option" where
  "Divide_fails y = (if is_zero y then Some kBigIntDivZero else None)"

lemma is_one_iff: "canonical y \<Longrightarrow> is_one y \<longleftrightarrow> dval (digits y) = 1"
proof -
  assume y: "canonical y"
  have "is_one y \<longleftrightarrow> digits y = [1]" by (cases "digits y") (auto simp: is_one_def digit_def rd_def)
  also have "\<dots> \<longleftrightarrow> dval (digits y) = 1"
    using normalized_inj [of "digits y" "[1]"] y by (auto simp: canonical_def IsDigitNormalized_def)
  finally show ?thesis .
qed

lemma Zero_value: "\<exists>z. Zero junk = Some z \<and> canonical z \<and> bigint_val z = 0"
  using NewFromInt_spec [of 0 junk] by (simp add: NewFromInt_def)

lemma canonical_magnitude: "\<bar>bigint_val x\<bar> = int (dval (digits x))"
  by (simp add: bigint_val_def sval_def)

lemma canonical_sgn: "canonical x \<Longrightarrow> \<not> is_zero x \<Longrightarrow> sgn (bigint_val x) = (if sign x then - 1 else 1)"
  using canonical_pos [of x] by (auto simp: bigint_val_def sval_def sgn_if)

lemma is_zero_iff: "canonical x \<Longrightarrow> is_zero x \<longleftrightarrow> dval (digits x) = 0"
  by (auto simp: canonical_def is_zero_def normalized_0)

lemma canonical_larger:
  assumes "canonical x" and "canonical y" and "dval (digits y) \<le> dval (digits x)"
  shows "length (digits y) \<le> length (digits x)"
  using normalized_length_less [of "digits y" "digits x"] assms by (force simp: canonical_def)

lemma divisible_Normalize: "canonical y \<Longrightarrow> divisible y \<Longrightarrow> length (Normalize (digits y)) < kBurnikelThreshold"
  by (simp add: canonical_Normalize divisible_def)

lemma BigInt_Divide_general:
  assumes "canonical x" and "canonical y" and "divisible y" and "\<not> is_zero y" and "dval (digits y) \<le> dval (digits x)" and "\<not> is_one y"
  shows "outcome p (BigInt_Divide adv junk p x y) None ((if sign x \<noteq> sign y then - 1 else 1) * int (dval (digits x) div dval (digits y)))"
proof -
  let ?n = "DivideResultLength (digits x) (digits y)"
  let ?Q = "map junk [0..<?n]"
  have y0: "dval (digits y) \<noteq> 0" using assms(2,4) by (simp add: is_zero_iff)
  have "?n = length (digits x) - length (digits y) + 1"
    using assms(3) by (simp add: divisible_def DivideResultLength_def kBurnikelThreshold_def kBarrettThreshold_def)
  moreover have "length (digits x) \<le> kMaxLength" using assms(1) by (simp add: canonical_def)
  ultimately have n: "?n \<le> kMaxLength" "?n \<noteq> 0"
    using canonical_larger [OF assms(1,2,5)] digits_nonempty [OF assms(2,4)] by linarith+
  note small = divisible_Normalize [OF assms(2,3)]
  from ProcessorImpl_Divide_spec [OF y0 small, of "digits x" ?Q adv junk p] assms(1,2) obtain p' Q' where
    m: "ProcessorImpl_Divide adv junk p ?Q (digits x) (digits y) = Some (p', Q')"
    and Q': "length Q' = ?n" "dval Q' = dval (digits x) div dval (digits y)" by (auto simp: canonical_Normalize)
  then have P: "Processor_Divide adv junk p ?Q (digits x) (digits y) = Some (status p', p'\<lparr>status := kOk\<rparr>, Q')"
    by (simp add: Processor_Divide_def with_status_Some)
  have q: "quiet p \<Longrightarrow> status p' = kOk \<and> quiet (p'\<lparr>status := kOk\<rparr>)"
    using Processor_quiet(3) [OF _ small P] Processor_quiet(4) [OF _ small P] by blast
  have "BigInt_Divide adv junk p x y = interrupted_or \<lparr>sign = False, digits = ?Q\<rparr> (sign x \<noteq> sign y)
      (Processor_Divide adv junk p ?Q (digits x) (digits y))"
    using assms(4-6) n by (simp add: BigInt_Divide_def Let_def Compare_less New_ok)
  moreover have "outcome p \<dots> None ((if sign x \<noteq> sign y then - 1 else 1) * int (dval (digits x) div dval (digits y)))"
    by (rule outcome_interrupted_or [OF P q]) (use Q' n in \<open>auto simp: sval_def\<close>)
  ultimately show ?thesis by simp
qed

lemma BigInt_Divide_outcome:
  assumes "canonical x" and "canonical y" and "divisible y"
  shows "outcome p (BigInt_Divide adv junk p x y) (Divide_fails y)
    (sgn (bigint_val x) * sgn (bigint_val y) * (\<bar>bigint_val x\<bar> div \<bar>bigint_val y\<bar>))"
proof -
  consider "is_zero y" | "\<not> is_zero y" "dval (digits x) < dval (digits y)"
    | "\<not> is_zero y" "dval (digits y) \<le> dval (digits x)" "is_one y" | "\<not> is_zero y" "dval (digits y) \<le> dval (digits x)" "\<not> is_one y"
    by linarith
  then show ?thesis
  proof cases
    case 1
    then show ?thesis by (simp add: BigInt_Divide_def Divide_fails_def outcome_error)
  next
    case 2
    with Zero_value [of junk] show ?thesis
      by (auto simp: BigInt_Divide_def Divide_fails_def Compare_less canonical_magnitude zdiv_int [symmetric] intro!: outcome_value)
  next
    case 3
    then have x: "\<not> is_zero x" and y1: "dval (digits y) = 1" using assms(1,2) by (auto simp: is_zero_iff is_one_iff)
    have v: "sgn (bigint_val x) * sgn (bigint_val y) * (\<bar>bigint_val x\<bar> div \<bar>bigint_val y\<bar>) = (if sign y then - bigint_val x else bigint_val x)"
      using canonical_sgn [OF assms(1) x] canonical_sgn [OF assms(2) 3(1)] y1 by (simp add: canonical_magnitude) (simp add: bigint_val_def sval_def)
    show ?thesis unfolding v using 3 assms(1) UnaryMinus_spec [OF assms(1), of junk]
      by (auto simp: BigInt_Divide_def Divide_fails_def Compare_less Let_def intro!: outcome_value)
  next
    case 4
    then have x: "\<not> is_zero x" using assms(1,2) by (auto simp: is_zero_iff)
    show ?thesis using BigInt_Divide_general [OF assms 4, of p adv junk] 4(1) canonical_sgn [OF assms(1) x] canonical_sgn [OF assms(2) 4(1)]
      by (auto simp: Divide_fails_def canonical_magnitude zdiv_int sval_def split: if_splits)
  qed
qed

lemma BigInt_Remainder_general:
  assumes "canonical x" and "canonical y" and "divisible y" and "\<not> is_zero y" and "dval (digits y) \<le> dval (digits x)" and "\<not> is_one y"
  shows "outcome p (BigInt_Remainder adv junk p x y) None ((if sign x then - 1 else 1) * int (dval (digits x) mod dval (digits y)))"
proof -
  let ?n = "length (digits y)"
  let ?R = "map junk [0..<?n]"
  have y0: "dval (digits y) \<noteq> 0" using assms(2,4) by (simp add: is_zero_iff)
  have n: "?n \<le> kMaxLength" "?n \<noteq> 0" using assms(2,4) by (simp_all add: canonical_def is_zero_def)
  note small = divisible_Normalize [OF assms(2,3)]
  from ProcessorImpl_Modulo_spec [OF y0 small, of ?R adv junk p "digits x"] assms(2,5) obtain p' R' where
    m: "ProcessorImpl_Modulo adv junk p ?R (digits x) (digits y) = Some (p', R')"
    and R': "length R' = ?n" "dval R' = dval (digits x) mod dval (digits y)" by (auto simp: canonical_Normalize split: if_splits)
  then have P: "Processor_Modulo adv junk p ?R (digits x) (digits y) = Some (status p', p'\<lparr>status := kOk\<rparr>, R')"
    by (simp add: Processor_Modulo_def with_status_Some)
  have q: "quiet p \<Longrightarrow> status p' = kOk \<and> quiet (p'\<lparr>status := kOk\<rparr>)"
    using Processor_quiet(5) [OF _ small P] Processor_quiet(6) [OF _ small P] by blast
  have "BigInt_Remainder adv junk p x y = interrupted_or \<lparr>sign = False, digits = ?R\<rparr> (sign x)
      (Processor_Modulo adv junk p ?R (digits x) (digits y))"
    using assms(4-6) n by (simp add: BigInt_Remainder_def Let_def Compare_less New_ok ModuloResultLength_def)
  moreover have "outcome p \<dots> None ((if sign x then - 1 else 1) * int (dval (digits x) mod dval (digits y)))"
    by (rule outcome_interrupted_or [OF P q]) (use R' n in \<open>auto simp: sval_def\<close>)
  ultimately show ?thesis by simp
qed

lemma BigInt_Remainder_outcome:
  assumes "canonical x" and "canonical y" and "divisible y"
  shows "outcome p (BigInt_Remainder adv junk p x y) (Divide_fails y) (sgn (bigint_val x) * (\<bar>bigint_val x\<bar> mod \<bar>bigint_val y\<bar>))"
proof -
  consider "is_zero y" | "\<not> is_zero y" "dval (digits x) < dval (digits y)"
    | "\<not> is_zero y" "dval (digits y) \<le> dval (digits x)" "is_one y" | "\<not> is_zero y" "dval (digits y) \<le> dval (digits x)" "\<not> is_one y"
    by linarith
  then show ?thesis
  proof cases
    case 1
    then show ?thesis by (simp add: BigInt_Remainder_def Divide_fails_def outcome_error)
  next
    case 2
    then show ?thesis using assms(1)
      by (auto simp: BigInt_Remainder_def Divide_fails_def Compare_less canonical_magnitude zmod_int [symmetric] sgn_mult_abs
          intro!: outcome_value) (simp add: sgn_mult_abs flip: canonical_magnitude)
  next
    case 3
    with Zero_value [of junk] assms(2) show ?thesis
      by (auto simp: BigInt_Remainder_def Divide_fails_def Compare_less is_one_iff canonical_magnitude intro!: outcome_value)
  next
    case 4
    then have x: "\<not> is_zero x" using assms(1,2) by (auto simp: is_zero_iff)
    show ?thesis using BigInt_Remainder_general [OF assms 4, of p adv junk] 4(1) canonical_sgn [OF assms(1) x]
      by (auto simp: Divide_fails_def canonical_magnitude zmod_int split: if_splits)
  qed
qed

section \<open>Exponentiation\<close>

lemma outcomeE:
  assumes "outcome p m None v"
  obtains p' z where "m = Some (p', Inr z)" "canonical z" "bigint_val z = v" "quiet p \<Longrightarrow> quiet p'"
    | p' where "m = Some (p', Inl kTerminated)" "\<not> quiet p"
  using assms by (auto simp: outcome_def returns_def)

lemma length_of_small:
  assumes "canonical x" and "\<bar>bigint_val x\<bar> < int (digit_base ^ n)"
  shows "length (digits x) \<le> n"
  using assms Normalize_length_le [of "digits x" n] by (simp add: canonical_Normalize canonical_magnitude)

lemma outcome_Multiply_small:
  assumes "canonical x" and "canonical y" and "\<bar>bigint_val x\<bar> < int (digit_base ^ 192)" and "\<bar>bigint_val y\<bar> < int (digit_base ^ 192)"
  shows "outcome p (BigInt_Multiply adv junk p x y) None (bigint_val x * bigint_val y)"
proof -
  have "length (digits x) \<le> 192" "length (digits y) \<le> 192" using assms length_of_small by blast+
  moreover have "kMaxLength = 2 ^ 24" by (simp add: kMaxLength_def kMaxLengthBits_def)
  ultimately have "multipliable x y" "Multiply_fails x y = None" by (auto simp: multipliable_def kToomThreshold_def Multiply_fails_def)
  with BigInt_Multiply_outcome [OF assms(1,2), of p adv junk] show ?thesis by simp
qed

lemma outcome_bind:
  assumes "outcome p m None v" and "\<And>p' z. canonical z \<Longrightarrow> bigint_val z = v \<Longrightarrow> outcome p' (f p' z) None w"
  shows "outcome p (do { (p, r) \<leftarrow> m; case r of Inl e \<Rightarrow> Some (p, Inl e) | Inr z \<Rightarrow> f p z }) None w"
  using assms(1)
proof (cases rule: outcomeE)
  case (1 p' z)
  then show ?thesis using assms(2) [OF 1(2,3), of p'] by (auto simp: outcome_def)
next
  case (2 p')
  then show ?thesis by (auto simp: outcome_def)
qed

lemma abs_le_product: "(b :: int) \<noteq> 0 \<Longrightarrow> \<bar>a\<bar> \<le> \<bar>a * b\<bar>" "a \<noteq> 0 \<Longrightarrow> \<bar>b\<bar> \<le> \<bar>a * b\<bar>"
  using zero_less_abs_iff [of a] zero_less_abs_iff [of b]
  by (auto simp: abs_mult mult_le_cancel_left1 mult_le_cancel_right1 simp del: zero_less_abs_iff)

lemma power_halves: "(s :: int) ^ (2 * n) = (if odd n then s\<^sup>2 else 1) * (s\<^sup>2) ^ (2 * (n div 2))"
proof (cases "odd n")
  case True
  then obtain q where n: "n = 2 * q + 1" by (rule oddE)
  then have "s ^ (2 * n) = s ^ (2 + 2 * (2 * q))" by simp
  also have "\<dots> = s\<^sup>2 * (s\<^sup>2) ^ (2 * q)" by (simp only: power_add power_mult)
  finally show ?thesis using n by simp
qed (simp add: power_mult)

definition partial_power :: "BigIntBase option \<Rightarrow> int" where
  "partial_power result = (case result of None \<Rightarrow> 1 | Some r \<Rightarrow> bigint_val r)"

lemma power_bounds:
  assumes "R \<noteq> 0" and "s \<noteq> 0" and "n \<noteq> 0" and "\<bar>R * s ^ (2 * n)\<bar> < (B :: int)"
  shows "\<bar>s\<^sup>2\<bar> < B" and "\<bar>R\<bar> < B" and "\<bar>s\<bar> < B"
proof -
  have "s ^ (2 * n) = s ^ (2 * n - 2) * s\<^sup>2" using assms(3) by (cases n) (simp_all add: power_add power2_eq_square)
  then have "R * s ^ (2 * n) = (R * s ^ (2 * n - 2)) * s\<^sup>2" by simp
  then have "\<bar>s\<^sup>2\<bar> \<le> \<bar>R * s ^ (2 * n)\<bar>" "\<bar>R\<bar> \<le> \<bar>R * s ^ (2 * n)\<bar>"
    using assms(1,2) abs_le_product(2) [of "R * s ^ (2 * n - 2)" "s\<^sup>2"] abs_le_product(1) [of "s ^ (2 * n)" R] by simp_all
  then show "\<bar>s\<^sup>2\<bar> < B" "\<bar>R\<bar> < B" using assms(4) by linarith+
  then show "\<bar>s\<bar> < B" using abs_le_product(1) [of s s] assms(2) by (simp add: power2_eq_square)
qed

lemma Exponentiate_loop_step:
  assumes "n \<noteq> 0"
  shows "Exponentiate_loop adv junk p n result sq =
    do { (p, r) \<leftarrow> BigInt_Multiply adv junk p sq sq; case r of Inl e \<Rightarrow> Some (p, Inl e) | Inr z \<Rightarrow>
      (if odd n then (case result of None \<Rightarrow> Exponentiate_loop adv junk p (n div 2) (Some z) z
         | Some r \<Rightarrow> do { (p, m) \<leftarrow> BigInt_Multiply adv junk p r z; case m of Inl e \<Rightarrow> Some (p, Inl e)
             | Inr r \<Rightarrow> Exponentiate_loop adv junk p (n div 2) (Some r) z })
       else Exponentiate_loop adv junk p (n div 2) result z) }"
  using assms by (subst Exponentiate_loop.simps) (simp only: if_False)

lemma Exponentiate_loop_outcome:
  assumes "canonical sq" and "bigint_val sq \<noteq> 0" and "\<And>r. result = Some r \<Longrightarrow> canonical r \<and> bigint_val r \<noteq> 0"
    and "result \<noteq> None \<or> n \<noteq> 0" and "\<bar>partial_power result * bigint_val sq ^ (2 * n)\<bar> < int (digit_base ^ 192)"
  shows "outcome p (Exponentiate_loop adv junk p n result sq) None (partial_power result * bigint_val sq ^ (2 * n))"
  using assms
proof (induction n arbitrary: p result sq rule: less_induct)
  case (less n)
  let ?s = "bigint_val sq" and ?R = "partial_power result" and ?B = "int (digit_base ^ 192)"
  show ?case
  proof (cases "n = 0")
    case True
    with less.prems(4) obtain r where "result = Some r" by auto
    with True less.prems(3) show ?thesis
      by (simp add: Exponentiate_loop.simps partial_power_def outcome_value)
  next
    case False
    have R: "?R \<noteq> 0" using less.prems(3) by (cases result) (simp_all add: partial_power_def)
    have split: "?R * ?s ^ (2 * n) = ?R * (if odd n then ?s\<^sup>2 else 1) * (?s\<^sup>2) ^ (2 * (n div 2))"
      by (simp only: power_halves [of ?s n] mult.assoc)
    note bounds = power_bounds [OF R less.prems(2) False less.prems(5)]
    have sq: "outcome p (BigInt_Multiply adv junk p sq sq) None (?s\<^sup>2)"
      unfolding power2_eq_square by (rule outcome_Multiply_small [OF less.prems(1,1) bounds(3,3)])
    show ?thesis unfolding Exponentiate_loop_step [OF False]
    proof (rule outcome_bind [OF sq])
      fix p z assume z: "canonical z" "bigint_val z = ?s\<^sup>2"
      then have z0: "bigint_val z \<noteq> 0" using less.prems(2) by simp
      have step: "outcome q (Exponentiate_loop adv junk q (n div 2) res z) None (?R * ?s ^ (2 * n))"
        if "\<And>r. res = Some r \<Longrightarrow> canonical r \<and> bigint_val r \<noteq> 0" and "res \<noteq> None \<or> n div 2 \<noteq> 0"
          and "partial_power res = ?R * (if odd n then ?s\<^sup>2 else 1)" for q res
        using less.IH [of "n div 2" z res q] False z z0 that less.prems(5) unfolding split by simp
      show "outcome p (if odd n then (case result of None \<Rightarrow> Exponentiate_loop adv junk p (n div 2) (Some z) z
             | Some r \<Rightarrow> do { (p, m) \<leftarrow> BigInt_Multiply adv junk p r z; case m of Inl e \<Rightarrow> Some (p, Inl e)
                 | Inr r \<Rightarrow> Exponentiate_loop adv junk p (n div 2) (Some r) z })
           else Exponentiate_loop adv junk p (n div 2) result z) None (?R * ?s ^ (2 * n))"
      proof (cases "odd n")
        case odd: True
        show ?thesis
        proof (cases result)
          case None
          have "outcome p (Exponentiate_loop adv junk p (n div 2) (Some z) z) None (?R * ?s ^ (2 * n))"
            by (rule step) (use odd z z0 None in \<open>auto simp: partial_power_def\<close>)
          with None odd show ?thesis by simp
        next
          case (Some r)
          then have r: "canonical r" "bigint_val r \<noteq> 0" "?R = bigint_val r" using less.prems(3) by (simp_all add: partial_power_def)
          have "outcome p (BigInt_Multiply adv junk p r z) None (bigint_val r * ?s\<^sup>2)"
            using outcome_Multiply_small [OF r(1) z(1), of p adv junk] bounds r z by simp
          then have "outcome p (do { (p, m) \<leftarrow> BigInt_Multiply adv junk p r z; case m of Inl e \<Rightarrow> Some (p, Inl e)
              | Inr r \<Rightarrow> Exponentiate_loop adv junk p (n div 2) (Some r) z }) None (?R * ?s ^ (2 * n))"
            by (rule outcome_bind) (rule step; use odd r less.prems(2) in \<open>auto simp: partial_power_def\<close>)
          with Some odd show ?thesis by simp
        qed
      next
        case False
        have "result \<noteq> None \<or> n div 2 \<noteq> 0" using less.prems(4) False by (auto elim: evenE)
        then have "outcome p (Exponentiate_loop adv junk p (n div 2) result z) None (?R * ?s ^ (2 * n))"
          using less.prems(3) False by (intro step) simp_all
        with False show ?thesis by simp
      qed
    qed
  qed
qed

lemma dval_bit: "dval (replicate k 0 @ [push_bit b 1]) = 2 ^ (64 * k + b)" if "b < 64"
proof -
  have "(2 :: nat) ^ b < 2 ^ 64" using that by (intro power_strict_increasing) simp_all
  then have "unat (of_nat (2 ^ b) :: digit_t) = 2 ^ b" by (simp only: unat_of_nat) simp
  then have "unat (push_bit b 1 :: digit_t) = 2 ^ b" by simp
  then show ?thesis by (simp add: digit_base_def power_add power_mult)
qed

lemma replicate_Suc_append: "replicate (Suc m) x = replicate m x @ [x]"
  by (simp add: replicate_append_same)

lemma BigInt_Exponentiate_two:
  assumes "digits base = [2]" and "digits exponent = [e]" and "\<not> sign exponent" and "e \<noteq> 0" and "e \<noteq> 1" and "unat e < kMaxLengthBits"
  shows "outcome p (BigInt_Exponentiate adv junk p base exponent) None (bigint_val base ^ unat e)"
proof -
  define m b where "m = unat e div 64" and "b = unat e mod 64"
  have n: "64 * m + b = unat e" and b: "b < 64" by (simp_all add: m_def b_def)
  have "m < 2 ^ 24" unfolding m_def by (rule less_mult_imp_div_less) (use assms(6) in \<open>simp add: kMaxLengthBits_def\<close>)
  then have m: "Suc m \<le> kMaxLength" by (simp add: kMaxLength_def kMaxLengthBits_def)
  define r where "r = \<lparr>sign = sign base \<and> odd (unat e), digits = replicate m 0 @ [push_bit b 1]\<rparr>"
  have set_top: "wr (replicate (Suc m) (0 :: digit_t)) m x = Some (replicate m 0 @ [x])" for x
    unfolding replicate_Suc_append by (simp add: wr_def list_update_append)
  have "BigInt_Exponentiate adv junk p base exponent = Some (p, Inr (MakeImmutable r))"
    using assms m unfolding BigInt_Exponentiate_def m_def [symmetric] b_def [symmetric] r_def
    by (simp add: is_zero_def is_one_def digit_def rd_def Let_def New_ok set_digit_def set_top m_def [symmetric] b_def [symmetric]
        del: replicate_Suc push_bit_of_1)
  moreover have "bigint_val r = bigint_val base ^ unat e"
  proof -
    have "dval (digits r) = 2 ^ unat e" unfolding r_def BigIntBase.simps dval_bit [OF b] n ..
    then show ?thesis using assms(1)
      by (cases "even (unat e)") (simp_all add: bigint_val_def sval_def r_def power_minus_even power_minus_odd)
  qed
  ultimately show ?thesis using returns_MakeImmutable [of r "bigint_val base ^ unat e"] m by (simp add: outcome_def r_def)
qed

definition Exponentiate_fails :: "BigIntBase \<Rightarrow> BigIntBase \<Rightarrow> BigIntError option" where
  "Exponentiate_fails base exponent =
     (if bigint_val exponent < 0 then Some kMustBePositive
      else if 1 < \<bar>bigint_val base\<bar> \<and> int kMaxLengthBits \<le> bigint_val exponent then Some kBigIntTooBig
      else None)"

definition exponentiable :: "BigIntBase \<Rightarrow> BigIntBase \<Rightarrow> bool" where
  "exponentiable base exponent \<longleftrightarrow> \<bar>bigint_val base\<bar> \<le> 2 \<or> int kMaxLengthBits \<le> bigint_val exponent \<or>
     \<bar>bigint_val base ^ nat (bigint_val exponent)\<bar> < int (digit_base ^ 192)"

lemma canonical_single:
  assumes "canonical x" and "length (digits x) \<le> 1" and "\<not> is_zero x" and "\<not> sign x"
  obtains d where "digits x = [d]" "d \<noteq> 0" "nat (bigint_val x) = unat d"
proof -
  from assms(2,3) obtain d where d: "digits x = [d]" by (cases "digits x") (auto simp: is_zero_def)
  moreover have "d \<noteq> 0" using canonical_pos [OF assms(1,3)] d by (auto simp: unat_gt_0)
  ultimately show ?thesis using that assms(4) by (simp add: bigint_val_def sval_def)
qed

lemma canonical_long:
  assumes "canonical x" and "1 < length (digits x)"
  shows "int kMaxLengthBits \<le> \<bar>bigint_val x\<bar>"
proof -
  have "digit_base ^ 1 \<le> dval (digits x)"
    using Normalize_length_le [of "digits x" 1] assms canonical_Normalize [OF assms(1)] by (force simp: not_less [symmetric])
  moreover have "kMaxLengthBits \<le> digit_base" by (simp add: kMaxLengthBits_def digit_base_def)
  ultimately show ?thesis unfolding canonical_magnitude by simp
qed

lemma minus_one_power: "\<bar>b\<bar> = 1 \<Longrightarrow> (b :: int) ^ n = (if b < 0 \<and> even n then - b else if even n then 1 else b)"
  by (cases "b = 1") (auto simp: abs_if split: if_splits)

lemma even_unat: "even (unat (d :: digit_t)) \<longleftrightarrow> d AND 1 = 0"
proof -
  have "unat (d AND 1) = unat d mod 2" unfolding and_one_eq unat_mod by simp
  then show ?thesis unfolding even_iff_mod_2_eq_zero unat_eq_0 [symmetric] by simp
qed

lemma BigInt_Exponentiate_one:
  assumes "canonical base" and "canonical exponent" and "\<not> sign exponent" and "\<not> is_zero exponent" and "is_one base"
  shows "outcome p (BigInt_Exponentiate adv junk p base exponent) None (bigint_val base ^ nat (bigint_val exponent))"
proof -
  from assms(4) obtain e0 es where e: "digits exponent = e0 # es" by (cases "digits exponent") (auto simp: is_zero_def)
  have "even (dval (digits exponent)) \<longleftrightarrow> e0 AND 1 = 0" by (simp add: e digit_base_def even_unat)
  then have ev: "even (nat (bigint_val exponent)) \<longleftrightarrow> e0 AND 1 = 0"
    using assms(3) by (simp add: bigint_val_def sval_def)
  have b: "\<bar>bigint_val base\<bar> = 1" "\<not> is_zero base" "sign base \<longleftrightarrow> bigint_val base < 0"
    using assms(1,5) is_one_iff [OF assms(1)] canonical_sign [OF assms(1)] by (auto simp: canonical_magnitude is_zero_iff)
  have v: "bigint_val base ^ nat (bigint_val exponent) = (if sign base \<and> e0 AND 1 = 0 then - bigint_val base else bigint_val base)"
    unfolding minus_one_power [OF b(1)] ev b(3) using b(1) by auto
  show ?thesis unfolding v using assms(1,3-5) b(2) UnaryMinus_spec [OF assms(1), of junk] e
    by (auto simp: BigInt_Exponentiate_def digit_def rd_def intro!: outcome_value)
qed

lemma BigInt_Exponentiate_general:
  assumes "canonical base" and "digits exponent = [e]" and "\<not> sign exponent" and "e \<noteq> 0" and "unat e < kMaxLengthBits"
    and "\<not> is_zero base" and "\<not> is_one base" and "digits base \<noteq> [2] \<or> e = 1" and "\<bar>bigint_val base ^ unat e\<bar> < int (digit_base ^ 192)"
  shows "outcome p (BigInt_Exponentiate adv junk p base exponent) None (bigint_val base ^ unat e)"
proof (cases "e = 1")
  case True
  then show ?thesis using assms(1-3,6,7) by (auto simp: BigInt_Exponentiate_def is_zero_def digit_def rd_def intro!: outcome_value)
next
  case False
  let ?n = "unat e" and ?r = "if odd (unat e) then Some base else None"
  obtain b0 bs where b: "digits base = b0 # bs" using assms(6) by (cases "digits base") (auto simp: is_zero_def)
  have "unat e \<noteq> 0" "unat e \<noteq> 1" using assms(4) False word_unat_eq_iff [of e 1] by (auto simp: unat_eq_0)
  then have half: "?n div 2 \<noteq> 0" by linarith
  have "BigInt_Exponentiate adv junk p base exponent = Exponentiate_loop adv junk p (?n div 2) ?r base"
    using assms(2-8) False b by (auto simp: BigInt_Exponentiate_def is_zero_def digit_def rd_def Let_def)
  moreover have v: "partial_power ?r * bigint_val base ^ (2 * (?n div 2)) = bigint_val base ^ ?n"
    by (cases "odd ?n") (auto simp: partial_power_def odd_two_times_div_two_nat simp flip: power_Suc)
  moreover have "outcome p (Exponentiate_loop adv junk p (?n div 2) ?r base) None (partial_power ?r * bigint_val base ^ (2 * (?n div 2)))"
    by (rule Exponentiate_loop_outcome [OF assms(1)])
      (use assms(1,6,9) half v canonical_zero [OF assms(1)] in \<open>simp_all split: if_splits\<close>)
  ultimately show ?thesis by simp
qed

lemma two_digits: "canonical x \<Longrightarrow> \<bar>bigint_val x\<bar> = 2 \<Longrightarrow> digits x = [2]"
  using normalized_inj [of "digits x" "[2]"] by (simp add: canonical_def IsDigitNormalized_def canonical_magnitude)

lemma BigInt_Exponentiate_large:
  assumes "canonical base" and "canonical exponent" and "exponentiable base exponent"
    and "\<not> sign exponent" and "\<not> is_zero exponent" and "\<not> is_zero base" and "\<not> is_one base"
  shows "outcome p (BigInt_Exponentiate adv junk p base exponent) (Exponentiate_fails base exponent)
    (bigint_val base ^ nat (bigint_val exponent))"
proof -
  let ?b = "bigint_val base" and ?e = "bigint_val exponent"
  have e0: "0 \<le> ?e" using canonical_sign [OF assms(2)] assms(4) by simp
  have b1: "1 < \<bar>?b\<bar>" using assms(1,6,7) canonical_pos [OF assms(1,6)] by (simp add: is_one_iff canonical_magnitude)
  show ?thesis
  proof (cases "1 < length (digits exponent)")
    case True
    then have "Exponentiate_fails base exponent = Some kBigIntTooBig"
      using canonical_long [OF assms(2)] e0 b1 by (simp add: Exponentiate_fails_def)
    then show ?thesis using True assms(4-7) by (simp add: BigInt_Exponentiate_def outcome_error)
  next
    case False
    then have "length (digits exponent) \<le> 1" by simp
    then obtain e where e: "digits exponent = [e]" "e \<noteq> 0" "nat ?e = unat e"
      by (rule canonical_single [OF assms(2) _ assms(5,4)])
    have ve: "?e = int (unat e)" using e0 e(3) by linarith
    show ?thesis
    proof (cases "kMaxLengthBits \<le> unat e")
      case True
      then have "e \<noteq> 1" by (auto simp: kMaxLengthBits_def)
      moreover have "Exponentiate_fails base exponent = Some kBigIntTooBig" unfolding Exponentiate_fails_def ve using b1 True by (simp only: of_nat_le_iff) simp
      ultimately show ?thesis using True e(1) assms(4-7) by (simp add: BigInt_Exponentiate_def digit_def rd_def outcome_error)
    next
      case small: False
      then have ok: "Exponentiate_fails base exponent = None" unfolding Exponentiate_fails_def ve by (simp only: of_nat_le_iff) simp
      show ?thesis
      proof (cases "digits base = [2] \<and> e \<noteq> 1")
        case True
        then show ?thesis using BigInt_Exponentiate_two [OF _ e(1) assms(4) e(2)] small by (simp add: ok e(3))
      next
        case False
        have "\<bar>?b ^ unat e\<bar> < int (digit_base ^ 192)"
        proof (cases "\<bar>?b\<bar> = 2")
          case True
          then have "e = 1" using False two_digits [OF assms(1)] by auto
          then show ?thesis using True by (simp add: digit_base_def)
        next
          case False
          with b1 have "\<not> \<bar>?b\<bar> \<le> 2" by linarith
          with assms(3) small show ?thesis unfolding exponentiable_def e(3) ve of_nat_le_iff nat_int by blast
        qed
        then show ?thesis using BigInt_Exponentiate_general [OF assms(1) e(1) assms(4) e(2) _ assms(6,7)] False small by (auto simp: ok e(3))
      qed
    qed
  qed
qed

lemma BigInt_Exponentiate_outcome:
  assumes "canonical base" and "canonical exponent" and "exponentiable base exponent"
  shows "outcome p (BigInt_Exponentiate adv junk p base exponent) (Exponentiate_fails base exponent)
    (bigint_val base ^ nat (bigint_val exponent))"
proof -
  let ?b = "bigint_val base" and ?e = "bigint_val exponent"
  have big: "\<not> sign base \<or> sign base" "(1::int) < int kMaxLengthBits" by (simp_all add: kMaxLengthBits_def)
  consider "sign exponent" | "is_zero exponent" | "\<not> sign exponent" "\<not> is_zero exponent" "is_zero base"
    | "\<not> sign exponent" "\<not> is_zero exponent" "is_one base"
    | "\<not> sign exponent" "\<not> is_zero exponent" "\<not> is_zero base" "\<not> is_one base" by blast
  then show ?thesis
  proof cases
    case 1
    then show ?thesis using canonical_sign [OF assms(2)] by (simp add: BigInt_Exponentiate_def Exponentiate_fails_def outcome_error)
  next
    case 2
    then have "?e = 0" "\<not> sign exponent" using canonical_zero [OF assms(2)] canonical_sign [OF assms(2)] by auto
    then show ?thesis using 2 big NewFromInt_spec [of 1 junk]
      by (auto simp: BigInt_Exponentiate_def Exponentiate_fails_def intro!: outcome_value)
  next
    case 3
    then have "?b = 0" "0 < ?e" using canonical_zero assms(1,2) canonical_sign [OF assms(2)] by force+
    then show ?thesis using 3 assms(1) by (auto simp: BigInt_Exponentiate_def Exponentiate_fails_def intro!: outcome_value)
  next
    case 4
    then have "Exponentiate_fails base exponent = None"
      using canonical_sign [OF assms(2)] is_one_iff [OF assms(1)] by (auto simp: Exponentiate_fails_def canonical_magnitude)
    then show ?thesis using BigInt_Exponentiate_one [OF assms(1,2) 4] by simp
  next
    case 5
    show ?thesis by (rule BigInt_Exponentiate_large) (use assms 5 in simp_all)
  qed
qed

section \<open>Properties\<close>

text \<open>
  C4.  Below the Toom-Cook threshold the product of two BigInts is the BigInt of the product of their
  values; operands whose lengths add up to more than the maximum are refused, and the only other way to end without a result
  is the termination error of a processor that was interrupted.
\<close>
theorem BigInt_Multiply_correct:
  assumes "canonical x" and "canonical y" and "multipliable x y"
  shows "outcome p (BigInt_Multiply adv junk p x y) (Multiply_fails x y) (bigint_val x * bigint_val y)"
  using assms by (rule BigInt_Multiply_outcome)

lemma single_digit_canonical: "d \<noteq> 0 \<Longrightarrow> canonical \<lparr>sign = s, digits = [d]\<rparr>"
  by (simp add: canonical_def IsDigitNormalized_def kMaxLength_def kMaxLengthBits_def)

theorem BigInt_Multiply_correct_witness:
  "outcome (ProcessorImpl_new (\<lambda>_. True))
     (BigInt_Multiply below_thresholds (\<lambda>_. 7) (ProcessorImpl_new (\<lambda>_. True)) \<lparr>sign = True, digits = [6]\<rparr> \<lparr>sign = False, digits = [7]\<rparr>)
     None (- 42)"
proof -
  have "Multiply_fails \<lparr>sign = True, digits = [6]\<rparr> \<lparr>sign = False, digits = [7]\<rparr> = None"
    by (simp add: Multiply_fails_def kMaxLength_def kMaxLengthBits_def)
  then show ?thesis
    using BigInt_Multiply_correct [of "\<lparr>sign = True, digits = [6]\<rparr>" "\<lparr>sign = False, digits = [7]\<rparr>"
        "ProcessorImpl_new (\<lambda>_. True)" below_thresholds "\<lambda>_. 7"]
    by (simp add: single_digit_canonical multipliable_def kToomThreshold_def bigint_val_def sval_def)
qed







end
