(* ===== verification/BigInt_Builtins.thy ===== *)
theory BigInt_Builtins
  imports BigInt_Bits BigInt_Arith
begin

text \<open>
  The BigInt builtins of \<open>builtins/builtins-bigint.tq\<close> and the C++ entry points at the end of \<open>objects/bigint.cc\<close> that
  they call.  A macro either returns, or leaves through one of its labels, or throws; the three are a value of a sum
  type.  The outer \<open>None\<close> is a failed \<open>dcheck\<close>, an \<open>unreachable\<close> that is reached or an access outside of an object.

  The result object of an entry point is allocated by the caller with arbitrary digits and differs from the operands;
  it is passed in and its new state is returned.
\<close>

section \<open>C++ entry points\<close>

definition MutableBigInt_AbsoluteAddAndCanonicalize :: "BigIntBase \<Rightarrow> BigIntBase \<Rightarrow> BigIntBase \<Rightarrow> BigIntBase option" where
  "MutableBigInt_AbsoluteAddAndCanonicalize result x y = do {
     Z \<leftarrow> Add (digits result) (digits x) (digits y);
     Some (Canonicalize (result\<lparr>digits := Z\<rparr>)) }"

definition MutableBigInt_AbsoluteCompare :: "BigIntBase \<Rightarrow> BigIntBase \<Rightarrow> int" where
  "MutableBigInt_AbsoluteCompare x y = Compare (digits x) (digits y)"

definition MutableBigInt_AbsoluteSubAndCanonicalize :: "BigIntBase \<Rightarrow> BigIntBase \<Rightarrow> BigIntBase \<Rightarrow> BigIntBase option" where
  "MutableBigInt_AbsoluteSubAndCanonicalize result x y = do {
     Z \<leftarrow> Subtract (digits result) (digits x) (digits y);
     Some (Canonicalize (result\<lparr>digits := Z\<rparr>)) }"

definition MutableBigInt_AbsoluteMulAndCanonicalize ::
    "advanced \<Rightarrow> memory \<Rightarrow> ProcessorImpl \<Rightarrow> BigIntBase \<Rightarrow> BigIntBase \<Rightarrow> BigIntBase \<Rightarrow> (int \<times> ProcessorImpl \<times> BigIntBase) option" where
  "MutableBigInt_AbsoluteMulAndCanonicalize adv junk p result x y = do {
     (s, p, Z) \<leftarrow> Processor_Multiply adv junk p (digits result) (digits x) (digits y);
     let result = result\<lparr>digits := Z\<rparr>;
     if s = kInterrupted then Some (1, p, result)
     else Some (0, p, Canonicalize result) }"

definition MutableBigInt_AbsoluteDivAndCanonicalize ::
    "advanced \<Rightarrow> memory \<Rightarrow> ProcessorImpl \<Rightarrow> BigIntBase \<Rightarrow> BigIntBase \<Rightarrow> BigIntBase \<Rightarrow> (int \<times> ProcessorImpl \<times> BigIntBase) option" where
  "MutableBigInt_AbsoluteDivAndCanonicalize adv junk p result x y =
     (if length (digits result) < DivideResultLength (digits x) (digits y) then None
      else do {
        (s, p, Q) \<leftarrow> Processor_Divide adv junk p (digits result) (digits x) (digits y);
        let result = result\<lparr>digits := Q\<rparr>;
        if s = kInterrupted then Some (1, p, result)
        else Some (0, p, Canonicalize result) })"

definition MutableBigInt_AbsoluteModAndCanonicalize ::
    "advanced \<Rightarrow> memory \<Rightarrow> ProcessorImpl \<Rightarrow> BigIntBase \<Rightarrow> BigIntBase \<Rightarrow> BigIntBase \<Rightarrow> (int \<times> ProcessorImpl \<times> BigIntBase) option" where
  "MutableBigInt_AbsoluteModAndCanonicalize adv junk p result x y = do {
     (s, p, R) \<leftarrow> Processor_Modulo adv junk p (digits result) (digits x) (digits y);
     let result = result\<lparr>digits := R\<rparr>;
     if s = kInterrupted then Some (1, p, result)
     else Some (0, p, Canonicalize result) }"

definition MutableBigInt_BitwiseAndPosPosAndCanonicalize :: "BigIntBase \<Rightarrow> BigIntBase \<Rightarrow> BigIntBase \<Rightarrow> BigIntBase option" where
  "MutableBigInt_BitwiseAndPosPosAndCanonicalize result x y = do {
     Z \<leftarrow> BitwiseAnd_PosPos (digits result) (digits x) (digits y);
     Some (Canonicalize (result\<lparr>digits := Z\<rparr>)) }"

definition MutableBigInt_BitwiseAndNegNegAndCanonicalize :: "BigIntBase \<Rightarrow> BigIntBase \<Rightarrow> BigIntBase \<Rightarrow> BigIntBase option" where
  "MutableBigInt_BitwiseAndNegNegAndCanonicalize result x y = do {
     Z \<leftarrow> BitwiseAnd_NegNeg (digits result) (digits x) (digits y);
     Some (Canonicalize (result\<lparr>digits := Z\<rparr>)) }"

definition MutableBigInt_BitwiseAndPosNegAndCanonicalize :: "BigIntBase \<Rightarrow> BigIntBase \<Rightarrow> BigIntBase \<Rightarrow> BigIntBase option" where
  "MutableBigInt_BitwiseAndPosNegAndCanonicalize result x y = do {
     Z \<leftarrow> BitwiseAnd_PosNeg (digits result) (digits x) (digits y);
     Some (Canonicalize (result\<lparr>digits := Z\<rparr>)) }"

definition MutableBigInt_BitwiseOrPosPosAndCanonicalize :: "BigIntBase \<Rightarrow> BigIntBase \<Rightarrow> BigIntBase \<Rightarrow> BigIntBase option" where
  "MutableBigInt_BitwiseOrPosPosAndCanonicalize result x y = do {
     Z \<leftarrow> BitwiseOr_PosPos (digits result) (digits x) (digits y);
     Some (Canonicalize (result\<lparr>digits := Z\<rparr>)) }"

definition MutableBigInt_BitwiseOrNegNegAndCanonicalize :: "BigIntBase \<Rightarrow> BigIntBase \<Rightarrow> BigIntBase \<Rightarrow> BigIntBase option" where
  "MutableBigInt_BitwiseOrNegNegAndCanonicalize result x y = do {
     Z \<leftarrow> BitwiseOr_NegNeg (digits result) (digits x) (digits y);
     Some (Canonicalize (result\<lparr>digits := Z\<rparr>)) }"

definition MutableBigInt_BitwiseOrPosNegAndCanonicalize :: "BigIntBase \<Rightarrow> BigIntBase \<Rightarrow> BigIntBase \<Rightarrow> BigIntBase option" where
  "MutableBigInt_BitwiseOrPosNegAndCanonicalize result x y = do {
     Z \<leftarrow> BitwiseOr_PosNeg (digits result) (digits x) (digits y);
     Some (Canonicalize (result\<lparr>digits := Z\<rparr>)) }"

definition MutableBigInt_BitwiseXorPosPosAndCanonicalize :: "BigIntBase \<Rightarrow> BigIntBase \<Rightarrow> BigIntBase \<Rightarrow> BigIntBase option" where
  "MutableBigInt_BitwiseXorPosPosAndCanonicalize result x y = do {
     Z \<leftarrow> BitwiseXor_PosPos (digits result) (digits x) (digits y);
     Some (Canonicalize (result\<lparr>digits := Z\<rparr>)) }"

definition MutableBigInt_BitwiseXorNegNegAndCanonicalize :: "BigIntBase \<Rightarrow> BigIntBase \<Rightarrow> BigIntBase \<Rightarrow> BigIntBase option" where
  "MutableBigInt_BitwiseXorNegNegAndCanonicalize result x y = do {
     Z \<leftarrow> BitwiseXor_NegNeg (digits result) (digits x) (digits y);
     Some (Canonicalize (result\<lparr>digits := Z\<rparr>)) }"

definition MutableBigInt_BitwiseXorPosNegAndCanonicalize :: "BigIntBase \<Rightarrow> BigIntBase \<Rightarrow> BigIntBase \<Rightarrow> BigIntBase option" where
  "MutableBigInt_BitwiseXorPosNegAndCanonicalize result x y = do {
     Z \<leftarrow> BitwiseXor_PosNeg (digits result) (digits x) (digits y);
     Some (Canonicalize (result\<lparr>digits := Z\<rparr>)) }"

definition MutableBigInt_LeftShiftAndCanonicalize :: "BigIntBase \<Rightarrow> BigIntBase \<Rightarrow> digit_t \<Rightarrow> BigIntBase option" where
  "MutableBigInt_LeftShiftAndCanonicalize result x shift = do {
     Z \<leftarrow> LeftShift (digits result) (digits x) shift;
     Some (Canonicalize (result\<lparr>digits := Z\<rparr>)) }"

definition kLengthFieldBits :: nat where
  "kLengthFieldBits = 30"

definition RightShiftResultLength :: "BigIntBase \<Rightarrow> 32 word \<Rightarrow> digit_t \<Rightarrow> 32 word option" where
  "RightShiftResultLength x x_sign shift = do {
     (len, state) \<leftarrow> RightShift_ResultLength (digits x) (x_sign \<noteq> 0) shift \<lparr>must_round_down = False\<rparr>;
     if drop_bit kLengthFieldBits len \<noteq> 0 then None
     else Some (push_bit kLengthFieldBits (if must_round_down state then 1 else 0) OR word_of_int len) }"

definition MutableBigInt_RightShiftAndCanonicalize :: "BigIntBase \<Rightarrow> BigIntBase \<Rightarrow> digit_t \<Rightarrow> 32 word \<Rightarrow> BigIntBase option" where
  "MutableBigInt_RightShiftAndCanonicalize result x shift round = do {
     Z \<leftarrow> RightShift (digits result) (digits x) shift \<lparr>must_round_down = (round = 1)\<rparr>;
     Some (Canonicalize (result\<lparr>digits := Z\<rparr>)) }"

section \<open>Macros on objects\<close>

datatype Numeric = NSmi int | NHeapNumber "64 word" | NBigInt BigIntBase

datatype TorqueExit = BigIntTooBig | BigIntDivZero | TerminationRequested | Throw BigIntError

type_synonym MacroResult = "(TorqueExit + BigIntBase) option"

definition kPositiveSign :: "32 word" where
  "kPositiveSign = 0"

definition kNegativeSign :: "32 word" where
  "kNegativeSign = 1"

definition kMustRoundDownBitShift :: nat where
  "kMustRoundDownBitShift = 30"

definition ReadBigIntSign :: "BigIntBase \<Rightarrow> 32 word" where
  "ReadBigIntSign x = (if sign x then 1 else 0)"

definition ReadBigIntLength :: "BigIntBase \<Rightarrow> nat" where
  "ReadBigIntLength x = length (digits x)"

definition WriteBigIntSign :: "BigIntBase \<Rightarrow> 32 word \<Rightarrow> BigIntBase" where
  "WriteBigIntSign x s = x\<lparr>sign := (s AND 1 \<noteq> 0)\<rparr>"

definition IsCanonicalized :: "BigIntBase \<Rightarrow> bool option" where
  "IsCanonicalized bigint =
     (let len = ReadBigIntLength bigint
      in if len = 0 then Some (ReadBigIntSign bigint = kPositiveSign)
         else do { d \<leftarrow> digit bigint (len - 1); Some (d \<noteq> 0) })"

definition Convert_BigInt :: "BigIntBase \<Rightarrow> MacroResult" where
  "Convert_BigInt i = do { c \<leftarrow> IsCanonicalized i; if c then Some (Inr i) else None }"

definition InvertSign :: "32 word \<Rightarrow> 32 word" where
  "InvertSign s = (if s = kPositiveSign then kNegativeSign else kPositiveSign)"

definition AllocateEmptyBigIntNoThrow :: "memory \<Rightarrow> 32 word \<Rightarrow> nat \<Rightarrow> TorqueExit + BigIntBase" where
  "AllocateEmptyBigIntNoThrow junk s len =
     (if len > kMaxLength then Inl BigIntTooBig
      else Inr (WriteBigIntSign \<lparr>sign = False, digits = map junk [0..<len]\<rparr> s))"

definition AllocateEmptyBigInt :: "memory \<Rightarrow> 32 word \<Rightarrow> nat \<Rightarrow> TorqueExit + BigIntBase" where
  "AllocateEmptyBigInt junk s len =
     (case AllocateEmptyBigIntNoThrow junk s len of
        Inl BigIntTooBig \<Rightarrow> Inl (Throw kBigIntTooBig)
      | r \<Rightarrow> r)"

definition otherwise_unreachable :: "TorqueExit + BigIntBase \<Rightarrow> BigIntBase option" where
  "otherwise_unreachable m = (case m of Inl _ \<Rightarrow> None | Inr r \<Rightarrow> Some r)"

definition BigIntUnaryMinus :: "memory \<Rightarrow> BigIntBase \<Rightarrow> MacroResult" where
  "BigIntUnaryMinus junk bigint =
     (let len = ReadBigIntLength bigint
      in if len = 0 then Some (Inr bigint)
         else (case AllocateEmptyBigInt junk (InvertSign (ReadBigIntSign bigint)) len of
                 Inl e \<Rightarrow> Some (Inl e)
               | Inr result \<Rightarrow> do {
                   result \<leftarrow> for_up 0 len (\<lambda>i result. do { d \<leftarrow> digit bigint i; set_digit i d result }) result;
                   Convert_BigInt result }))"

definition MutableBigIntAbsoluteSub :: "memory \<Rightarrow> BigIntBase \<Rightarrow> BigIntBase \<Rightarrow> 32 word \<Rightarrow> MacroResult" where
  "MutableBigIntAbsoluteSub junk x y resultSign =
     (let xlength = ReadBigIntLength x; ylength = ReadBigIntLength y; xsign = ReadBigIntSign x
      in if MutableBigInt_AbsoluteCompare x y < 0 then None
         else if xlength = 0 then (if ylength = 0 then Some (Inr x) else None)
         else if ylength = 0 then (if resultSign = xsign then Some (Inr x) else BigIntUnaryMinus junk x)
         else (case AllocateEmptyBigInt junk resultSign xlength of
                 Inl e \<Rightarrow> Some (Inl e)
               | Inr result \<Rightarrow> do {
                   result \<leftarrow> MutableBigInt_AbsoluteSubAndCanonicalize result x y;
                   Convert_BigInt result }))"

definition MutableBigIntAbsoluteAdd :: "memory \<Rightarrow> BigIntBase \<Rightarrow> BigIntBase \<Rightarrow> 32 word \<Rightarrow> MacroResult" where
  "MutableBigIntAbsoluteAdd junk xBigint yBigint resultSign =
     (let (x, y, xlength, ylength) =
            (if ReadBigIntLength xBigint < ReadBigIntLength yBigint
             then (yBigint, xBigint, ReadBigIntLength yBigint, ReadBigIntLength xBigint)
             else (xBigint, yBigint, ReadBigIntLength xBigint, ReadBigIntLength yBigint))
      in if xlength = 0 then (if ylength = 0 then Some (Inr x) else None)
         else if ylength = 0 then (if resultSign = ReadBigIntSign x then Some (Inr x) else BigIntUnaryMinus junk x)
         else (case AllocateEmptyBigIntNoThrow junk resultSign (xlength + 1) of
                 Inl e \<Rightarrow> Some (Inl e)
               | Inr result \<Rightarrow> do {
                   result \<leftarrow> MutableBigInt_AbsoluteAddAndCanonicalize result x y;
                   Convert_BigInt result }))"

section \<open>Arithmetic macros\<close>

definition BigIntAddImpl :: "memory \<Rightarrow> BigIntBase \<Rightarrow> BigIntBase \<Rightarrow> MacroResult" where
  "BigIntAddImpl junk x y =
     (let xsign = ReadBigIntSign x; ysign = ReadBigIntSign y
      in if xsign = ysign then MutableBigIntAbsoluteAdd junk x y xsign
         else if MutableBigInt_AbsoluteCompare x y \<ge> 0 then MutableBigIntAbsoluteSub junk x y xsign
         else MutableBigIntAbsoluteSub junk y x (InvertSign xsign))"

definition BigIntSubtractImpl :: "memory \<Rightarrow> BigIntBase \<Rightarrow> BigIntBase \<Rightarrow> MacroResult" where
  "BigIntSubtractImpl junk x y =
     (let xsign = ReadBigIntSign x; ysign = ReadBigIntSign y
      in if xsign \<noteq> ysign then MutableBigIntAbsoluteAdd junk x y xsign
         else if MutableBigInt_AbsoluteCompare x y \<ge> 0 then MutableBigIntAbsoluteSub junk x y xsign
         else MutableBigIntAbsoluteSub junk y x (InvertSign xsign))"

definition BigIntMultiplyImpl :: "advanced \<Rightarrow> memory \<Rightarrow> ProcessorImpl \<Rightarrow> BigIntBase \<Rightarrow> BigIntBase \<Rightarrow>
    (ProcessorImpl \<times> (TorqueExit + BigIntBase)) option" where
  "BigIntMultiplyImpl adv junk p x y =
     (let xlength = ReadBigIntLength x; ylength = ReadBigIntLength y
      in if xlength = 0 then Some (p, Inr x)
         else if ylength = 0 then Some (p, Inr y)
         else (let resultSign = (if ReadBigIntSign x \<noteq> ReadBigIntSign y then kNegativeSign else kPositiveSign)
               in case AllocateEmptyBigIntNoThrow junk resultSign (xlength + ylength) of
                    Inl e \<Rightarrow> Some (p, Inl e)
                  | Inr result \<Rightarrow> do {
                      (r, p, result) \<leftarrow> MutableBigInt_AbsoluteMulAndCanonicalize adv junk p result x y;
                      if r = 1 then Some (p, Inl TerminationRequested)
                      else do { z \<leftarrow> Convert_BigInt result; Some (p, z) } }))"

definition BigIntDivideImpl :: "advanced \<Rightarrow> memory \<Rightarrow> ProcessorImpl \<Rightarrow> BigIntBase \<Rightarrow> BigIntBase \<Rightarrow>
    (ProcessorImpl \<times> (TorqueExit + BigIntBase)) option" where
  "BigIntDivideImpl adv junk p x y =
     (let xlength = ReadBigIntLength x; ylength = ReadBigIntLength y
      in if ylength = 0 then Some (p, Inl BigIntDivZero)
         else if MutableBigInt_AbsoluteCompare x y < 0 then
           (case AllocateEmptyBigInt junk kPositiveSign 0 of
              Inl e \<Rightarrow> Some (p, Inl e)
            | Inr zero \<Rightarrow> do { z \<leftarrow> Convert_BigInt zero; Some (p, z) })
         else (let xsign = ReadBigIntSign x; ysign = ReadBigIntSign y;
                   resultSign = (if xsign \<noteq> ysign then kNegativeSign else kPositiveSign)
               in if ylength = 1 \<and> digit y 0 = Some 1 then
                    (if resultSign = xsign then Some (p, Inr x) else do { z \<leftarrow> BigIntUnaryMinus junk x; Some (p, z) })
                  else (let resultLength = xlength - ylength + 1;
                            resultLength = (if ylength > 10 then resultLength + 1 else resultLength)
                        in do {
                          result \<leftarrow> otherwise_unreachable (AllocateEmptyBigIntNoThrow junk resultSign resultLength);
                          (r, p, result) \<leftarrow> MutableBigInt_AbsoluteDivAndCanonicalize adv junk p result x y;
                          if r = 1 then Some (p, Inl TerminationRequested)
                          else do { z \<leftarrow> Convert_BigInt result; Some (p, z) } })))"

definition BigIntModulusImpl :: "advanced \<Rightarrow> memory \<Rightarrow> ProcessorImpl \<Rightarrow> BigIntBase \<Rightarrow> BigIntBase \<Rightarrow>
    (ProcessorImpl \<times> (TorqueExit + BigIntBase)) option" where
  "BigIntModulusImpl adv junk p x y =
     (let ylength = ReadBigIntLength y
      in if ylength = 0 then Some (p, Inl BigIntDivZero)
         else if MutableBigInt_AbsoluteCompare x y < 0 then Some (p, Inr x)
         else if ylength = 1 \<and> digit y 0 = Some 1 then
           (case AllocateEmptyBigInt junk kPositiveSign 0 of
              Inl e \<Rightarrow> Some (p, Inl e)
            | Inr zero \<Rightarrow> do { z \<leftarrow> Convert_BigInt zero; Some (p, z) })
         else (let resultSign = ReadBigIntSign x; resultLength = ylength
               in do {
                 result \<leftarrow> otherwise_unreachable (AllocateEmptyBigIntNoThrow junk resultSign resultLength);
                 (r, p, result) \<leftarrow> MutableBigInt_AbsoluteModAndCanonicalize adv junk p result x y;
                 if r = 1 then Some (p, Inl TerminationRequested)
                 else do { z \<leftarrow> Convert_BigInt result; Some (p, z) } }))"

section \<open>Bitwise macros\<close>

definition BigIntBitwiseAndImpl :: "memory \<Rightarrow> BigIntBase \<Rightarrow> BigIntBase \<Rightarrow> MacroResult" where
  "BigIntBitwiseAndImpl junk x y =
     (let xlength = ReadBigIntLength x; ylength = ReadBigIntLength y
      in if xlength = 0 then Some (Inr x)
         else if ylength = 0 then Some (Inr y)
         else (let xsign = ReadBigIntSign x; ysign = ReadBigIntSign y
               in if xsign = kPositiveSign \<and> ysign = kPositiveSign then do {
                    let resultLength = (if xlength < ylength then xlength else ylength);
                    result \<leftarrow> otherwise_unreachable (AllocateEmptyBigIntNoThrow junk kPositiveSign resultLength);
                    result \<leftarrow> MutableBigInt_BitwiseAndPosPosAndCanonicalize result x y;
                    Convert_BigInt result }
                  else if xsign = kNegativeSign \<and> ysign = kNegativeSign then
                    (let resultLength = (if xlength > ylength then xlength else ylength) + 1
                     in case AllocateEmptyBigIntNoThrow junk kNegativeSign resultLength of
                          Inl e \<Rightarrow> Some (Inl e)
                        | Inr result \<Rightarrow> do {
                            result \<leftarrow> MutableBigInt_BitwiseAndNegNegAndCanonicalize result x y;
                            Convert_BigInt result })
                  else if xsign = kPositiveSign \<and> ysign = kNegativeSign then do {
                    result \<leftarrow> otherwise_unreachable (AllocateEmptyBigIntNoThrow junk kPositiveSign xlength);
                    result \<leftarrow> MutableBigInt_BitwiseAndPosNegAndCanonicalize result x y;
                    Convert_BigInt result }
                  else do {
                    result \<leftarrow> otherwise_unreachable (AllocateEmptyBigIntNoThrow junk kPositiveSign ylength);
                    result \<leftarrow> MutableBigInt_BitwiseAndPosNegAndCanonicalize result y x;
                    Convert_BigInt result }))"

definition BigIntBitwiseOrImpl :: "memory \<Rightarrow> BigIntBase \<Rightarrow> BigIntBase \<Rightarrow> MacroResult" where
  "BigIntBitwiseOrImpl junk x y =
     (let xlength = ReadBigIntLength x; ylength = ReadBigIntLength y
      in if xlength = 0 then Some (Inr y)
         else if ylength = 0 then Some (Inr x)
         else (let xsign = ReadBigIntSign x; ysign = ReadBigIntSign y;
                   resultLength = (if xlength > ylength then xlength else ylength)
               in if xsign = kPositiveSign \<and> ysign = kPositiveSign then do {
                    result \<leftarrow> otherwise_unreachable (AllocateEmptyBigIntNoThrow junk kPositiveSign resultLength);
                    result \<leftarrow> MutableBigInt_BitwiseOrPosPosAndCanonicalize result x y;
                    Convert_BigInt result }
                  else if xsign = kNegativeSign \<and> ysign = kNegativeSign then do {
                    result \<leftarrow> otherwise_unreachable (AllocateEmptyBigIntNoThrow junk kNegativeSign resultLength);
                    result \<leftarrow> MutableBigInt_BitwiseOrNegNegAndCanonicalize result x y;
                    Convert_BigInt result }
                  else if xsign = kPositiveSign \<and> ysign = kNegativeSign then do {
                    result \<leftarrow> otherwise_unreachable (AllocateEmptyBigIntNoThrow junk kNegativeSign resultLength);
                    result \<leftarrow> MutableBigInt_BitwiseOrPosNegAndCanonicalize result x y;
                    Convert_BigInt result }
                  else do {
                    result \<leftarrow> otherwise_unreachable (AllocateEmptyBigIntNoThrow junk kNegativeSign resultLength);
                    result \<leftarrow> MutableBigInt_BitwiseOrPosNegAndCanonicalize result y x;
                    Convert_BigInt result }))"

definition BigIntBitwiseXorImpl :: "memory \<Rightarrow> BigIntBase \<Rightarrow> BigIntBase \<Rightarrow> MacroResult" where
  "BigIntBitwiseXorImpl junk x y =
     (let xlength = ReadBigIntLength x; ylength = ReadBigIntLength y
      in if xlength = 0 then Some (Inr y)
         else if ylength = 0 then Some (Inr x)
         else (let xsign = ReadBigIntSign x; ysign = ReadBigIntSign y
               in if xsign = kPositiveSign \<and> ysign = kPositiveSign then do {
                    let resultLength = (if xlength > ylength then xlength else ylength);
                    result \<leftarrow> otherwise_unreachable (AllocateEmptyBigIntNoThrow junk kPositiveSign resultLength);
                    result \<leftarrow> MutableBigInt_BitwiseXorPosPosAndCanonicalize result x y;
                    Convert_BigInt result }
                  else if xsign = kNegativeSign \<and> ysign = kNegativeSign then do {
                    let resultLength = (if xlength > ylength then xlength else ylength);
                    result \<leftarrow> otherwise_unreachable (AllocateEmptyBigIntNoThrow junk kPositiveSign resultLength);
                    result \<leftarrow> MutableBigInt_BitwiseXorNegNegAndCanonicalize result x y;
                    Convert_BigInt result }
                  else if xsign = kPositiveSign \<and> ysign = kNegativeSign then
                    (let resultLength = (if xlength > ylength then xlength else ylength) + 1
                     in case AllocateEmptyBigIntNoThrow junk kNegativeSign resultLength of
                          Inl e \<Rightarrow> Some (Inl e)
                        | Inr result \<Rightarrow> do {
                            result \<leftarrow> MutableBigInt_BitwiseXorPosNegAndCanonicalize result x y;
                            Convert_BigInt result })
                  else
                    (let resultLength = (if xlength > ylength then xlength else ylength) + 1
                     in case AllocateEmptyBigIntNoThrow junk kNegativeSign resultLength of
                          Inl e \<Rightarrow> Some (Inl e)
                        | Inr result \<Rightarrow> do {
                            result \<leftarrow> MutableBigInt_BitwiseXorPosNegAndCanonicalize result y x;
                            Convert_BigInt result })))"

section \<open>Shift macros\<close>

definition MutableBigIntLeftShiftByAbsolute :: "memory \<Rightarrow> BigIntBase \<Rightarrow> BigIntBase \<Rightarrow> MacroResult" where
  "MutableBigIntLeftShiftByAbsolute junk x y =
     (let xlength = ReadBigIntLength x; ylength = ReadBigIntLength y
      in if xlength = 0 then Some (Inr x)
         else if ylength = 0 then Some (Inr x)
         else if ylength > 1 then Some (Inl BigIntTooBig)
         else do {
           shiftAbs \<leftarrow> digit y 0;
           if shiftAbs > of_nat kMaxLengthBits then Some (Inl BigIntTooBig)
           else do {
             let shift = shiftAbs;
             let resultLength = xlength + unat (shift div 64);
             let bitsShift = unat (shift mod 64);
             xmsd \<leftarrow> digit x (xlength - 1);
             let resultLength = (if bitsShift \<noteq> 0 \<and> drop_bit (kDigitBits - bitsShift) xmsd \<noteq> 0 then resultLength + 1 else resultLength);
             case AllocateEmptyBigIntNoThrow junk (ReadBigIntSign x) resultLength of
               Inl e \<Rightarrow> Some (Inl e)
             | Inr result \<Rightarrow> do {
                 result \<leftarrow> MutableBigInt_LeftShiftAndCanonicalize result x shift;
                 Convert_BigInt result } } })"

definition RightShiftByMaximum_macro :: "memory \<Rightarrow> 32 word \<Rightarrow> MacroResult" where
  "RightShiftByMaximum_macro junk s =
     (if s = kNegativeSign then
        (case AllocateEmptyBigInt junk kNegativeSign 1 of
           Inl e \<Rightarrow> Some (Inl e)
         | Inr minusOne \<Rightarrow> do { minusOne \<leftarrow> set_digit 0 1 minusOne; Convert_BigInt minusOne })
      else (case AllocateEmptyBigInt junk kPositiveSign 0 of Inl e \<Rightarrow> Some (Inl e) | Inr zero \<Rightarrow> Convert_BigInt zero))"

definition MutableBigIntRightShiftByAbsolute :: "memory \<Rightarrow> BigIntBase \<Rightarrow> BigIntBase \<Rightarrow> MacroResult" where
  "MutableBigIntRightShiftByAbsolute junk x y =
     (let xlength = ReadBigIntLength x; ylength = ReadBigIntLength y
      in if xlength = 0 then Some (Inr x)
         else if ylength = 0 then Some (Inr x)
         else (let s = ReadBigIntSign x
               in if ylength > 1 then RightShiftByMaximum_macro junk s
                  else do {
                    shiftAbs \<leftarrow> digit y 0;
                    if shiftAbs > of_nat kMaxLengthBits then RightShiftByMaximum_macro junk s
                    else do {
                      let shift = shiftAbs;
                      returnVal \<leftarrow> RightShiftResultLength x s shift;
                      let mustRoundDown = drop_bit kMustRoundDownBitShift returnVal;
                      let lengthMask = push_bit kMustRoundDownBitShift 1 - 1;
                      let resultLength = unat (returnVal AND lengthMask);
                      if resultLength = 0 then RightShiftByMaximum_macro junk s
                      else do {
                        result \<leftarrow> otherwise_unreachable (AllocateEmptyBigIntNoThrow junk s resultLength);
                        result \<leftarrow> MutableBigInt_RightShiftAndCanonicalize result x shift mustRoundDown;
                        Convert_BigInt result } } }))"

definition BigIntShiftLeftImpl :: "memory \<Rightarrow> BigIntBase \<Rightarrow> BigIntBase \<Rightarrow> MacroResult" where
  "BigIntShiftLeftImpl junk x y =
     (if ReadBigIntSign y = kNegativeSign then MutableBigIntRightShiftByAbsolute junk x y
      else MutableBigIntLeftShiftByAbsolute junk x y)"

definition BigIntShiftRightImpl :: "memory \<Rightarrow> BigIntBase \<Rightarrow> BigIntBase \<Rightarrow> MacroResult" where
  "BigIntShiftRightImpl junk x y =
     (if ReadBigIntSign y = kNegativeSign then MutableBigIntLeftShiftByAbsolute junk x y
      else MutableBigIntRightShiftByAbsolute junk x y)"

section \<open>Builtins\<close>

fun throw_label :: "TorqueExit \<Rightarrow> BigIntError" where
  "throw_label BigIntTooBig = kBigIntTooBig"
| "throw_label BigIntDivZero = kBigIntDivZero"
| "throw_label TerminationRequested = kTerminated"
| "throw_label (Throw e) = e"

fun sentinel :: "TorqueExit \<Rightarrow> BigIntError + Numeric" where
  "sentinel BigIntTooBig = Inr (NSmi 0)"
| "sentinel BigIntDivZero = Inr (NSmi 0)"
| "sentinel TerminationRequested = Inr (NSmi 1)"
| "sentinel (Throw e) = Inl e"

definition throws_of :: "TorqueExit + BigIntBase \<Rightarrow> BigIntError + BigIntBase" where
  "throws_of r = (case r of Inl l \<Rightarrow> Inl (throw_label l) | Inr z \<Rightarrow> Inr z)"

definition sentinel_of :: "TorqueExit + BigIntBase \<Rightarrow> BigIntError + Numeric" where
  "sentinel_of r = (case r of Inl l \<Rightarrow> sentinel l | Inr z \<Rightarrow> Inr (NBigInt z))"

fun Cast_BigInt :: "Numeric \<Rightarrow> BigIntBase option" where
  "Cast_BigInt (NBigInt x) = Some x"
| "Cast_BigInt _ = None"

definition with_operands :: "Numeric \<Rightarrow> Numeric \<Rightarrow> 'r \<Rightarrow> (BigIntBase \<Rightarrow> BigIntBase \<Rightarrow> 'r) \<Rightarrow> 'r" where
  "with_operands xNum yNum mixedTypes body =
     (case Cast_BigInt xNum of
        None \<Rightarrow> mixedTypes
      | Some x \<Rightarrow> (case Cast_BigInt yNum of None \<Rightarrow> mixedTypes | Some y \<Rightarrow> body x y))"

definition BigIntAdd :: "memory \<Rightarrow> Numeric \<Rightarrow> Numeric \<Rightarrow> MaybeBigInt" where
  "BigIntAdd junk xNum yNum =
     with_operands xNum yNum (Some (Inl kBigIntMixedTypes)) (\<lambda>x y. do { r \<leftarrow> BigIntAddImpl junk x y; Some (throws_of r) })"

definition BigIntAddNoThrow :: "memory \<Rightarrow> BigIntBase \<Rightarrow> BigIntBase \<Rightarrow> (BigIntError + Numeric) option" where
  "BigIntAddNoThrow junk x y = do { r \<leftarrow> BigIntAddImpl junk x y; Some (sentinel_of r) }"

definition BigIntSubtract :: "memory \<Rightarrow> Numeric \<Rightarrow> Numeric \<Rightarrow> MaybeBigInt" where
  "BigIntSubtract junk xNum yNum =
     with_operands xNum yNum (Some (Inl kBigIntMixedTypes)) (\<lambda>x y. do { r \<leftarrow> BigIntSubtractImpl junk x y; Some (throws_of r) })"

definition BigIntSubtractNoThrow :: "memory \<Rightarrow> BigIntBase \<Rightarrow> BigIntBase \<Rightarrow> (BigIntError + Numeric) option" where
  "BigIntSubtractNoThrow junk x y = do { r \<leftarrow> BigIntSubtractImpl junk x y; Some (sentinel_of r) }"

definition BigIntMultiply :: "advanced \<Rightarrow> memory \<Rightarrow> ProcessorImpl \<Rightarrow> Numeric \<Rightarrow> Numeric \<Rightarrow> ProcessorResult" where
  "BigIntMultiply adv junk p xNum yNum =
     with_operands xNum yNum (Some (p, Inl kBigIntMixedTypes))
       (\<lambda>x y. do { (p, r) \<leftarrow> BigIntMultiplyImpl adv junk p x y; Some (p, throws_of r) })"

definition BigIntMultiplyNoThrow :: "advanced \<Rightarrow> memory \<Rightarrow> ProcessorImpl \<Rightarrow> BigIntBase \<Rightarrow> BigIntBase \<Rightarrow>
    (ProcessorImpl \<times> (BigIntError + Numeric)) option" where
  "BigIntMultiplyNoThrow adv junk p x y = do { (p, r) \<leftarrow> BigIntMultiplyImpl adv junk p x y; Some (p, sentinel_of r) }"

definition BigIntDivide :: "advanced \<Rightarrow> memory \<Rightarrow> ProcessorImpl \<Rightarrow> Numeric \<Rightarrow> Numeric \<Rightarrow> ProcessorResult" where
  "BigIntDivide adv junk p xNum yNum =
     with_operands xNum yNum (Some (p, Inl kBigIntMixedTypes))
       (\<lambda>x y. do { (p, r) \<leftarrow> BigIntDivideImpl adv junk p x y; Some (p, throws_of r) })"

definition BigIntDivideNoThrow :: "advanced \<Rightarrow> memory \<Rightarrow> ProcessorImpl \<Rightarrow> BigIntBase \<Rightarrow> BigIntBase \<Rightarrow>
    (ProcessorImpl \<times> (BigIntError + Numeric)) option" where
  "BigIntDivideNoThrow adv junk p x y = do { (p, r) \<leftarrow> BigIntDivideImpl adv junk p x y; Some (p, sentinel_of r) }"

definition BigIntModulus :: "advanced \<Rightarrow> memory \<Rightarrow> ProcessorImpl \<Rightarrow> Numeric \<Rightarrow> Numeric \<Rightarrow> ProcessorResult" where
  "BigIntModulus adv junk p xNum yNum =
     with_operands xNum yNum (Some (p, Inl kBigIntMixedTypes))
       (\<lambda>x y. do { (p, r) \<leftarrow> BigIntModulusImpl adv junk p x y; Some (p, throws_of r) })"

definition BigIntModulusNoThrow :: "advanced \<Rightarrow> memory \<Rightarrow> ProcessorImpl \<Rightarrow> BigIntBase \<Rightarrow> BigIntBase \<Rightarrow>
    (ProcessorImpl \<times> (BigIntError + Numeric)) option" where
  "BigIntModulusNoThrow adv junk p x y = do { (p, r) \<leftarrow> BigIntModulusImpl adv junk p x y; Some (p, sentinel_of r) }"

definition BigIntBitwiseAnd :: "memory \<Rightarrow> Numeric \<Rightarrow> Numeric \<Rightarrow> MaybeBigInt" where
  "BigIntBitwiseAnd junk xNum yNum =
     with_operands xNum yNum (Some (Inl kBigIntMixedTypes)) (\<lambda>x y. do { r \<leftarrow> BigIntBitwiseAndImpl junk x y; Some (throws_of r) })"

definition BigIntBitwiseAndNoThrow :: "memory \<Rightarrow> BigIntBase \<Rightarrow> BigIntBase \<Rightarrow> (BigIntError + Numeric) option" where
  "BigIntBitwiseAndNoThrow junk x y = do { r \<leftarrow> BigIntBitwiseAndImpl junk x y; Some (sentinel_of r) }"

definition BigIntBitwiseOr :: "memory \<Rightarrow> Numeric \<Rightarrow> Numeric \<Rightarrow> MaybeBigInt" where
  "BigIntBitwiseOr junk xNum yNum =
     with_operands xNum yNum (Some (Inl kBigIntMixedTypes)) (\<lambda>x y. do { r \<leftarrow> BigIntBitwiseOrImpl junk x y; Some (throws_of r) })"

definition BigIntBitwiseOrNoThrow :: "memory \<Rightarrow> BigIntBase \<Rightarrow> BigIntBase \<Rightarrow> (BigIntError + Numeric) option" where
  "BigIntBitwiseOrNoThrow junk x y = do { r \<leftarrow> BigIntBitwiseOrImpl junk x y; Some (sentinel_of r) }"

definition BigIntBitwiseXor :: "memory \<Rightarrow> Numeric \<Rightarrow> Numeric \<Rightarrow> MaybeBigInt" where
  "BigIntBitwiseXor junk xNum yNum =
     with_operands xNum yNum (Some (Inl kBigIntMixedTypes)) (\<lambda>x y. do { r \<leftarrow> BigIntBitwiseXorImpl junk x y; Some (throws_of r) })"

definition BigIntBitwiseXorNoThrow :: "memory \<Rightarrow> BigIntBase \<Rightarrow> BigIntBase \<Rightarrow> (BigIntError + Numeric) option" where
  "BigIntBitwiseXorNoThrow junk x y = do { r \<leftarrow> BigIntBitwiseXorImpl junk x y; Some (sentinel_of r) }"

definition BigIntShiftLeft :: "memory \<Rightarrow> Numeric \<Rightarrow> Numeric \<Rightarrow> MaybeBigInt" where
  "BigIntShiftLeft junk xNum yNum =
     with_operands xNum yNum (Some (Inl kBigIntMixedTypes)) (\<lambda>x y. do { r \<leftarrow> BigIntShiftLeftImpl junk x y; Some (throws_of r) })"

definition BigIntShiftLeftNoThrow :: "memory \<Rightarrow> BigIntBase \<Rightarrow> BigIntBase \<Rightarrow> (BigIntError + Numeric) option" where
  "BigIntShiftLeftNoThrow junk x y = do { r \<leftarrow> BigIntShiftLeftImpl junk x y; Some (sentinel_of r) }"

definition BigIntShiftRight :: "memory \<Rightarrow> Numeric \<Rightarrow> Numeric \<Rightarrow> MaybeBigInt" where
  "BigIntShiftRight junk xNum yNum =
     with_operands xNum yNum (Some (Inl kBigIntMixedTypes)) (\<lambda>x y. do { r \<leftarrow> BigIntShiftRightImpl junk x y; Some (throws_of r) })"

definition BigIntShiftRightNoThrow :: "memory \<Rightarrow> BigIntBase \<Rightarrow> BigIntBase \<Rightarrow> (BigIntError + Numeric) option" where
  "BigIntShiftRightNoThrow junk x y = do { r \<leftarrow> BigIntShiftRightImpl junk x y; Some (sentinel_of r) }"

section \<open>Comparison builtins\<close>

definition BigIntEqual :: "BigIntBase \<Rightarrow> BigIntBase \<Rightarrow> bool option" where
  "BigIntEqual x y =
     (if ReadBigIntSign x \<noteq> ReadBigIntSign y then Some False
      else (let xlength = ReadBigIntLength x; ylength = ReadBigIntLength y
            in if xlength \<noteq> ylength then Some False
               else equal_digits (digits x) (digits y) 0 xlength))"

fun BigIntCompareAbsolute_scan :: "BigIntBase \<Rightarrow> BigIntBase \<Rightarrow> nat \<Rightarrow> int option" where
  "BigIntCompareAbsolute_scan x y 0 = Some 0"
| "BigIntCompareAbsolute_scan x y (Suc i) = do {
     xdigit \<leftarrow> digit x i;
     ydigit \<leftarrow> digit y i;
     if xdigit \<noteq> ydigit then Some (if xdigit > ydigit then 1 else - 1)
     else BigIntCompareAbsolute_scan x y i }"

definition BigIntCompareAbsolute :: "BigIntBase \<Rightarrow> BigIntBase \<Rightarrow> int option" where
  "BigIntCompareAbsolute x y =
     (let diff = int (ReadBigIntLength x) - int (ReadBigIntLength y)
      in if diff \<noteq> 0 then Some diff else BigIntCompareAbsolute_scan x y (ReadBigIntLength x))"

definition BigIntCompare :: "BigIntBase \<Rightarrow> BigIntBase \<Rightarrow> int option" where
  "BigIntCompare x y =
     (let xsign = ReadBigIntSign x; ysign = ReadBigIntSign y
      in if xsign \<noteq> ysign then Some (if xsign = kPositiveSign then 1 else - 1)
         else do {
           diff \<leftarrow> BigIntCompareAbsolute x y;
           Some (if xsign = kPositiveSign then diff else 0 - diff) })"

definition BigIntLessThan :: "BigIntBase \<Rightarrow> BigIntBase \<Rightarrow> bool option" where
  "BigIntLessThan x y = do { c \<leftarrow> BigIntCompare x y; Some (c < 0) }"

definition BigIntGreaterThan :: "BigIntBase \<Rightarrow> BigIntBase \<Rightarrow> bool option" where
  "BigIntGreaterThan x y = do { c \<leftarrow> BigIntCompare x y; Some (c > 0) }"

definition BigIntLessThanOrEqual :: "BigIntBase \<Rightarrow> BigIntBase \<Rightarrow> bool option" where
  "BigIntLessThanOrEqual x y = do { c \<leftarrow> BigIntCompare x y; Some (c \<le> 0) }"

definition BigIntGreaterThanOrEqual :: "BigIntBase \<Rightarrow> BigIntBase \<Rightarrow> bool option" where
  "BigIntGreaterThanOrEqual x y = do { c \<leftarrow> BigIntCompare x y; Some (c \<ge> 0) }"

end
