(* ===== verification/BigInt_Builtins_Correct.thy ===== *)
theory BigInt_Builtins_Correct
  imports BigInt_Builtins
begin

text \<open>
  The Torque builtins compute what the C++ runtime functions of \<open>objects/bigint.cc\<close> compute, fail in the same cases and pass
  all their checks.
\<close>

section \<open>Objects and results\<close>

definition sign_word :: "bool \<Rightarrow> 32 word" where
  "sign_word s = (if s then 1 else 0)"

lemma sign_words [simp]:
  "ReadBigIntSign x = sign_word (sign x)" "kPositiveSign = sign_word False" "kNegativeSign = sign_word True"
  "InvertSign (sign_word s) = sign_word (\<not> s)" "sign_word s = sign_word t \<longleftrightarrow> s = t" "(if s then sign_word True else sign_word False) = sign_word s"
  "WriteBigIntSign r (sign_word s) = r\<lparr>sign := s\<rparr>"
  by (simp_all add: sign_word_def ReadBigIntSign_def kPositiveSign_def kNegativeSign_def InvertSign_def WriteBigIntSign_def)

lemma Convert_canonical: "canonical r \<Longrightarrow> Convert_BigInt r = Some (Inr r)"
  by (cases "digits r = []")
    (auto simp: Convert_BigInt_def IsCanonicalized_def Let_def last_digit canonical_def IsDigitNormalized_def ReadBigIntLength_def is_zero_def
      digit_def rd_def last_conv_nth)

lemma Allocate_ok:
  "len \<le> kMaxLength \<Longrightarrow> AllocateEmptyBigIntNoThrow junk s len = Inr (WriteBigIntSign \<lparr>sign = False, digits = map junk [0..<len]\<rparr> s)"
  "len \<le> kMaxLength \<Longrightarrow> AllocateEmptyBigInt junk s len = Inr (WriteBigIntSign \<lparr>sign = False, digits = map junk [0..<len]\<rparr> s)"
  "kMaxLength < len \<Longrightarrow> AllocateEmptyBigIntNoThrow junk s len = Inl BigIntTooBig"
  by (simp_all add: AllocateEmptyBigIntNoThrow_def AllocateEmptyBigInt_def)

lemma Convert_Canonicalize:
  assumes "length (digits r) \<le> kMaxLength" and "digits r = [] \<Longrightarrow> \<not> sign r"
  shows "Convert_BigInt (Canonicalize r) = Some (Inr (MakeImmutable r))"
  using Convert_canonical [OF MakeImmutable_spec(1) [OF assms]] by (simp add: MakeImmutable_def)

section \<open>Macros against runtime functions\<close>

fun label_of :: "BigIntError \<Rightarrow> TorqueExit" where
  "label_of kBigIntTooBig = BigIntTooBig"
| "label_of kBigIntDivZero = BigIntDivZero"
| "label_of kTerminated = TerminationRequested"
| "label_of e = Throw e"

lemma throw_label_of [simp]: "throw_label (label_of e) = e"
  by (cases e) simp_all

definition labelled :: "BigIntError + BigIntBase \<Rightarrow> TorqueExit + BigIntBase" where
  "labelled r = (case r of Inl e \<Rightarrow> Inl (label_of e) | Inr z \<Rightarrow> Inr z)"

lemma throws_labelled [simp]: "throws_of (labelled r) = r" "throws_of (Inr z) = Inr z"
  by (cases r) (simp_all add: throws_of_def labelled_def)

fun as_numeric :: "BigIntError + BigIntBase \<Rightarrow> Numeric" where
  "as_numeric (Inr z) = NBigInt z"
| "as_numeric (Inl kTerminated) = NSmi 1"
| "as_numeric (Inl _) = NSmi 0"

text \<open>
  What a macro promises with respect to the runtime function: it leaves through the label of the error that the runtime
  function throws, or returns an object of the same value.
\<close>

locale torque_macro = bigint_operation op f fails
  for op :: "memory \<Rightarrow> BigIntBase \<Rightarrow> BigIntBase \<Rightarrow> MaybeBigInt" and f and fails +
  fixes impl :: "memory \<Rightarrow> BigIntBase \<Rightarrow> BigIntBase \<Rightarrow> MacroResult"
  assumes exits: "canonical x \<Longrightarrow> canonical y \<Longrightarrow> fails x y = Some e \<Longrightarrow> impl junk x y = Some (Inl (label_of e))"
    and succeeds: "canonical x \<Longrightarrow> canonical y \<Longrightarrow> fails x y = None \<Longrightarrow>
      \<exists>z. impl junk x y = Some (Inr z) \<and> canonical z \<and> bigint_val z = f (bigint_val x) (bigint_val y)"
begin

lemma impl_runtime:
  assumes "canonical x" and "canonical y"
  shows "impl junk x y = map_option labelled (op junk' x y)"
proof (cases "fails x y")
  case None
  from succeeds [OF assms None, of junk] obtain z where
    z: "impl junk x y = Some (Inr z)" "canonical z" "bigint_val z = f (bigint_val x) (bigint_val y)" by blast
  with computes [OF assms None, of junk'] returns_self [OF z(2,3)] have "op junk' x y = Some (Inr z)" by (blast intro: returns_unique)
  with z(1) show ?thesis by (simp add: labelled_def)
next
  case (Some e)
  with exits [OF assms Some] throws [OF assms Some] show ?thesis by (simp add: labelled_def)
qed

lemma builtin_runtime:
  assumes "canonical x" and "canonical y"
  shows "do { r \<leftarrow> impl junk x y; Some (throws_of r) } = op junk' x y"
  unfolding impl_runtime [OF assms, of junk junk'] by (cases "op junk' x y") simp_all

lemma nothrow_runtime:
  assumes "canonical x" and "canonical y" and "fails x y \<in> {None, Some kBigIntTooBig}"
  shows "do { r \<leftarrow> impl junk x y; Some (sentinel_of r) } = map_option (Inr \<circ> as_numeric) (op junk' x y)"
proof (cases "fails x y")
  case None
  with computes [OF assms(1,2), of junk'] impl_runtime [OF assms(1,2), of junk junk'] show ?thesis
    by (auto simp: returns_def labelled_def sentinel_of_def)
next
  case (Some e)
  with assms(3) have "e = kBigIntTooBig" by simp
  with throws [OF assms(1,2) Some, of junk'] impl_runtime [OF assms(1,2), of junk junk'] show ?thesis
    by (simp add: labelled_def sentinel_of_def)
qed

end

section \<open>Addition and subtraction\<close>

definition macro_returns :: "MacroResult \<Rightarrow> int \<Rightarrow> bool" where
  "macro_returns m v \<longleftrightarrow> (\<exists>z. m = Some (Inr z) \<and> canonical z \<and> bigint_val z = v)"

lemma macro_returns_self: "canonical x \<Longrightarrow> bigint_val x = v \<Longrightarrow> macro_returns (Some (Inr x)) v"
  by (simp add: macro_returns_def)

lemma macro_returns_Canonicalize:
  assumes "length (digits r) \<le> kMaxLength" and "digits r = [] \<Longrightarrow> \<not> sign r" and "bigint_val r = v"
  shows "macro_returns (Convert_BigInt (Canonicalize r)) v"
  using Convert_Canonicalize [OF assms(1,2)] MakeImmutable_spec [OF assms(1,2)] assms(3) by (simp add: macro_returns_def)

lemma BigIntUnaryMinus_spec:
  assumes "canonical x"
  shows "macro_returns (BigIntUnaryMinus junk x) (- bigint_val x)"
proof (cases "is_zero x")
  case True
  then show ?thesis using assms canonical_zero [OF assms] by (simp add: BigIntUnaryMinus_def ReadBigIntLength_def is_zero_def macro_returns_self)
next
  case False
  let ?n = "length (digits x)" and ?r = "\<lparr>sign = \<not> sign x, digits = digits x\<rparr>"
  let ?step = "\<lambda>i result. do { d \<leftarrow> digit x i; set_digit i d result }"
  have "ok (for_up 0 ?n ?step \<lparr>sign = \<not> sign x, digits = map junk [0..<?n]\<rparr>) (\<lambda>r. r = ?r)"
    by (rule ok_for_up [where I = "\<lambda>k r. r = \<lparr>sign = \<not> sign x, digits = take k (digits x) @ drop k (map junk [0..<?n])\<rparr>"])
      (auto simp: digit_def set_digit_def list_update_append take_Suc_conv_app_nth drop_map upt_conv_Cons min_def)
  then have "for_up 0 ?n ?step \<lparr>sign = \<not> sign x, digits = map junk [0..<?n]\<rparr> = Some ?r" by (auto dest: okE)
  moreover have c: "canonical ?r" using assms False by (auto simp: canonical_def is_zero_def)
  ultimately show ?thesis using assms False canonical_len [OF assms]
    by (simp add: BigIntUnaryMinus_def ReadBigIntLength_def Let_def Allocate_ok is_zero_def Convert_canonical macro_returns_def
        bigint_val_def sval_def)
qed

lemma nonzero_digits: "\<not> is_zero x \<Longrightarrow> digits x \<noteq> []"
  by (auto simp: is_zero_def)

lemma with_sign:
  assumes "canonical x" and "\<not> is_zero x"
  shows "macro_returns (if sign_word s = ReadBigIntSign x then Some (Inr x) else BigIntUnaryMinus junk x) (sval s (digits x))"
  using BigIntUnaryMinus_spec [OF assms(1), of junk] assms(1)
  by (auto simp: macro_returns_self bigint_val_def sval_def intro!: macro_returns_self)

lemma AbsoluteCompare_iff [simp]:
  "MutableBigInt_AbsoluteCompare x y < 0 \<longleftrightarrow> dval (digits x) < dval (digits y)"
  "0 \<le> MutableBigInt_AbsoluteCompare x y \<longleftrightarrow> dval (digits y) \<le> dval (digits x)"
  using Compare_less [of "digits x" "digits y"] by (simp_all add: MutableBigInt_AbsoluteCompare_def not_less [symmetric])

lemma MutableBigIntAbsoluteSub_spec:
  assumes "canonical x" and "canonical y" and "dval (digits y) \<le> dval (digits x)"
    and "\<not> (is_zero x \<and> s)"
  shows "macro_returns (MutableBigIntAbsoluteSub junk x y (sign_word s)) ((if s then - 1 else 1) * (int (dval (digits x)) - int (dval (digits y))))"
proof -
  have cmp: "\<not> MutableBigInt_AbsoluteCompare x y < 0" using assms(3) by simp
  consider "is_zero x" | "\<not> is_zero x" "is_zero y" | "\<not> is_zero x" "\<not> is_zero y" by blast
  then show ?thesis
  proof cases
    case 1
    then have "is_zero y" using assms(1-3) by (simp add: is_zero_iff)
    with 1 cmp assms(1,4) show ?thesis by (auto simp: MutableBigIntAbsoluteSub_def Let_def is_zero_def ReadBigIntLength_def bigint_val_def sval_def intro!: macro_returns_self)
  next
    case 2
    then have "dval (digits y) = 0" using assms(2) by (simp add: is_zero_iff)
    then show ?thesis using 2 cmp with_sign [OF assms(1) 2(1), of s junk]
      by (auto simp: MutableBigIntAbsoluteSub_def Let_def sval_def is_zero_def ReadBigIntLength_def split: if_splits)
  next
    case 3
    let ?n = "length (digits x)"
    from Subtract_spec [of "digits x" "map junk [0..<?n]" "digits y"] length_Normalize [of "digits x"] assms(3) obtain Z where
      Z: "Subtract (map junk [0..<?n]) (digits x) (digits y) = Some Z" "length Z = ?n" "dval Z = dval (digits x) - dval (digits y)" by auto
    have "macro_returns (Convert_BigInt (Canonicalize \<lparr>sign = s, digits = Z\<rparr>)) ((if s then - 1 else 1) * (int (dval (digits x)) - int (dval (digits y))))"
      by (rule macro_returns_Canonicalize) (use Z canonical_len [OF assms(1)] 3(1) assms(3) in \<open>auto simp: is_zero_def bigint_val_def sval_def\<close>)
    then show ?thesis using 3 cmp canonical_len [OF assms(1)] Z(1)
      by (simp add: MutableBigIntAbsoluteSub_def Let_def Allocate_ok MutableBigInt_AbsoluteSubAndCanonicalize_def 
          ReadBigIntLength_def is_zero_def)
  qed
qed

lemma MutableBigIntAbsoluteAdd_nonzero:
  assumes "canonical x" and "canonical y" and "\<not> is_zero x" and "\<not> is_zero y" and "max (length (digits x)) (length (digits y)) < kMaxLength"
  shows "macro_returns (MutableBigIntAbsoluteAdd junk x y (sign_word s)) ((if s then - 1 else 1) * (int (dval (digits x)) + int (dval (digits y))))"
proof -
  define a b where "a = (if length (digits x) < length (digits y) then y else x)" and "b = (if length (digits x) < length (digits y) then x else y)"
  let ?n = "length (digits a) + 1"
  have n: "?n = max (length (digits x)) (length (digits y)) + 1" "\<not> is_zero a" "\<not> is_zero b"
    and sum: "dval (digits a) + dval (digits b) = dval (digits x) + dval (digits y)"
    using assms(3,4) by (auto simp: a_def b_def)
  have "dval (digits a) + dval (digits b) < digit_base ^ ?n" unfolding sum n(1) by (rule sum_fits)
  with Add_spec [of "digits a" "map junk [0..<?n]" "digits b"] obtain Z where
    Z: "Add (map junk [0..<?n]) (digits a) (digits b) = Some Z" "length Z = ?n" "dval Z = dval (digits x) + dval (digits y)"
    unfolding sum by (auto simp: a_def b_def split: if_splits)
  have "macro_returns (Convert_BigInt (Canonicalize \<lparr>sign = s, digits = Z\<rparr>)) ((if s then - 1 else 1) * (int (dval (digits x)) + int (dval (digits y))))"
    by (rule macro_returns_Canonicalize) (use Z(2,3) n(1) assms(5) in \<open>auto simp: bigint_val_def sval_def\<close>)
  moreover have "MutableBigIntAbsoluteAdd junk x y (sign_word s) = Convert_BigInt (Canonicalize \<lparr>sign = s, digits = Z\<rparr>)"
  proof -
    have "MutableBigIntAbsoluteAdd junk x y (sign_word s) =
      (case AllocateEmptyBigIntNoThrow junk (sign_word s) ?n of Inl e \<Rightarrow> Some (Inl e)
       | Inr result \<Rightarrow> do { result \<leftarrow> MutableBigInt_AbsoluteAddAndCanonicalize result a b; Convert_BigInt result })"
      unfolding a_def b_def using assms(3,4) by (simp add: MutableBigIntAbsoluteAdd_def Let_def ReadBigIntLength_def is_zero_def)
    then show ?thesis using n(1) assms(5) Z(1)
      by (simp add: Allocate_ok MutableBigInt_AbsoluteAddAndCanonicalize_def ReadBigIntLength_def del: upt_Suc)
  qed
  ultimately show ?thesis by simp
qed

lemma MutableBigIntAbsoluteAdd_spec:
  assumes "canonical x" and "canonical y" and "\<not> (is_zero x \<and> is_zero y \<and> s)"
  shows "if \<not> is_zero x \<and> \<not> is_zero y \<and> kMaxLength < max (length (digits x)) (length (digits y)) + 1
    then MutableBigIntAbsoluteAdd junk x y (sign_word s) = Some (Inl BigIntTooBig)
    else macro_returns (MutableBigIntAbsoluteAdd junk x y (sign_word s)) ((if s then - 1 else 1) * (int (dval (digits x)) + int (dval (digits y))))"
proof -
  consider "is_zero x" "is_zero y" | "is_zero x" "\<not> is_zero y" | "\<not> is_zero x" "is_zero y" | "\<not> is_zero x" "\<not> is_zero y" by blast
  then show ?thesis
  proof cases
    case 1
    then show ?thesis using assms
      by (auto simp: MutableBigIntAbsoluteAdd_def Let_def is_zero_def ReadBigIntLength_def bigint_val_def sval_def intro!: macro_returns_self)
  next
    case 2
    then show ?thesis using with_sign [OF assms(2) 2(2), of s junk]
      by (auto simp: MutableBigIntAbsoluteAdd_def Let_def sval_def is_zero_def ReadBigIntLength_def split: if_splits)
  next
    case 3
    then show ?thesis using with_sign [OF assms(1) 3(1), of s junk]
      by (auto simp: MutableBigIntAbsoluteAdd_def Let_def sval_def is_zero_def ReadBigIntLength_def split: if_splits)
  next
    case 4
    show ?thesis
    proof (cases "kMaxLength < max (length (digits x)) (length (digits y)) + 1")
      case True
      then have "MutableBigIntAbsoluteAdd junk x y (sign_word s) = Some (Inl BigIntTooBig)"
        using 4 by (auto simp: MutableBigIntAbsoluteAdd_def Let_def Allocate_ok ReadBigIntLength_def is_zero_def max_def split: if_splits)
      with True 4 show ?thesis by simp
    next
      case False
      then have "max (length (digits x)) (length (digits y)) < kMaxLength" by linarith
      from MutableBigIntAbsoluteAdd_nonzero [OF assms(1,2) 4 this, of junk s] False show ?thesis by simp
    qed
  qed
qed

lemma digits_of_zero: "is_zero x \<Longrightarrow> dval (digits x) = 0"
  by (simp add: is_zero_def)

lemma zero_not_negative: "canonical x \<Longrightarrow> is_zero x \<Longrightarrow> \<not> sign x"
  using negative_not_zero by blast

interpretation torque_add: torque_macro BigInt_Add "(+)" Add_fails BigIntAddImpl
proof unfold_locales
  fix x y e junk assume c: "canonical x" "canonical y" and f: "Add_fails x y = Some e"
  then have "sign x = sign y" "e = kBigIntTooBig" "\<not> is_zero x" "\<not> is_zero y" "kMaxLength < max (length (digits x)) (length (digits y)) + 1"
    using canonical_len [OF c(1)] canonical_len [OF c(2)]
    by (auto simp: Add_fails_def AddSignedResultLength_def AddResultLength_def split: if_splits)
  with MutableBigIntAbsoluteAdd_spec [OF c, of "sign x" junk] show "BigIntAddImpl junk x y = Some (Inl (label_of e))"
    by (simp add: BigIntAddImpl_def Let_def)
next
  fix x y junk assume c: "canonical x" "canonical y" and f: "Add_fails x y = None"
  have "macro_returns (BigIntAddImpl junk x y) (bigint_val x + bigint_val y)"
  proof (cases "sign x = sign y")
    case True
    then show ?thesis using MutableBigIntAbsoluteAdd_spec [OF c, of "sign x" junk] zero_not_negative [OF c(1)] f
      by (auto simp: BigIntAddImpl_def Let_def Add_fails_def AddSignedResultLength_def AddResultLength_def bigint_val_def sval_def
          split: if_splits)
  next
    case False
    then show ?thesis
      using MutableBigIntAbsoluteSub_spec [OF c, of "sign x" junk] MutableBigIntAbsoluteSub_spec [OF c(2,1), of "\<not> sign x" junk]
        zero_not_negative [OF c(1)] zero_not_negative [OF c(2)]
      by (auto simp: BigIntAddImpl_def Let_def bigint_val_def sval_def not_le
          split: if_splits)
  qed
  then show "\<exists>z. BigIntAddImpl junk x y = Some (Inr z) \<and> canonical z \<and> bigint_val z = bigint_val x + bigint_val y"
    by (simp add: macro_returns_def)
qed

interpretation torque_subtract: torque_macro BigInt_Subtract "(-)" Subtract_fails BigIntSubtractImpl
proof unfold_locales
  fix x y e junk assume c: "canonical x" "canonical y" and f: "Subtract_fails x y = Some e"
  then have "sign x \<noteq> sign y" "e = kBigIntTooBig" "\<not> is_zero x" "\<not> is_zero y" "kMaxLength < max (length (digits x)) (length (digits y)) + 1"
    using canonical_len [OF c(1)] canonical_len [OF c(2)]
    by (auto simp: Subtract_fails_def SubtractSignedResultLength_def AddResultLength_def split: if_splits)
  with MutableBigIntAbsoluteAdd_spec [OF c, of "sign x" junk] show "BigIntSubtractImpl junk x y = Some (Inl (label_of e))"
    by (simp add: BigIntSubtractImpl_def Let_def)
next
  fix x y junk assume c: "canonical x" "canonical y" and f: "Subtract_fails x y = None"
  have "macro_returns (BigIntSubtractImpl junk x y) (bigint_val x - bigint_val y)"
  proof (cases "sign x = sign y")
    case True
    then show ?thesis
      using MutableBigIntAbsoluteSub_spec [OF c, of "sign x" junk] MutableBigIntAbsoluteSub_spec [OF c(2,1), of "\<not> sign x" junk]
        zero_not_negative [OF c(1)] digits_of_zero [of y]
      by (auto simp: BigIntSubtractImpl_def Let_def bigint_val_def sval_def not_le split: if_splits) blast
  next
    case False
    then show ?thesis using MutableBigIntAbsoluteAdd_spec [OF c, of "sign x" junk] zero_not_negative [OF c(1)] f
      by (auto simp: BigIntSubtractImpl_def Let_def Subtract_fails_def SubtractSignedResultLength_def AddResultLength_def bigint_val_def sval_def
          split: if_splits)
  qed
  then show "\<exists>z. BigIntSubtractImpl junk x y = Some (Inr z) \<and> canonical z \<and> bigint_val z = bigint_val x - bigint_val y"
    by (simp add: macro_returns_def)
qed

section \<open>Bitwise operations\<close>

text \<open>On nonzero operands the bitwise macros allocate what the runtime functions allocate and run the same digit-vector operation.\<close>

lemma Convert_unchecked:
  assumes "returns (Some (Inr (MakeImmutable r))) v"
  shows "Convert_BigInt (Canonicalize r) = Some (Inr (MakeImmutable r))"
  using assms Convert_canonical [of "MakeImmutable r"] by (simp add: returns_def MakeImmutable_def)

lemmas bitwise_entry_defs =
  MutableBigInt_BitwiseAndPosPosAndCanonicalize_def MutableBigInt_BitwiseAndNegNegAndCanonicalize_def
  MutableBigInt_BitwiseAndPosNegAndCanonicalize_def MutableBigInt_BitwiseOrPosPosAndCanonicalize_def
  MutableBigInt_BitwiseOrNegNegAndCanonicalize_def MutableBigInt_BitwiseOrPosNegAndCanonicalize_def
  MutableBigInt_BitwiseXorPosPosAndCanonicalize_def MutableBigInt_BitwiseXorNegNegAndCanonicalize_def
  MutableBigInt_BitwiseXorPosNegAndCanonicalize_def

lemmas bitwise_macro_defs = BigIntBitwiseAndImpl_def BigInt_BitwiseAnd_def BigIntBitwiseOrImpl_def BigInt_BitwiseOr_def
  BigIntBitwiseXorImpl_def BigInt_BitwiseXor_def Let_def is_zero_def ReadBigIntLength_def Allocate_ok New_def bitwise_lengths
  bitwise_entry_defs ToHandleChecked_def otherwise_unreachable_def

lemma BigIntBitwiseImpl_nonzero:
  assumes "\<not> is_zero x" and "\<not> is_zero y" and "canonical x" and "canonical y"
  shows "returns (BigInt_BitwiseAnd junk x y) v \<Longrightarrow> macro_returns (BigIntBitwiseAndImpl junk x y) v"
    and "returns (BigInt_BitwiseOr junk x y) v \<Longrightarrow> macro_returns (BigIntBitwiseOrImpl junk x y) v"
    and "returns (BigInt_BitwiseXor junk x y) v \<Longrightarrow> macro_returns (BigIntBitwiseXorImpl junk x y) v"
  using assms canonical_len [OF assms(3)] canonical_len [OF assms(4)]
  by (cases rule: sign_cases [of x y];
      auto simp: bitwise_macro_defs returns_def macro_returns_def bind_eq_Some_conv min_def max_def MakeImmutable_def Convert_canonical
        split: if_splits)+

lemma zero_val: "canonical x \<Longrightarrow> is_zero x \<Longrightarrow> bigint_val x = 0"
  using canonical_zero by blast

interpretation torque_and: torque_macro BigInt_BitwiseAnd "(AND)" BitwiseAnd_fails BigIntBitwiseAndImpl
proof unfold_locales
  fix x y e junk assume c: "canonical x" "canonical y" and f: "BitwiseAnd_fails x y = Some e"
  then show "BigIntBitwiseAndImpl junk x y = Some (Inl (label_of e))"
    using negative_len [OF c(1)] negative_len [OF c(2)]
    by (auto simp: BitwiseAnd_fails_def bitwise_macro_defs max_def split: if_splits)
next
  fix x y junk assume c: "canonical x" "canonical y" and f: "BitwiseAnd_fails x y = None"
  have "macro_returns (BigIntBitwiseAndImpl junk x y) (bigint_val x AND bigint_val y)"
  proof (cases "is_zero x \<or> is_zero y")
    case True
    then show ?thesis using c zero_val [OF c(1)] zero_val [OF c(2)]
      by (auto simp: BigIntBitwiseAndImpl_def Let_def ReadBigIntLength_def is_zero_def intro!: macro_returns_self)
  next
    case False
    then show ?thesis using bigint_and.computes [OF c f] BigIntBitwiseImpl_nonzero(1) [OF _ _ c] by blast
  qed
  then show "\<exists>z. BigIntBitwiseAndImpl junk x y = Some (Inr z) \<and> canonical z \<and> bigint_val z = bigint_val x AND bigint_val y"
    by (simp add: macro_returns_def)
qed

interpretation torque_or: torque_macro BigInt_BitwiseOr "(OR)" "\<lambda>x y. None" BigIntBitwiseOrImpl
proof unfold_locales
  fix x y junk assume c: "canonical x" "canonical y"
  have "macro_returns (BigIntBitwiseOrImpl junk x y) (bigint_val x OR bigint_val y)"
  proof (cases "is_zero x \<or> is_zero y")
    case True
    then show ?thesis using c zero_val [OF c(1)] zero_val [OF c(2)]
      by (auto simp: BigIntBitwiseOrImpl_def Let_def ReadBigIntLength_def is_zero_def intro!: macro_returns_self)
  next
    case False
    then show ?thesis using BigInt_BitwiseOr_computes [OF c] BigIntBitwiseImpl_nonzero(2) [OF _ _ c] by blast
  qed
  then show "\<exists>z. BigIntBitwiseOrImpl junk x y = Some (Inr z) \<and> canonical z \<and> bigint_val z = bigint_val x OR bigint_val y"
    by (simp add: macro_returns_def)
qed simp

text \<open>
  The exclusive or of the runtime has no case for a zero operand: it asks for a digit more than the longer operand when the
  signs differ, and throws for a zero and a negative operand of maximal length, where the builtin returns the operand.
\<close>

lemma BigIntBitwiseXorImpl_throws:
  assumes "canonical x" and "canonical y" and "\<not> is_zero x" and "\<not> is_zero y" and "BitwiseXor_fails x y = Some e"
  shows "BigIntBitwiseXorImpl junk x y = Some (Inl BigIntTooBig) \<and> e = kBigIntTooBig"
  using assms by (auto simp: BitwiseXor_fails_def bitwise_macro_defs max_def split: if_splits)

lemma BigIntBitwiseXorImpl_runtime:
  assumes "canonical x" and "canonical y"
  shows "BigIntBitwiseXorImpl junk x y =
    (if is_zero x then Some (Inr y) else if is_zero y then Some (Inr x) else map_option labelled (BigInt_BitwiseXor junk' x y))"
proof (cases "is_zero x \<or> is_zero y")
  case True
  then show ?thesis by (auto simp: BigIntBitwiseXorImpl_def Let_def ReadBigIntLength_def is_zero_def)
next
  case nz: False
  show ?thesis
  proof (cases "BitwiseXor_fails x y")
    case None
    have "macro_returns (BigIntBitwiseXorImpl junk x y) (bigint_val x XOR bigint_val y)"
      using nz bigint_xor.computes [OF assms None] BigIntBitwiseImpl_nonzero(3) [OF _ _ assms] by blast
    then obtain z where z: "BigIntBitwiseXorImpl junk x y = Some (Inr z)" "canonical z" "bigint_val z = bigint_val x XOR bigint_val y"
      by (auto simp: macro_returns_def)
    then have "BigInt_BitwiseXor junk' x y = Some (Inr z)" using bigint_xor.agrees [OF assms z(2) None] by simp
    with nz z(1) show ?thesis by (simp add: labelled_def)
  next
    case (Some e)
    with BigIntBitwiseXorImpl_throws [OF assms _ _ Some, of junk] bigint_xor.throws [OF assms Some] nz show ?thesis by (simp add: labelled_def)
  qed
qed

section \<open>Shifts\<close>

lemma shift_in_range:
  assumes "shift \<le> of_nat kMaxLengthBits"
  shows "unat (shift :: digit_t) div 64 < 2 ^ 31"
proof -
  have "unat shift \<le> 2 ^ 30" using assms by (simp add: word_le_nat_alt kMaxLengthBits_def)
  then have "unat shift div 64 \<le> 2 ^ 30 div 64" by (rule div_le_mono)
  then show ?thesis by simp
qed

lemma LeftShift_length_words:
  assumes "shift \<le> of_nat kMaxLengthBits"
  shows "LeftShift_ResultLength n m shift = int (n + unat (shift div 64) +
    (if unat (shift mod 64) \<noteq> 0 \<and> drop_bit (kDigitBits - unat (shift mod 64)) m \<noteq> 0 then 1 else 0))"
  using shift_parts [OF shift_in_range [OF assms]] by (simp add: LeftShift_ResultLength_def Let_def unat_div_distrib)

lemma ToShiftAmount_cases:
  assumes "\<not> is_zero y"
  obtains "1 < length (digits y)" "ToShiftAmount y = Some None"
    | s where "length (digits y) = 1" "digit y 0 = Some s" "s > of_nat kMaxLengthBits" "ToShiftAmount y = Some None"
    | s where "length (digits y) = 1" "digit y 0 = Some s" "s \<le> of_nat kMaxLengthBits" "ToShiftAmount y = Some (Some s)"
proof (cases "length (digits y) = 1")
  case True
  then obtain s where "digit y 0 = Some s" by (auto simp: digit_def rd_def)
  with True show ?thesis using that(2,3) [of s] by (cases "s > of_nat kMaxLengthBits") (auto simp: ToShiftAmount_def not_less)
next
  case False
  then have "1 < length (digits y)" using assms by (cases "digits y") (auto simp: is_zero_def)
  then show ?thesis using that(1) by (simp add: ToShiftAmount_def)
qed

lemma MutableBigIntLeftShiftByAbsolute_eq:
  assumes "canonical x" and "canonical y" and "\<not> is_zero x" and "\<not> is_zero y"
  shows "MutableBigIntLeftShiftByAbsolute junk x y = map_option labelled (LeftShiftByAbsolute junk x y)"
proof (cases rule: ToShiftAmount_cases [OF assms(4)])
  case 1
  then show ?thesis using assms(3,4)
    by (auto simp: MutableBigIntLeftShiftByAbsolute_def LeftShiftByAbsolute_def Let_def ReadBigIntLength_def is_zero_def labelled_def)
next
  case (2 s)
  then show ?thesis using assms(3,4)
    by (auto simp: MutableBigIntLeftShiftByAbsolute_def LeftShiftByAbsolute_def Let_def ReadBigIntLength_def is_zero_def labelled_def)
next
  case (3 s)
  define n where "n = length (digits x) + unat (s div 64) +
    (if unat (s mod 64) \<noteq> 0 \<and> drop_bit (kDigitBits - unat (s mod 64)) (last (digits x)) \<noteq> 0 then 1 else 0)"
  have len: "LeftShift_ResultLength (length (digits x)) (last (digits x)) s = int n"
    unfolding n_def by (rule LeftShift_length_words [OF 3(3)])
  have m: "MutableBigIntLeftShiftByAbsolute junk x y =
      (case AllocateEmptyBigIntNoThrow junk (sign_word (sign x)) n of Inl e \<Rightarrow> Some (Inl e)
       | Inr result \<Rightarrow> do { result \<leftarrow> MutableBigInt_LeftShiftAndCanonicalize result x s; Convert_BigInt result })"
    using 3 leD [OF 3(3)] assms(3,4) last_digit [OF assms(3)]
    by (simp add: MutableBigIntLeftShiftByAbsolute_def Let_def ReadBigIntLength_def is_zero_def n_def)
  show ?thesis
  proof (cases "n \<le> kMaxLength")
    case False
    then show ?thesis unfolding m using 3 last_digit [OF assms(3)] len by (simp add: Allocate_ok LeftShiftByAbsolute_def labelled_def)
  next
    case True
    then have l: "LeftShiftByAbsolute junk x y = do { Z \<leftarrow> LeftShift (map junk [0..<n]) (digits x) s;
        Some (Inr (MakeImmutable \<lparr>sign = sign x, digits = Z\<rparr>)) }"
      using 3 last_digit [OF assms(3)] len by (simp add: LeftShiftByAbsolute_def New_ok)
    then have "LeftShiftByAbsolute junk x y \<noteq> Some (Inl e)" for e by (auto simp: bind_eq_Some_conv)
    with LeftShiftByAbsolute_spec [OF assms, of junk] obtain v where "returns (LeftShiftByAbsolute junk x y) v"
      by (auto split: if_splits)
    with l True show ?thesis unfolding m
      by (auto simp: Allocate_ok MutableBigInt_LeftShiftAndCanonicalize_def returns_def bind_eq_Some_conv labelled_def MakeImmutable_def Convert_canonical)
  qed
qed

lemma packed_length:
  assumes "l < 2 ^ 30"
  shows "drop_bit 30 (push_bit 30 (of_bool b) OR of_nat l :: 32 word) = of_bool b"
    and "(push_bit 30 (of_bool b) OR of_nat l :: 32 word) AND (push_bit 30 1 - 1) = of_nat l"
proof -
  have l: "n < 30" if "bit l n" for n
    using assms that by (metis bit_take_bit_iff take_bit_nat_eq_self)
  show "drop_bit 30 (push_bit 30 (of_bool b) OR of_nat l :: 32 word) = of_bool b"
    by (rule bit_eqI) (use l in \<open>fastforce simp: bit_drop_bit_eq bit_or_iff bit_push_bit_iff bit_of_bool_iff bit_of_nat_iff\<close>)
  have m: "(push_bit 30 1 - 1 :: 32 word) = mask 30" by (simp only: mask_eq_exp_minus_1 push_bit_of_1)
  show "(push_bit 30 (of_bool b) OR of_nat l :: 32 word) AND (push_bit 30 1 - 1) = of_nat l"
    unfolding m by (rule bit_eqI) (use l in \<open>auto simp: bit_and_iff bit_or_iff bit_push_bit_iff bit_of_bool_iff bit_of_nat_iff bit_mask_iff\<close>)
qed

lemma RightShiftByMaximum_macro_eq:
  "RightShiftByMaximum_macro junk (sign_word b) = map_option Inr (RightShiftByMaximum junk b)"
proof (cases b)
  case True
  have one: "canonical \<lparr>sign = True, digits = [1]\<rparr>" by (rule single_digit_canonical) simp
  have "NewFromInt junk (- 1) = Some \<lparr>sign = True, digits = [1]\<rparr>"
    using NewFromInt_spec [of "- 1" junk] canonical_inj [OF _ one] by (auto simp: bigint_val_def sval_def)
  moreover have "1 \<le> kMaxLength" by (rule kMaxLength_bounds)
  ultimately show ?thesis using True one
    by (simp add: RightShiftByMaximum_macro_def RightShiftByMaximum_def Allocate_ok set_digit_def wr_def Convert_canonical)
next
  case False
  have zero: "canonical \<lparr>sign = False, digits = []\<rparr>" by (simp add: canonical_def IsDigitNormalized_def)
  have "Zero junk = Some \<lparr>sign = False, digits = []\<rparr>"
    using Zero_spec [of junk] canonical_inj [OF _ zero] by (auto simp: bigint_val_def sval_def)
  then show ?thesis using False zero
    by (simp add: RightShiftByMaximum_macro_def RightShiftByMaximum_def Allocate_ok Convert_canonical)
qed

lemma RightShiftResultLength_eq:
  assumes "RightShift_ResultLength (digits x) (sign x) s \<lparr>must_round_down = False\<rparr> = Some (len, st)" and "0 \<le> len" and "len < 2 ^ 30"
  shows "RightShiftResultLength x (sign_word (sign x)) s = Some (push_bit 30 (of_bool (must_round_down st)) OR of_nat (nat len))"
proof -
  have "drop_bit 30 len = 0" using assms(2,3) by (simp add: drop_bit_eq_div)
  moreover have "word_of_int len = (of_nat (nat len) :: 32 word)" using assms(2) by (simp flip: of_nat_nat)
  ultimately show ?thesis using assms(1)
    by (cases "sign x") (simp_all add: RightShiftResultLength_def kLengthFieldBits_def sign_word_def)
qed

lemma RightShift_macro_step:
  assumes "canonical x" and "canonical y" and "\<not> is_zero x" and "\<not> is_zero y" and "digit y 0 = Some s" and "length (digits y) = 1"
    and "s \<le> of_nat kMaxLengthBits" and "RightShift_ResultLength (digits x) (sign x) s \<lparr>must_round_down = False\<rparr> = Some (len, st)"
    and "0 \<le> len" and "len \<le> int kMaxLength"
  shows "MutableBigIntRightShiftByAbsolute junk x y =
    (if len = 0 then RightShiftByMaximum_macro junk (sign_word (sign x))
     else do {
       Z \<leftarrow> RightShift (map junk [0..<nat len]) (digits x) s st;
       Convert_BigInt (Canonicalize \<lparr>sign = sign x, digits = Z\<rparr>) })"
proof -
  have small: "len < 2 ^ 30" using assms(10) by (simp add: kMaxLength_def kMaxLengthBits_def)
  have l: "nat len < 2 ^ 30" using small assms(9) by simp
  then have u: "unat (of_nat (nat len) :: 32 word) = nat len" by (simp add: unat_of_nat)
  have st: "\<lparr>must_round_down = must_round_down st\<rparr> = st" by simp
  define w :: "32 word" where "w = push_bit 30 (of_bool (must_round_down st)) OR of_nat (nat len)"
  have w: "RightShiftResultLength x (sign_word (sign x)) s = Some w" "drop_bit 30 w = of_bool (must_round_down st)"
    "unat (w AND (push_bit 30 1 - 1)) = nat len"
    using RightShiftResultLength_eq [OF assms(8,9) small] packed_length [OF l, of "must_round_down st"] u by (simp_all only: w_def)
  show ?thesis
    using assms(3-6) leD [OF assms(7)] assms(9,10) w
    by (simp add: MutableBigIntRightShiftByAbsolute_def Let_def ReadBigIntLength_def is_zero_def kMustRoundDownBitShift_def
        otherwise_unreachable_def Allocate_ok MutableBigInt_RightShiftAndCanonicalize_def st del: push_bit_of_1)
qed

lemma MutableBigIntRightShiftByAbsolute_eq:
  assumes "canonical x" and "canonical y" and "\<not> is_zero x" and "\<not> is_zero y"
  shows "MutableBigIntRightShiftByAbsolute junk x y = map_option Inr (RightShiftByAbsolute junk x y)"
proof (cases rule: ToShiftAmount_cases [OF assms(4)])
  case 1
  then show ?thesis using assms(3,4)
    by (auto simp: MutableBigIntRightShiftByAbsolute_def RightShiftByAbsolute_def Let_def ReadBigIntLength_def is_zero_def RightShiftByMaximum_macro_eq)
next
  case (2 s)
  then show ?thesis using assms(3,4)
    by (auto simp: MutableBigIntRightShiftByAbsolute_def RightShiftByAbsolute_def Let_def ReadBigIntLength_def is_zero_def RightShiftByMaximum_macro_eq)
next
  case (3 s)
  let ?st0 = "\<lparr>must_round_down = False\<rparr>"
  note range = shift_in_range [OF 3(3)]
  have "s \<noteq> 0" using 3(1,2) canonical_pos [OF assms(2,4)] by (cases "digits y") (auto simp: digit_def rd_def)
  then have "0 < unat s" by (simp add: unat_gt_0)
  with RightShift_ResultLength_total [OF range, of "digits x" "sign x" ?st0] RightShift_ResultLength_le [OF range, of "digits x" "sign x" ?st0]
  obtain len st where R: "RightShift_ResultLength (digits x) (sign x) s ?st0 = Some (len, st)" and len: "0 \<le> len" "len \<le> int (length (digits x))"
    by fastforce
  then have le: "len \<le> int kMaxLength" using canonical_len [OF assms(1)] by linarith
  note m = RightShift_macro_step [OF assms 3(2,1,3) R len(1) le, of junk]
  show ?thesis
  proof (cases "len = 0")
    case True
    then show ?thesis using m R 3(4) by (simp add: RightShiftByAbsolute_def RightShiftByMaximum_macro_eq)
  next
    case False
    then have r: "RightShiftByAbsolute junk x y = do { Z \<leftarrow> RightShift (map junk [0..<nat len]) (digits x) s st;
        Some (MakeImmutable \<lparr>sign = sign x, digits = Z\<rparr>) }"
      using R 3(4) len le by (cases "sign x") (simp_all add: RightShiftByAbsolute_def checked_New)
    from RightShiftByAbsolute_spec [OF assms, of junk] obtain z where z: "RightShiftByAbsolute junk x y = Some z" "canonical z" by blast
    then obtain Z where "RightShift (map junk [0..<nat len]) (digits x) s st = Some Z" "canonical (MakeImmutable \<lparr>sign = sign x, digits = Z\<rparr>)"
      unfolding r by (auto simp: bind_eq_Some_conv)
    with r m False show ?thesis by (simp add: MakeImmutable_def Convert_canonical)
  qed
qed

lemma labelled_map: "map_option labelled (do { r \<leftarrow> m; Some (Inr r) }) = map_option Inr m"
  by (cases m) (simp_all add: labelled_def)

lemma BigIntShiftImpl_eq:
  assumes "canonical x" and "canonical y"
  shows "BigIntShiftLeftImpl junk x y = map_option labelled (BigInt_LeftShift junk x y)"
    and "BigIntShiftRightImpl junk x y = map_option labelled (BigInt_SignedRightShift junk x y)"
proof -
  consider "is_zero x \<or> is_zero y" | "\<not> is_zero x" "\<not> is_zero y" by blast
  then have "BigIntShiftLeftImpl junk x y = map_option labelled (BigInt_LeftShift junk x y) \<and>
      BigIntShiftRightImpl junk x y = map_option labelled (BigInt_SignedRightShift junk x y)"
  proof cases
    case 1
    then show ?thesis
      by (auto simp: BigIntShiftLeftImpl_def BigIntShiftRightImpl_def BigInt_LeftShift_def BigInt_SignedRightShift_def labelled_def Let_def
          MutableBigIntRightShiftByAbsolute_def MutableBigIntLeftShiftByAbsolute_def ReadBigIntLength_def is_zero_def)
  next
    case 2
    then show ?thesis
      by (simp add: BigIntShiftLeftImpl_def BigIntShiftRightImpl_def BigInt_LeftShift_def BigInt_SignedRightShift_def labelled_map
          MutableBigIntRightShiftByAbsolute_eq [OF assms 2] MutableBigIntLeftShiftByAbsolute_eq [OF assms 2])
  qed
  then show "BigIntShiftLeftImpl junk x y = map_option labelled (BigInt_LeftShift junk x y)"
    "BigIntShiftRightImpl junk x y = map_option labelled (BigInt_SignedRightShift junk x y)" by blast+
qed

lemma macro_of_equal:
  assumes "impl junk x y = map_option labelled (op junk x y)" and "returns (op junk x y) v"
  shows "\<exists>z. impl junk x y = Some (Inr z) \<and> canonical z \<and> bigint_val z = v"
  using assms by (auto simp: returns_def labelled_def)

interpretation torque_shift_left: torque_macro BigInt_LeftShift shift_by LeftShift_fails BigIntShiftLeftImpl
proof unfold_locales
  fix x y junk assume c: "canonical x" "canonical y" and f: "LeftShift_fails x y = None"
  show "\<exists>z. BigIntShiftLeftImpl junk x y = Some (Inr z) \<and> canonical z \<and> bigint_val z = shift_by (bigint_val x) (bigint_val y)"
    using BigIntShiftImpl_eq(1) [OF c, of junk] bigint_left_shift.computes [OF c f, of junk] by (rule macro_of_equal)
qed (simp add: BigIntShiftImpl_eq bigint_left_shift.throws labelled_def)

interpretation torque_shift_right: torque_macro BigInt_SignedRightShift "\<lambda>v n. shift_by v (- n)" SignedRightShift_fails BigIntShiftRightImpl
proof unfold_locales
  fix x y junk assume c: "canonical x" "canonical y" and f: "SignedRightShift_fails x y = None"
  show "\<exists>z. BigIntShiftRightImpl junk x y = Some (Inr z) \<and> canonical z \<and> bigint_val z = shift_by (bigint_val x) (- bigint_val y)"
    using BigIntShiftImpl_eq(2) [OF c, of junk] bigint_right_shift.computes [OF c f, of junk] by (rule macro_of_equal)
qed (simp add: BigIntShiftImpl_eq bigint_right_shift.throws labelled_def)

section \<open>Multiplication and division\<close>

text \<open>The result that an entry point leaves in the object, as the caller sees it.\<close>

lemma outcome_entry:
  assumes "m = Some (s, p', Z)" and "quiet p \<Longrightarrow> s = kOk \<and> quiet p'" and "length Z \<le> kMaxLength" and "Z \<noteq> []"
    and "sval result_sign Z = v"
  shows "outcome p (do {
      (s, p, Z) \<leftarrow> m;
      (r, p, result) \<leftarrow> (if s = kInterrupted then Some (1 :: int, p, \<lparr>sign = result_sign, digits = Z\<rparr>)
        else Some (0, p, Canonicalize \<lparr>sign = result_sign, digits = Z\<rparr>));
      (p, r) \<leftarrow> (if r = 1 then Some (p, Inl TerminationRequested) else do { z \<leftarrow> Convert_BigInt result; Some (p, z) });
      Some (p, throws_of r) }) None v"
proof (cases "s = kInterrupted")
  case True
  then show ?thesis using assms(1,2) by (auto simp: outcome_def throws_of_def)
next
  case False
  let ?r = "\<lparr>sign = result_sign, digits = Z\<rparr>"
  have "returns (Some (Inr (MakeImmutable ?r))) v"
    by (rule returns_MakeImmutable) (use assms(3-5) in \<open>simp_all add: bigint_val_def\<close>)
  moreover have "Convert_BigInt (Canonicalize ?r) = Some (Inr (MakeImmutable ?r))"
    by (rule Convert_Canonicalize) (use assms(3,4) in simp_all)
  ultimately show ?thesis using assms(1,2) False by (auto simp: outcome_def throws_of_def)
qed

lemma outcome_canonical: "outcome p (Some (p', Inr z)) None v \<Longrightarrow> canonical z"
  by (simp add: outcome_def returns_def)

lemma BigIntMultiply_runtime:
  assumes "canonical x" and "canonical y" and "multipliable x y"
  shows "BigIntMultiply adv junk p (NBigInt x) (NBigInt y) = BigInt_Multiply adv junk p x y"
proof (cases "Multiply_fails x y = None \<and> \<not> is_zero x \<and> \<not> is_zero y")
  case False
  then show ?thesis
    by (auto simp: Multiply_fails_def BigIntMultiply_def with_operands_def BigIntMultiplyImpl_def BigInt_Multiply_def Let_def ReadBigIntLength_def
        is_zero_def throws_of_def Allocate_ok New_too_big MultiplyResultLength_def split: if_splits)
next
  case True
  let ?Z = "map junk [0..<length (digits x) + length (digits y)]"
  have len: "length (digits x) + length (digits y) \<le> kMaxLength" using True by (auto simp: Multiply_fails_def split: if_splits)
  have runtime: "BigInt_Multiply adv junk p x y = interrupted_or \<lparr>sign = False, digits = ?Z\<rparr> (sign x \<noteq> sign y)
      (Processor_Multiply adv junk p ?Z (digits x) (digits y))"
    using True len by (simp add: BigInt_Multiply_def Let_def MultiplyResultLength_def New_ok)
  have o: "outcome p (BigInt_Multiply adv junk p x y) None (bigint_val x * bigint_val y)"
    using BigInt_Multiply_outcome [OF assms, of p adv junk] True by simp
  then obtain s p' Z where m: "Processor_Multiply adv junk p ?Z (digits x) (digits y) = Some (s, p', Z)"
    unfolding runtime by (cases "Processor_Multiply adv junk p ?Z (digits x) (digits y)") (auto simp: outcome_def interrupted_or_def)
  have "canonical (MakeImmutable \<lparr>sign = (sign x \<noteq> sign y), digits = Z\<rparr>)" if "s \<noteq> kInterrupted"
    using o that unfolding runtime m by (auto simp: interrupted_or_def dest: outcome_canonical)
  then show ?thesis unfolding runtime using True len m
    by (auto simp: BigIntMultiply_def with_operands_def BigIntMultiplyImpl_def Let_def ReadBigIntLength_def is_zero_def Allocate_ok
        MutableBigInt_AbsoluteMulAndCanonicalize_def interrupted_or_def throws_of_def MakeImmutable_def Convert_canonical)
qed

lemma BigIntModulus_runtime:
  assumes "canonical x" and "canonical y" and "divisible y"
  shows "BigIntModulus adv junk p (NBigInt x) (NBigInt y) = BigInt_Remainder adv junk p x y"
proof -
  have zero: "Zero junk = Some \<lparr>sign = False, digits = []\<rparr>" "canonical \<lparr>sign = False, digits = []\<rparr>"
    by (simp_all add: Zero_def New_def ToHandleChecked_def MakeImmutable_def Canonicalize_def canonical_def IsDigitNormalized_def)
  show ?thesis
  proof (cases "\<not> is_zero y \<and> dval (digits y) \<le> dval (digits x) \<and> \<not> is_one y")
    case False
    then show ?thesis using zero
      by (auto simp: BigIntModulus_def with_operands_def BigIntModulusImpl_def BigInt_Remainder_def Let_def ReadBigIntLength_def
          is_zero_def is_one_def throws_of_def Allocate_ok Compare_less Convert_canonical)
  next
    case True
    let ?R = "map junk [0..<length (digits y)]"
    note len = canonical_len [OF assms(2)]
    have runtime: "BigInt_Remainder adv junk p x y = interrupted_or \<lparr>sign = False, digits = ?R\<rparr> (sign x)
        (Processor_Modulo adv junk p ?R (digits x) (digits y))"
      using True len by (simp add: BigInt_Remainder_def Let_def Compare_less New_ok ModuloResultLength_def)
    have o: "outcome p (BigInt_Remainder adv junk p x y) None (sgn (bigint_val x) * (\<bar>bigint_val x\<bar> mod \<bar>bigint_val y\<bar>))"
      using BigInt_Remainder_outcome [OF assms, of p adv junk] True by (simp add: Divide_fails_def)
    then obtain s p' R where m: "Processor_Modulo adv junk p ?R (digits x) (digits y) = Some (s, p', R)"
      unfolding runtime by (cases "Processor_Modulo adv junk p ?R (digits x) (digits y)") (auto simp: outcome_def interrupted_or_def)
    have "canonical (MakeImmutable \<lparr>sign = sign x, digits = R\<rparr>)" if "s \<noteq> kInterrupted"
      using o that unfolding runtime m by (auto simp: interrupted_or_def dest: outcome_canonical)
    then show ?thesis unfolding runtime using True len m
      by (auto simp: BigIntModulus_def with_operands_def BigIntModulusImpl_def Let_def ReadBigIntLength_def is_zero_def is_one_def Allocate_ok
          otherwise_unreachable_def MutableBigInt_AbsoluteModAndCanonicalize_def interrupted_or_def throws_of_def MakeImmutable_def
          Convert_canonical)
  qed
qed

text \<open>The builtin for division may allocate a digit more than the runtime function.\<close>

lemma BigIntDivide_general:
  assumes "canonical x" and "canonical y" and "divisible y" and "\<not> is_zero y" and "dval (digits y) \<le> dval (digits x)" and "\<not> is_one y"
  shows "outcome p (BigIntDivide adv junk p (NBigInt x) (NBigInt y)) None
    ((if sign x \<noteq> sign y then - 1 else 1) * int (dval (digits x) div dval (digits y)))"
proof -
  define n where "n = (if length (digits y) > 10 then length (digits x) - length (digits y) + 1 + 1 else length (digits x) - length (digits y) + 1)"
  let ?Q = "map junk [0..<n]"
  have y0: "dval (digits y) \<noteq> 0" using assms(2,4) by (simp add: is_zero_iff)
  have d: "DivideResultLength (digits x) (digits y) \<le> n"
    using assms(3) by (simp add: n_def divisible_def DivideResultLength_def kBurnikelThreshold_def kBarrettThreshold_def)
  have n: "n \<le> kMaxLength" "n \<noteq> 0"
    using canonical_len [OF assms(1)] canonical_larger [OF assms(1,2,5)] digits_nonempty [OF assms(2,4)] unfolding n_def
    by (cases "10 < length (digits y)"; simp only: if_True if_False; linarith)+
  note small = divisible_Normalize [OF assms(2,3)]
  from ProcessorImpl_Divide_spec [OF y0 small, of "digits x" ?Q adv junk p] assms(1,2) d obtain p' Q' where
    m: "ProcessorImpl_Divide adv junk p ?Q (digits x) (digits y) = Some (p', Q')"
    and Q': "length Q' = n" "dval Q' = dval (digits x) div dval (digits y)" by (auto simp: canonical_Normalize)
  then have P: "Processor_Divide adv junk p ?Q (digits x) (digits y) = Some (status p', p'\<lparr>status := kOk\<rparr>, Q')"
    by (simp add: Processor_Divide_def with_status_Some)
  have q: "quiet p \<Longrightarrow> status p' = kOk \<and> quiet (p'\<lparr>status := kOk\<rparr>)"
    using Processor_quiet(3) [OF _ small P] Processor_quiet(4) [OF _ small P] by blast
  have "BigIntDivide adv junk p (NBigInt x) (NBigInt y) = do {
      (s, p, Z) \<leftarrow> Processor_Divide adv junk p ?Q (digits x) (digits y);
      (r, p, result) \<leftarrow> (if s = kInterrupted then Some (1 :: int, p, \<lparr>sign = sign x \<noteq> sign y, digits = Z\<rparr>)
        else Some (0, p, Canonicalize \<lparr>sign = sign x \<noteq> sign y, digits = Z\<rparr>));
      (p, r) \<leftarrow> (if r = 1 then Some (p, Inl TerminationRequested) else do { z \<leftarrow> Convert_BigInt result; Some (p, z) });
      Some (p, throws_of r) }"
  proof -
    have "BigIntDivideImpl adv junk p x y = do {
        result \<leftarrow> otherwise_unreachable (AllocateEmptyBigIntNoThrow junk (sign_word (sign x \<noteq> sign y)) n);
        (r, p, result) \<leftarrow> MutableBigInt_AbsoluteDivAndCanonicalize adv junk p result x y;
        if r = 1 then Some (p, Inl TerminationRequested) else do { z \<leftarrow> Convert_BigInt result; Some (p, z) } }"
      using assms(4-6) by (simp add: BigIntDivideImpl_def Let_def ReadBigIntLength_def is_zero_def is_one_def n_def) blast
    then show ?thesis using n(1) d P
      by (simp add: BigIntDivide_def with_operands_def Allocate_ok otherwise_unreachable_def MutableBigInt_AbsoluteDivAndCanonicalize_def Let_def)
  qed
  then show ?thesis
    using outcome_entry [OF P q, where result_sign = "sign x \<noteq> sign y"] Q' n by (auto simp: sval_def)
qed

lemma BigIntDivide_outcome:
  assumes "canonical x" and "canonical y" and "divisible y"
  shows "outcome p (BigIntDivide adv junk p (NBigInt x) (NBigInt y)) (Divide_fails y)
    (sgn (bigint_val x) * sgn (bigint_val y) * (\<bar>bigint_val x\<bar> div \<bar>bigint_val y\<bar>))"
proof (cases "\<not> is_zero y \<and> dval (digits y) \<le> dval (digits x) \<and> \<not> is_one y")
  case True
  then have c: "\<not> is_zero y" "dval (digits y) \<le> dval (digits x)" "\<not> is_one y" by blast+
  from c(1,2) have x: "\<not> is_zero x" using assms(1,2) by (auto simp: is_zero_iff)
  show ?thesis using BigIntDivide_general [OF assms c, of p adv junk] c(1) canonical_sgn [OF assms(1) x] canonical_sgn [OF assms(2) c(1)]
    by (auto simp: Divide_fails_def canonical_magnitude zdiv_int sval_def split: if_splits)
next
  case False
  have zero: "Zero junk = Some \<lparr>sign = False, digits = []\<rparr>" "canonical \<lparr>sign = False, digits = []\<rparr>"
    by (simp_all add: Zero_def New_def ToHandleChecked_def MakeImmutable_def Canonicalize_def canonical_def IsDigitNormalized_def)
  obtain z where z: "UnaryMinus junk x = Some z" "canonical z" "bigint_val z = - bigint_val x" using UnaryMinus_spec [OF assms(1), of junk] by blast
  obtain w where w: "BigIntUnaryMinus junk x = Some (Inr w)" "canonical w" "bigint_val w = - bigint_val x"
    using BigIntUnaryMinus_spec [OF assms(1), of junk] unfolding macro_returns_def by blast
  then have "w = z" using z by (intro canonical_inj) simp_all
  with w(1) have "BigIntUnaryMinus junk x = Some (Inr z)" by simp
  note facts = this zero z(1)
  note unfold = BigIntDivide_def with_operands_def BigIntDivideImpl_def BigInt_Divide_def Let_def ReadBigIntLength_def
    throws_of_def Allocate_ok Compare_less Convert_canonical
  from False consider "is_zero y" | "\<not> is_zero y" "dval (digits x) < dval (digits y)"
    | "\<not> is_zero y" "dval (digits y) \<le> dval (digits x)" "is_one y" using not_le by blast
  then have "BigIntDivide adv junk p (NBigInt x) (NBigInt y) = BigInt_Divide adv junk p x y"
  proof cases
    case 1
    then show ?thesis by (simp add: unfold is_zero_def)
  next
    case 2
    then show ?thesis using facts by (simp add: unfold is_zero_def)
  next
    case 3
    then have "length (digits y) = 1" "digit y 0 = Some 1" "digits y \<noteq> []" by (auto simp: is_one_def)
    with 3 show ?thesis using facts by (cases "sign x"; cases "sign y") (simp_all add: unfold is_one_def)
  qed
  then show ?thesis using BigInt_Divide_outcome [OF assms] by simp
qed

section \<open>Comparison\<close>

lemma BigIntCompareAbsolute_scan_eq:
  "n \<le> length (digits x) \<Longrightarrow> n \<le> length (digits y) \<Longrightarrow> BigIntCompareAbsolute_scan x y n = Some (Compare_scan (digits x) (digits y) n)"
  by (induction n) (simp_all add: digit_def rd_def)

lemma BigIntCompareAbsolute_eq:
  assumes "canonical x" and "canonical y"
  shows "BigIntCompareAbsolute x y = Some (Compare (digits x) (digits y))"
  using assms by (simp add: BigIntCompareAbsolute_def Compare_def Let_def ReadBigIntLength_def canonical_Normalize BigIntCompareAbsolute_scan_eq)

lemma BigIntCompare_spec:
  assumes "canonical x" and "canonical y"
  shows "\<exists>c. BigIntCompare x y = Some c \<and> sgn c = sgn (bigint_val x - bigint_val y)"
proof (cases "sign x = sign y")
  case True
  let ?c = "Compare (digits x) (digits y)"
  have "BigIntCompare x y = Some (if sign x then - ?c else ?c)"
    using True assms by (simp add: BigIntCompare_def Let_def BigIntCompareAbsolute_eq)
  moreover have "sgn ?c = sgn (int (dval (digits x)) - int (dval (digits y)))"
    using Compare_less [of "digits x" "digits y"] Compare_eq [of "digits x" "digits y"] by (auto simp: sgn_if)
  ultimately show ?thesis using True by (auto simp: bigint_val_def sval_def sgn_if split: if_splits)
next
  case False
  then show ?thesis using canonical_sign [OF assms(1)] canonical_sign [OF assms(2)]
    by (auto simp: BigIntCompare_def Let_def sgn_if)
qed

lemma BigIntEqual_eq: "BigIntEqual x y = EqualToBigInt x y"
  by (simp add: BigIntEqual_def EqualToBigInt_def Let_def ReadBigIntLength_def)

section \<open>Properties\<close>

lemmas builtin_defs = BigIntAdd_def BigIntSubtract_def BigIntBitwiseAnd_def BigIntBitwiseOr_def BigIntBitwiseXor_def BigIntShiftLeft_def
  BigIntShiftRight_def with_operands_def

text \<open>
  C12.  On BigInts the Torque builtins for addition, subtraction, and, or and the shifts pass all their checks and return or
  throw exactly what the C++ runtime functions return or throw, whatever fresh memory holds.
\<close>
theorem Torque_runtime_equivalent:
  assumes "canonical x" and "canonical y"
  shows "BigIntAdd junk (NBigInt x) (NBigInt y) = BigInt_Add junk' x y \<and>
    BigIntSubtract junk (NBigInt x) (NBigInt y) = BigInt_Subtract junk' x y \<and>
    BigIntBitwiseAnd junk (NBigInt x) (NBigInt y) = BigInt_BitwiseAnd junk' x y \<and>
    BigIntBitwiseOr junk (NBigInt x) (NBigInt y) = BigInt_BitwiseOr junk' x y \<and>
    BigIntShiftLeft junk (NBigInt x) (NBigInt y) = BigInt_LeftShift junk' x y \<and>
    BigIntShiftRight junk (NBigInt x) (NBigInt y) = BigInt_SignedRightShift junk' x y"
  using torque_add.builtin_runtime [OF assms] torque_subtract.builtin_runtime [OF assms] torque_and.builtin_runtime [OF assms]
    torque_or.builtin_runtime [OF assms] torque_shift_left.builtin_runtime [OF assms] torque_shift_right.builtin_runtime [OF assms]
  by (simp add: builtin_defs)

theorem Torque_runtime_equivalent_witness:
  "BigIntAdd (\<lambda>_. 7) (NBigInt \<lparr>sign = True, digits = [6]\<rparr>) (NBigInt \<lparr>sign = False, digits = [7]\<rparr>) =
     BigInt_Add (\<lambda>_. 9) \<lparr>sign = True, digits = [6]\<rparr> \<lparr>sign = False, digits = [7]\<rparr>"
  using Torque_runtime_equivalent [of "\<lparr>sign = True, digits = [6]\<rparr>" "\<lparr>sign = False, digits = [7]\<rparr>" "\<lambda>_. 7" "\<lambda>_. 9"]
  by (simp add: single_digit_canonical)

text \<open>
  C37.  The exclusive-or builtin returns the other operand when one is zero and agrees with the runtime function otherwise;
  the runtime function throws for a zero and a negative operand of maximal length, so that the two disagree there.
\<close>
theorem Torque_xor_divergence:
  assumes "canonical x" and "canonical y"
  shows "BigIntBitwiseXor junk (NBigInt x) (NBigInt y) =
      (if is_zero x then Some (Inr y) else if is_zero y then Some (Inr x) else BigInt_BitwiseXor junk' x y) \<and>
    (is_zero x \<and> sign y \<and> length (digits y) = kMaxLength \<longrightarrow> BigInt_BitwiseXor junk' x y = Some (Inl kBigIntTooBig))"
proof -
  have "BitwiseXor_fails x y = Some kBigIntTooBig" if "is_zero x" "sign y" "length (digits y) = kMaxLength"
    using that zero_not_negative [OF assms(1)] by (simp add: BitwiseXor_fails_def is_zero_def)
  then show ?thesis
    using BigIntBitwiseXorImpl_runtime [OF assms, of junk junk'] bigint_xor.throws [OF assms, of kBigIntTooBig junk']
    by (cases "BigInt_BitwiseXor junk' x y") (auto simp: builtin_defs)
qed

lemma largest_canonical:
  "canonical \<lparr>sign = True, digits = replicate kMaxLength 1\<rparr>" "length (digits \<lparr>sign = True, digits = replicate kMaxLength (1 :: digit_t)\<rparr>) = kMaxLength"
  using kMaxLength_bounds(1) by (auto simp: canonical_def IsDigitNormalized_def)

theorem Torque_xor_divergence_witness:
  "BigIntBitwiseXor (\<lambda>_. 7) (NBigInt \<lparr>sign = False, digits = []\<rparr>) (NBigInt \<lparr>sign = True, digits = replicate kMaxLength 1\<rparr>) =
     Some (Inr \<lparr>sign = True, digits = replicate kMaxLength 1\<rparr>) \<and>
   BigInt_BitwiseXor (\<lambda>_. 9) \<lparr>sign = False, digits = []\<rparr> \<lparr>sign = True, digits = replicate kMaxLength 1\<rparr> = Some (Inl kBigIntTooBig)"
  using Torque_xor_divergence [OF _ largest_canonical(1), of "\<lparr>sign = False, digits = []\<rparr>" "\<lambda>_. 7" "\<lambda>_. 9"] largest_canonical(2)
  by (simp add: canonical_def IsDigitNormalized_def is_zero_def)





lemma fails_too_big:
  "Add_fails x y \<in> {None, Some kBigIntTooBig}" "Subtract_fails x y \<in> {None, Some kBigIntTooBig}"
  "BitwiseAnd_fails x y \<in> {None, Some kBigIntTooBig}" "LeftShift_fails x y \<in> {None, Some kBigIntTooBig}"
  "SignedRightShift_fails x y \<in> {None, Some kBigIntTooBig}"
  by (simp_all add: Add_fails_def Subtract_fails_def BitwiseAnd_fails_def LeftShift_fails_def SignedRightShift_fails_def)



text \<open>
  C40.  The comparison builtins stay within the digits of their operands and decide the order and the equality of the
  represented integers.
\<close>
theorem Torque_comparison_correct:
  assumes "canonical x" and "canonical y"
  shows "BigIntLessThan x y = Some (bigint_val x < bigint_val y) \<and> BigIntGreaterThan x y = Some (bigint_val x > bigint_val y) \<and>
    BigIntLessThanOrEqual x y = Some (bigint_val x \<le> bigint_val y) \<and> BigIntGreaterThanOrEqual x y = Some (bigint_val x \<ge> bigint_val y) \<and>
    BigIntEqual x y = Some (bigint_val x = bigint_val y)"
proof -
  from BigIntCompare_spec [OF assms] obtain c where "BigIntCompare x y = Some c" "sgn c = sgn (bigint_val x - bigint_val y)" by blast
  then show ?thesis using EqualToBigInt_spec [OF assms]
    by (auto simp: BigIntLessThan_def BigIntGreaterThan_def BigIntLessThanOrEqual_def BigIntGreaterThanOrEqual_def BigIntEqual_eq sgn_if split: if_splits)
qed

theorem Torque_comparison_correct_witness:
  "BigIntLessThan \<lparr>sign = True, digits = [7]\<rparr> \<lparr>sign = False, digits = [2]\<rparr> = Some True"
  using Torque_comparison_correct [of "\<lparr>sign = True, digits = [7]\<rparr>" "\<lparr>sign = False, digits = [2]\<rparr>"]
  by (simp add: single_digit_canonical bigint_val_def sval_def)

end
