(* ===== verification/Region_Allocator.thy ===== *)
theory Region_Allocator
  imports V8_Prelude "HOL-Library.Product_Lexorder"
begin

text \<open>
  \<open>base/address-region.h\<close> and \<open>base/region-allocator.cc\<close>: best-fit allocation of address ranges with coalescing.

  A region object is named by its begin address, which it keeps for its whole life; \<open>all_regions\<close> holds the objects in the
  order of \<open>all_regions_\<close> (by end address) and \<open>free_regions\<close> the names in the order of \<open>free_regions_\<close> (by size, then
  address).  Addresses and sizes are natural numbers below \<open>2 ^ 64\<close> with the wrap-around of \<open>uintptr_t\<close> written out.  \<open>None\<close>
  is a failed check (or, in \<open>RoundUp\<close>, an alignment that does not fit \<open>intptr_t\<close>).  \<open>calls\<close> records the calls of the split and merge callbacks (where they are set).  The random numbers that the allocator
  draws are an argument, as is the threshold \<open>max_load_for_randomization_\<close>, a floating-point product.
\<close>

type_synonym Address = nat

definition add64 :: "nat \<Rightarrow> nat \<Rightarrow> nat" where
  "add64 a b = (a + b) mod 2 ^ 64"

definition sub64 :: "nat \<Rightarrow> nat \<Rightarrow> nat" where
  "sub64 a b = (a + 2 ^ 64 - b) mod 2 ^ 64"

definition IsAligned :: "nat \<Rightarrow> nat \<Rightarrow> bool" where
  "IsAligned v alignment \<longleftrightarrow> v AND (if alignment = 0 then 2 ^ 64 - 1 else alignment - 1) = 0"

definition IsPowerOfTwo :: "nat \<Rightarrow> bool" where
  "IsPowerOfTwo v \<longleftrightarrow> v > 0 \<and> v AND (v - 1) = 0"

definition RoundUp_address :: "nat \<Rightarrow> nat \<Rightarrow> nat option" where
  "RoundUp_address x m =
     (if m \<ge> 2 ^ 63 \<or> 2 ^ 64 - 1 - x < m - 1 \<or> \<not> IsPowerOfTwo m then None
      else Some (nat (int (x + (m - 1)) AND - int m)))"

datatype RegionState = kFree | kExcluded | kAllocated

record Region =
  r_begin :: Address
  r_size :: nat
  r_state :: RegionState

datatype SplitMergeCall = OnSplit Address nat | OnMerge Address nat

record RegionAllocator =
  whole_region :: Region
  region_size_in_pages :: nat
  max_load_for_randomization :: nat
  free_size :: nat
  page_size :: nat
  all_regions :: "Region list"
  free_regions :: "Address list"
  calls :: "SplitMergeCall list"

definition kAllocationFailure :: Address where
  [code_defs]: "kAllocationFailure = 2 ^ 64 - 1"

definition r_end :: "Region \<Rightarrow> Address" where
  "r_end r = add64 (r_begin r) (r_size r)"

definition contains :: "Region \<Rightarrow> Address \<Rightarrow> bool" where
  "contains r address \<longleftrightarrow> sub64 address (r_begin r) < r_size r"

definition contains_range :: "Region \<Rightarrow> Address \<Rightarrow> nat \<Rightarrow> bool" where
  "contains_range r address n \<longleftrightarrow>
     (let offset = sub64 address (r_begin r) in offset < r_size r \<and> add64 offset n \<le> r_size r)"

section \<open>Region objects\<close>

definition region_at :: "RegionAllocator \<Rightarrow> Address \<Rightarrow> Region option" where
  "region_at A p = find (\<lambda>r. r_begin r = p) (all_regions A)"

definition update_region :: "Address \<Rightarrow> (Region \<Rightarrow> Region) \<Rightarrow> RegionAllocator \<Rightarrow> RegionAllocator" where
  "update_region p f A = A\<lparr>all_regions := map (\<lambda>r. if r_begin r = p then f r else r) (all_regions A)\<rparr>"

definition set_size :: "Address \<Rightarrow> nat \<Rightarrow> RegionAllocator \<Rightarrow> RegionAllocator" where
  "set_size p n = update_region p (\<lambda>r. r\<lparr>r_size := n\<rparr>)"

definition set_state :: "Address \<Rightarrow> RegionState \<Rightarrow> RegionAllocator \<Rightarrow> RegionAllocator" where
  "set_state p s = update_region p (\<lambda>r. r\<lparr>r_state := s\<rparr>)"

fun insert_by_end :: "Region \<Rightarrow> Region list \<Rightarrow> Region list" where
  "insert_by_end r [] = [r]"
| "insert_by_end r (x # xs) =
     (if r_end r < r_end x then r # x # xs
      else if r_end x < r_end r then x # insert_by_end r xs
      else x # xs)"

definition size_at :: "RegionAllocator \<Rightarrow> Address \<Rightarrow> nat" where
  "size_at A p = (case region_at A p of Some r \<Rightarrow> r_size r | None \<Rightarrow> 0)"

definition SizeAddressOrder :: "RegionAllocator \<Rightarrow> Address \<Rightarrow> nat \<times> Address" where
  "SizeAddressOrder A p = (size_at A p, p)"

fun next_region :: "Address \<Rightarrow> Region list \<Rightarrow> Address option" where
  "next_region p (x # y # xs) = (if r_begin x = p then Some (r_begin y) else next_region p (y # xs))"
| "next_region p _ = None"

fun prev_region :: "Address \<Rightarrow> Region list \<Rightarrow> Address option" where
  "prev_region p (x # y # xs) = (if r_begin y = p then Some (r_begin x) else prev_region p (y # xs))"
| "prev_region p _ = None"

section \<open>Operations\<close>

definition FindRegion :: "RegionAllocator \<Rightarrow> Address \<Rightarrow> Address option option" where
  "FindRegion A address =
     (if \<not> contains (whole_region A) address then Some None
      else do {
        r \<leftarrow> find (\<lambda>r. r_end r > address) (all_regions A);
        if contains r address then Some (Some (r_begin r)) else None })"

definition FreeListAddRegion :: "RegionAllocator \<Rightarrow> Address \<Rightarrow> RegionAllocator option" where
  "FreeListAddRegion A p = do {
     r \<leftarrow> region_at A p;
     Some (A\<lparr>free_size := add64 (free_size A) (r_size r),
             free_regions := insort_key (SizeAddressOrder A) p (free_regions A)\<rparr>) }"

definition FreeListFindRegion :: "RegionAllocator \<Rightarrow> nat \<Rightarrow> Address option" where
  "FreeListFindRegion A n = find (\<lambda>p. size_at A p \<ge> n) (free_regions A)"

definition FreeListRemoveRegion :: "RegionAllocator \<Rightarrow> Address \<Rightarrow> RegionAllocator option" where
  "FreeListRemoveRegion A p = do {
     r \<leftarrow> region_at A p;
     if r_state r \<noteq> kFree \<or> p \<notin> set (free_regions A) \<or> r_size r > free_size A then None
     else Some (A\<lparr>free_size := free_size A - r_size r, free_regions := remove1 p (free_regions A)\<rparr>) }"

definition Split :: "RegionAllocator \<Rightarrow> Address \<Rightarrow> nat \<Rightarrow> (Address \<times> RegionAllocator) option" where
  "Split A p new_size = do {
     r \<leftarrow> region_at A p;
     if \<not> IsAligned new_size (page_size A) \<or> new_size = 0 \<or> \<not> r_size r > new_size then None
     else do {
       let A = A\<lparr>calls := calls A @ [OnSplit (r_begin r) new_size]\<rparr>;
       if r_state r = kExcluded then None
       else do {
         let state = r_state r;
         let new_region = \<lparr>r_begin = add64 (r_begin r) new_size, r_size = r_size r - new_size, r_state = state\<rparr>;
         A \<leftarrow> (if state = kFree then FreeListRemoveRegion A p else Some A);
         let A = set_size p new_size A;
         let A = A\<lparr>all_regions := insert_by_end new_region (all_regions A)\<rparr>;
         A \<leftarrow> (if state = kFree then do {
             A \<leftarrow> FreeListAddRegion A p;
             FreeListAddRegion A (r_begin new_region) }
           else Some A);
         Some (r_begin new_region, A) } } }"

definition Merge :: "RegionAllocator \<Rightarrow> Address \<Rightarrow> Address \<Rightarrow> RegionAllocator option" where
  "Merge A prev next = do {
     r \<leftarrow> region_at A prev;
     n \<leftarrow> region_at A next;
     if r_end r \<noteq> r_begin n then None
     else do {
       let A = A\<lparr>calls := calls A @ [OnMerge (r_begin r) (add64 (r_size r) (r_size n))]\<rparr>;
       let A = set_size prev (add64 (r_size r) (r_size n)) A;
       let A = A\<lparr>all_regions := filter (\<lambda>x. r_begin x \<noteq> next) (all_regions A)\<rparr>;
       if next \<in> set (free_regions A) then None else Some A } }"

definition RegionAllocator_new :: "Address \<Rightarrow> nat \<Rightarrow> nat \<Rightarrow> nat \<Rightarrow> RegionAllocator option" where
  "RegionAllocator_new memory_region_begin memory_region_size pagesize max_load =
     (let whole = \<lparr>r_begin = memory_region_begin, r_size = memory_region_size, r_state = kFree\<rparr>;
          A = \<lparr>whole_region = whole, region_size_in_pages = memory_region_size div pagesize,
               max_load_for_randomization = max_load, free_size = 0, page_size = pagesize, all_regions = [], free_regions = [], calls = []\<rparr>
      in if \<not> r_begin whole < r_end whole \<or> \<not> IsPowerOfTwo pagesize \<or> \<not> IsAligned memory_region_size pagesize \<or>
            \<not> IsAligned memory_region_begin pagesize then None
         else FreeListAddRegion (A\<lparr>all_regions := insert_by_end whole (all_regions A)\<rparr>) (r_begin whole))"

definition AllocateRegion :: "RegionAllocator \<Rightarrow> nat \<Rightarrow> (Address \<times> RegionAllocator) option" where
  "AllocateRegion A n =
     (if n = 0 \<or> \<not> IsAligned n (page_size A) then None
      else (case FreeListFindRegion A n of
              None \<Rightarrow> Some (kAllocationFailure, A)
            | Some p \<Rightarrow> do {
                r \<leftarrow> region_at A p;
                A \<leftarrow> (if r_size r \<noteq> n then do { (_, A) \<leftarrow> Split A p n; Some A } else Some A);
                r \<leftarrow> region_at A p;
                if \<not> IsAligned (r_begin r) (page_size A) \<or> r_size r \<noteq> n then None
                else do {
                  A \<leftarrow> FreeListRemoveRegion A p;
                  Some (r_begin r, set_state p kAllocated A) } }))"

definition AllocateRegionAt :: "RegionAllocator \<Rightarrow> Address \<Rightarrow> nat \<Rightarrow> RegionState \<Rightarrow> (bool \<times> RegionAllocator) option" where
  "AllocateRegionAt A requested_address n region_state =
     (if \<not> IsAligned requested_address (page_size A) \<or> n = 0 \<or> \<not> IsAligned n (page_size A) \<or> region_state = kFree then None
      else (let requested_end = add64 requested_address n
            in if requested_end > r_end (whole_region A) then None
               else do {
                 region_iter \<leftarrow> FindRegion A requested_address;
                 case region_iter of
                   None \<Rightarrow> Some (False, A)
                 | Some p \<Rightarrow> do {
                     r \<leftarrow> region_at A p;
                     if r_state r \<noteq> kFree \<or> r_end r < requested_end then Some (False, A)
                     else do {
                       (p, A) \<leftarrow> (if r_begin r \<noteq> requested_address then Split A p (sub64 requested_address (r_begin r)) else Some (p, A));
                       r \<leftarrow> region_at A p;
                       A \<leftarrow> (if r_end r \<noteq> requested_end then do { (_, A) \<leftarrow> Split A p n; Some A } else Some A);
                       r \<leftarrow> region_at A p;
                       if r_begin r \<noteq> requested_address \<or> r_size r \<noteq> n then None
                       else do {
                         A \<leftarrow> FreeListRemoveRegion A p;
                         Some (True, set_state p region_state A) } } } }))"

definition kMaxRandomizationAttempts :: nat where
  [code_defs]: "kMaxRandomizationAttempts = 3"

fun random_attempts :: "RegionAllocator \<Rightarrow> nat list \<Rightarrow> nat \<Rightarrow> (Address option \<times> RegionAllocator) option" where
  "random_attempts A [] n = Some (None, A)"
| "random_attempts A (random # rs) n = (if region_size_in_pages A = 0 then None else do {
     let random_offset = page_size A * (random mod region_size_in_pages A);
     let address = add64 (r_begin (whole_region A)) random_offset;
     (success, A) \<leftarrow> AllocateRegionAt A address n kAllocated;
     if success then Some (Some address, A) else random_attempts A rs n })"

definition AllocateRegion_random :: "RegionAllocator \<Rightarrow> (nat \<Rightarrow> nat) \<Rightarrow> nat \<Rightarrow> (Address \<times> RegionAllocator) option" where
  "AllocateRegion_random A rng n =
     (if free_size A \<ge> max_load_for_randomization A then do {
        (found, A) \<leftarrow> random_attempts A (map rng [0..<kMaxRandomizationAttempts]) n;
        case found of Some address \<Rightarrow> Some (address, A) | None \<Rightarrow> AllocateRegion A n }
      else AllocateRegion A n)"

definition AllocateAlignedRegion :: "RegionAllocator \<Rightarrow> nat \<Rightarrow> nat \<Rightarrow> (Address \<times> RegionAllocator) option" where
  "AllocateAlignedRegion A n alignment =
     (if \<not> IsAligned n (page_size A) \<or> \<not> IsAligned alignment (page_size A) \<or> alignment < page_size A then None
      else (let padded_size = sub64 (add64 n alignment) (page_size A)
            in case FreeListFindRegion A padded_size of
                 None \<Rightarrow> Some (kAllocationFailure, A)
               | Some p \<Rightarrow> do {
                   r \<leftarrow> region_at A p;
                   (p, A) \<leftarrow> (if \<not> IsAligned (r_begin r) alignment then do {
                       start \<leftarrow> RoundUp_address (r_begin r) alignment;
                       (p, A) \<leftarrow> Split A p (sub64 start (r_begin r));
                       if p \<noteq> start \<or> \<not> IsAligned p alignment then None else Some (p, A) }
                     else Some (p, A));
                   r \<leftarrow> region_at A p;
                   A \<leftarrow> (if r_size r \<noteq> n then do { (_, A) \<leftarrow> Split A p n; Some A } else Some A);
                   r \<leftarrow> region_at A p;
                   if \<not> IsAligned (r_begin r) alignment \<or> r_size r \<noteq> n then None
                   else do {
                     A \<leftarrow> FreeListRemoveRegion A p;
                     Some (r_begin r, set_state p kAllocated A) } }))"

definition AllocateRegion_hint :: "RegionAllocator \<Rightarrow> Address \<Rightarrow> nat \<Rightarrow> nat \<Rightarrow> (Address \<times> RegionAllocator) option" where
  "AllocateRegion_hint A hint n alignment =
     (if \<not> IsAligned alignment (page_size A) \<or> \<not> IsAligned hint alignment then None
      else do {
        (success, A) \<leftarrow> (if hint \<noteq> 0 \<and> contains_range (whole_region A) hint n then AllocateRegionAt A hint n kAllocated
                        else Some (False, A));
        if success then Some (hint, A)
        else if alignment \<le> page_size A then AllocateRegion A n
        else AllocateAlignedRegion A n alignment })"

definition TrimRegion :: "RegionAllocator \<Rightarrow> Address \<Rightarrow> nat \<Rightarrow> (nat \<times> RegionAllocator) option" where
  "TrimRegion A address new_size =
     (if \<not> IsAligned new_size (page_size A) then None
      else do {
        region_iter \<leftarrow> FindRegion A address;
        case region_iter of
          None \<Rightarrow> Some (0, A)
        | Some p \<Rightarrow> do {
            r \<leftarrow> region_at A p;
            if r_begin r \<noteq> address \<or> r_state r \<noteq> kAllocated then Some (0, A)
            else if p \<in> set (free_regions A) then None
            else do {
              (p, A) \<leftarrow> (if new_size > 0 then Split A p new_size else Some (p, A));
              r \<leftarrow> region_at A p;
              let n = r_size r;
              let A = set_state p kFree A;
              A \<leftarrow> (if r_end r \<noteq> r_end (whole_region A) then do {
                  next \<leftarrow> next_region p (all_regions A);
                  nr \<leftarrow> region_at A next;
                  if r_state nr = kFree then do {
                    A \<leftarrow> FreeListRemoveRegion A next;
                    Merge A p next }
                  else Some A }
                else Some A);
              (p, A) \<leftarrow> (if new_size = 0 \<and> r_begin r \<noteq> r_begin (whole_region A) then do {
                  prev \<leftarrow> prev_region p (all_regions A);
                  pr \<leftarrow> region_at A prev;
                  if r_state pr = kFree then do {
                    A \<leftarrow> FreeListRemoveRegion A prev;
                    A \<leftarrow> Merge A prev p;
                    Some (prev, A) }
                  else Some (p, A) }
                else Some (p, A));
              A \<leftarrow> FreeListAddRegion A p;
              Some (n, A) } } })"

definition FreeRegion :: "RegionAllocator \<Rightarrow> Address \<Rightarrow> (nat \<times> RegionAllocator) option" where
  "FreeRegion A address = TrimRegion A address 0"

definition CheckRegion :: "RegionAllocator \<Rightarrow> Address \<Rightarrow> nat option" where
  "CheckRegion A address = do {
     region_iter \<leftarrow> FindRegion A address;
     case region_iter of
       None \<Rightarrow> Some 0
     | Some p \<Rightarrow> do {
         r \<leftarrow> region_at A p;
         Some (if r_begin r \<noteq> address \<or> r_state r = kFree then 0 else r_size r) } }"

definition IsFree :: "RegionAllocator \<Rightarrow> Address \<Rightarrow> nat \<Rightarrow> bool option" where
  "IsFree A address n =
     (if \<not> contains_range (whole_region A) address n then None
      else do {
        region_iter \<leftarrow> FindRegion A address;
        case region_iter of
          None \<Rightarrow> Some True
        | Some p \<Rightarrow> do {
            r \<leftarrow> region_at A p;
            Some (r_state r = kFree \<and> contains_range r address n) } })"

end
