(* ===== verification/Region_Allocator_Correct.thy ===== *)
theory Region_Allocator_Correct
  imports Region_Allocator
begin

text \<open>
  The invariant of the region allocator and what its operations do to the regions.
\<close>

section \<open>Alignment\<close>

lemma and_halves:
  "(2 * a) AND (2 * b) = 2 * (a AND b)" "(2 * a) AND (2 * b + 1) = 2 * (a AND b)" "(2 * a + 1) AND (2 * b) = 2 * (a AND b :: nat)"
  by (subst and_rec; simp)+

lemma IsPowerOfTwo_power: "IsPowerOfTwo v \<Longrightarrow> \<exists>k. v = 2 ^ k"
proof (induction v rule: less_induct)
  case (less v)
  then have pos: "0 < v" and a: "v AND (v - 1) = 0" by (simp_all add: IsPowerOfTwo_def)
  show ?case
  proof (cases "even v")
    case True
    then obtain w where w: "v = 2 * w" by (rule evenE)
    with pos have "0 < w" by simp
    then obtain u where u: "w = Suc u" by (cases w) auto
    then have "v - 1 = 2 * u + 1" using w by simp
    with a w u have "w AND (w - 1) = 0" using and_halves(2) [of "Suc u" u] by simp
    with less.IH [of w] \<open>0 < w\<close> w obtain k where "w = 2 ^ k" by (auto simp: IsPowerOfTwo_def)
    with w have "v = 2 ^ Suc k" by simp
    then show ?thesis ..
  next
    case False
    then obtain w where w: "v = 2 * w + 1" by (rule oddE)
    with a and_halves(3) [of w w] have "w = 0" by simp
    with w have "v = 2 ^ 0" by simp
    then show ?thesis ..
  qed
qed

lemma IsAligned_dvd: "IsPowerOfTwo p \<Longrightarrow> IsAligned v p \<longleftrightarrow> p dvd v"
proof -
  assume "IsPowerOfTwo p"
  then obtain k where "p = 2 ^ k" using IsPowerOfTwo_power by blast
  moreover have "v AND (2 ^ k - 1) = v mod 2 ^ k" by (simp add: take_bit_eq_mod [symmetric] take_bit_eq_mask mask_eq_exp_minus_1)
  ultimately show ?thesis by (simp add: IsAligned_def mod_eq_0_iff_dvd)
qed

section \<open>Tilings\<close>

fun tiles :: "nat \<Rightarrow> nat \<Rightarrow> Region list \<Rightarrow> nat \<Rightarrow> bool" where
  "tiles pg s [] e \<longleftrightarrow> s = e"
| "tiles pg s (r # rs) e \<longleftrightarrow> r_begin r = s \<and> 0 < r_size r \<and> pg dvd r_size r \<and> tiles pg (s + r_size r) rs e"

lemma tiles_append: "tiles pg s (xs @ ys) e \<longleftrightarrow> (\<exists>m. tiles pg s xs m \<and> tiles pg m ys e)"
  by (induction xs arbitrary: s) auto

lemma tiles_le: "tiles pg s rs e \<Longrightarrow> s \<le> e"
  by (induction rs arbitrary: s) (auto dest: add_leD1)

lemma tiles_bounds: "tiles pg s rs e \<Longrightarrow> r \<in> set rs \<Longrightarrow> s \<le> r_begin r \<and> r_begin r + r_size r \<le> e \<and> 0 < r_size r"
  by (induction rs arbitrary: s) (use tiles_le in \<open>force+\<close>)

lemma tiles_aligned: "tiles pg s rs e \<Longrightarrow> pg dvd s \<Longrightarrow> r \<in> set rs \<Longrightarrow> pg dvd r_begin r \<and> pg dvd r_size r"
  by (induction rs arbitrary: s) auto

lemma tiles_distinct: "tiles pg s rs e \<Longrightarrow> distinct (map r_begin rs)"
proof (induction rs arbitrary: s)
  case (Cons r rs)
  then have "\<forall>x\<in>set rs. s + r_size r \<le> r_begin x" using tiles_bounds by fastforce
  with Cons show ?case by fastforce
qed simp

lemma tiles_sum: "tiles pg s rs e \<Longrightarrow> s + (\<Sum>r\<leftarrow>rs. r_size r) = e"
  by (induction rs arbitrary: s) (force simp: add.assoc)+

text \<open>The two sides of a region in a tiling.\<close>

lemma tiles_sides:
  assumes "tiles pg s (xs @ r # ys) e"
  shows "tiles pg s xs (r_begin r)" and "tiles pg (r_begin r + r_size r) ys e" and "0 < r_size r" and "pg dvd r_size r"
    and "\<forall>x\<in>set xs. r_begin x + r_size x \<le> r_begin r \<and> r_begin x < r_begin r \<and> 0 < r_size x"
    and "\<forall>y\<in>set ys. r_begin r + r_size r \<le> r_begin y \<and> r_begin r < r_begin y \<and> 0 < r_size y"
proof -
  from assms show l: "tiles pg s xs (r_begin r)" and r: "tiles pg (r_begin r + r_size r) ys e" and p: "0 < r_size r" and "pg dvd r_size r"
    by (auto simp: tiles_append)
  show "\<forall>x\<in>set xs. r_begin x + r_size x \<le> r_begin r \<and> r_begin x < r_begin r \<and> 0 < r_size x"
    using tiles_bounds [OF l] by fastforce
  show "\<forall>y\<in>set ys. r_begin r + r_size r \<le> r_begin y \<and> r_begin r < r_begin y \<and> 0 < r_size y"
    using tiles_bounds [OF r] p by fastforce
qed

lemma find_begin:
  assumes "tiles pg s (xs @ r # ys) e"
  shows "find (\<lambda>x. r_begin x = r_begin r) (xs @ r # ys) = Some r"
proof -
  have "find (\<lambda>x. r_begin x = r_begin r) xs = None" using tiles_sides(5) [OF assms] by (auto simp: find_None_iff)
  then show ?thesis by (induction xs) (auto split: if_splits)
qed

lemma update_begin:
  assumes "tiles pg s (xs @ r # ys) e"
  shows "map (\<lambda>x. if r_begin x = r_begin r then f x else x) (xs @ r # ys) = xs @ f r # ys"
proof -
  have "map (\<lambda>x. if r_begin x = r_begin r then f x else x) xs = xs" "map (\<lambda>x. if r_begin x = r_begin r then f x else x) ys = ys"
    using tiles_sides(5,6) [OF assms] by (fastforce intro: map_idI)+
  then show ?thesis by simp
qed

lemma region_at_find:
  assumes "region_at A p = Some r"
  obtains xs ys where "all_regions A = xs @ r # ys" and "r_begin r = p"
  using assms by (auto simp: region_at_def find_Some_iff dest: id_take_nth_drop)

section \<open>Geometry\<close>

definition shape :: "RegionAllocator \<Rightarrow> Region list \<Rightarrow> bool" where
  "shape A rs \<longleftrightarrow> all_regions A = rs \<and> IsPowerOfTwo (page_size A) \<and> r_begin (whole_region A) + r_size (whole_region A) < 2 ^ 64 \<and>
     page_size A dvd r_begin (whole_region A) \<and>
     tiles (page_size A) (r_begin (whole_region A)) rs (r_begin (whole_region A) + r_size (whole_region A)) \<and>
     0 < r_size (whole_region A) \<and> region_size_in_pages A = r_size (whole_region A) div page_size A"

lemma shapeD:
  assumes "shape A rs"
  shows "all_regions A = rs" and "IsPowerOfTwo (page_size A)" and "r_begin (whole_region A) + r_size (whole_region A) < 2 ^ 64"
    and "page_size A dvd r_begin (whole_region A)"
    and "tiles (page_size A) (r_begin (whole_region A)) rs (r_begin (whole_region A) + r_size (whole_region A))"
    and "0 < r_size (whole_region A)" and "region_size_in_pages A = r_size (whole_region A) div page_size A"
  using assms by (simp_all add: shape_def)

lemma shape_region_at: "shape A (xs @ r # ys) \<Longrightarrow> region_at A (r_begin r) = Some r"
  unfolding region_at_def by (simp only: shapeD(1)) (rule find_begin [OF shapeD(5)])

lemma shape_end:
  assumes "shape A rs" and "r \<in> set rs"
  shows "r_end r = r_begin r + r_size r" and "r_begin r + r_size r < 2 ^ 64"
  using tiles_bounds [OF shapeD(5) [OF assms(1)] assms(2)] shapeD(3) [OF assms(1)] by (simp_all add: r_end_def add64_def)

lemma shape_whole_end: "shape A rs \<Longrightarrow> r_end (whole_region A) = r_begin (whole_region A) + r_size (whole_region A)"
  using shapeD(3) by (simp add: r_end_def add64_def)

lemma insert_by_end_append:
  "\<forall>x\<in>set xs. r_end x < r_end r \<Longrightarrow> insert_by_end r (xs @ ys) = xs @ insert_by_end r ys"
  by (induction xs) auto

lemma shape_split:
  assumes "shape A (xs @ r # ys)" and "page_size A dvd n" and "0 < n" and "n < r_size r"
  defines "new \<equiv> \<lparr>r_begin = add64 (r_begin r) n, r_size = r_size r - n, r_state = r_state r\<rparr>"
  shows "insert_by_end new (xs @ r\<lparr>r_size := n\<rparr> # ys) = xs @ r\<lparr>r_size := n\<rparr> # new # ys"
    and "tiles (page_size A) (r_begin (whole_region A)) (xs @ r\<lparr>r_size := n\<rparr> # new # ys) (r_begin (whole_region A) + r_size (whole_region A))"
    and "r_begin new = r_begin r + n"
proof -
  note t = shapeD(5) [OF assms(1)]
  have r: "r_begin r + r_size r < 2 ^ 64" by (rule shape_end(2) [OF assms(1)]) simp
  then show b: "r_begin new = r_begin r + n" using assms(4) by (simp add: new_def add64_def)
  then have e: "r_end new = r_begin r + r_size r" using r assms(4) by (simp add: r_end_def add64_def new_def)
  have "\<forall>x\<in>set xs. r_end x < r_end new" using tiles_sides(3,5) [OF t] shape_end(1) [OF assms(1)] e by force
  moreover have "r_end (r\<lparr>r_size := n\<rparr>) < r_end new" using r assms(4) e by (simp add: r_end_def add64_def)
  moreover have "insert_by_end new ys = new # ys"
  proof (cases ys)
    case (Cons y zs)
    then have "r_end new < r_end y" using tiles_sides(6) [OF t] shape_end(1) [OF assms(1), of y] e by force
    then show ?thesis using Cons by simp
  qed simp
  ultimately show "insert_by_end new (xs @ r\<lparr>r_size := n\<rparr> # ys) = xs @ r\<lparr>r_size := n\<rparr> # new # ys"
    by (simp add: insert_by_end_append)
  have "page_size A dvd r_size r - n" using tiles_sides(4) [OF t] assms(2) by (rule dvd_diff_nat)
  with t assms(2-4) b show "tiles (page_size A) (r_begin (whole_region A)) (xs @ r\<lparr>r_size := n\<rparr> # new # ys)
      (r_begin (whole_region A) + r_size (whole_region A))"
    by (auto simp: tiles_append new_def)
qed

section \<open>Free list\<close>

definition starts :: "Region list \<Rightarrow> Address set" where
  "starts rs = r_begin ` set rs"

definition free_starts :: "Region list \<Rightarrow> Address set" where
  "free_starts rs = starts (filter (\<lambda>r. r_state r = kFree) rs)"

definition listed :: "RegionAllocator \<Rightarrow> Address set \<Rightarrow> bool" where
  "listed A F \<longleftrightarrow> F \<subseteq> starts (all_regions A) \<and> distinct (free_regions A) \<and> set (free_regions A) = F \<and>
     sorted (map (SizeAddressOrder A) (free_regions A)) \<and> free_size A = (\<Sum>p\<in>F. size_at A p)"

lemma region_at_fields [simp]:
  "region_at (A\<lparr>free_size := u\<rparr>) = region_at A" "region_at (A\<lparr>free_regions := v\<rparr>) = region_at A" "region_at (A\<lparr>calls := w\<rparr>) = region_at A"
  by (simp_all add: region_at_def fun_eq_iff)

lemma size_at_fields [simp]:
  "size_at (A\<lparr>free_size := u\<rparr>) = size_at A" "size_at (A\<lparr>free_regions := v\<rparr>) = size_at A" "size_at (A\<lparr>calls := w\<rparr>) = size_at A"
  "SizeAddressOrder (A\<lparr>free_size := u\<rparr>) = SizeAddressOrder A" "SizeAddressOrder (A\<lparr>free_regions := v\<rparr>) = SizeAddressOrder A"
  "SizeAddressOrder (A\<lparr>calls := w\<rparr>) = SizeAddressOrder A"
  by (simp_all add: size_at_def SizeAddressOrder_def fun_eq_iff)

lemma shape_fields [simp]:
  "shape (A\<lparr>free_size := u\<rparr>) rs = shape A rs" "shape (A\<lparr>free_regions := v\<rparr>) rs = shape A rs" "shape (A\<lparr>calls := w\<rparr>) rs = shape A rs"
  by (simp_all add: shape_def)

lemma listed_calls [simp]: "listed (A\<lparr>calls := w\<rparr>) F = listed A F"
  by (simp add: listed_def)

lemma listed_finite: "listed A F \<Longrightarrow> finite F"
  by (auto simp: listed_def)

lemma shape_size_at: "shape A (xs @ r # ys) \<Longrightarrow> size_at A (r_begin r) = r_size r"
  by (simp add: size_at_def shape_region_at)

lemma shape_size_at_mem: "shape A rs \<Longrightarrow> r \<in> set rs \<Longrightarrow> size_at A (r_begin r) = r_size r"
  by (metis shape_size_at split_list)

lemma sizes_le_whole:
  assumes "shape A rs" and "F \<subseteq> starts rs"
  shows "(\<Sum>p\<in>F. size_at A p) \<le> r_size (whole_region A)"
proof -
  note t = shapeD(5) [OF assms(1)]
  have "(\<Sum>p\<in>F. size_at A p) \<le> (\<Sum>p\<in>starts rs. size_at A p)" by (rule sum_mono2) (use assms(2) in \<open>simp_all add: starts_def\<close>)
  also have "\<dots> = (\<Sum>p\<leftarrow>map r_begin rs. size_at A p)"
    using sum.distinct_set_conv_list [OF tiles_distinct [OF t], of "size_at A"] by (simp add: starts_def)
  also have "\<dots> = (\<Sum>r\<leftarrow>rs. r_size r)" using shape_size_at_mem [OF assms(1)] by (simp add: comp_def cong: map_cong)
  also have "\<dots> = r_size (whole_region A)" using tiles_sum [OF t] by simp
  finally show ?thesis .
qed

lemma FreeListRemoveRegion_ok:
  assumes "listed A F" and "r_begin r \<in> F" and "region_at A (r_begin r) = Some r" and "r_state r = kFree"
  obtains A' where "FreeListRemoveRegion A (r_begin r) = Some A'" and "listed A' (F - {r_begin r})"
    and "\<exists>u v. A' = A\<lparr>free_size := u, free_regions := v\<rparr>"
proof -
  let ?p = "r_begin r"
  let ?A = "A\<lparr>free_size := free_size A - r_size r, free_regions := remove1 ?p (free_regions A)\<rparr>"
  have s: "size_at A ?p = r_size r" by (simp add: size_at_def assms(3))
  have sum: "free_size A = r_size r + (\<Sum>p\<in>F - {?p}. size_at A p)"
    using assms(1,2) sum.remove [OF listed_finite [OF assms(1)] assms(2), of "size_at A"] s by (simp add: listed_def)
  have "FreeListRemoveRegion A ?p = Some ?A"
    using assms sum by (simp add: FreeListRemoveRegion_def listed_def)
  moreover have "listed ?A (F - {?p})"
    using assms(1) sum by (auto simp: listed_def sorted_map_remove1)
  ultimately show thesis using that by blast
qed

lemma FreeListAddRegion_ok:
  assumes "shape A rs" and "listed A F" and "r \<in> set rs" and "r_begin r \<notin> F"
  obtains A' where "FreeListAddRegion A (r_begin r) = Some A'" and "listed A' (insert (r_begin r) F)"
    and "\<exists>u v. A' = A\<lparr>free_size := u, free_regions := v\<rparr>"
proof -
  let ?p = "r_begin r"
  let ?A = "A\<lparr>free_size := add64 (free_size A) (r_size r), free_regions := insort_key (SizeAddressOrder A) ?p (free_regions A)\<rparr>"
  have at: "region_at A ?p = Some r" using assms(1,3) shape_region_at by (metis split_list)
  then have s: "size_at A ?p = r_size r" by (simp add: size_at_def)
  have sub: "insert ?p F \<subseteq> starts rs" using assms(1-3) shapeD(1) [OF assms(1)] by (auto simp: listed_def starts_def)
  have sum: "free_size A + r_size r = (\<Sum>p\<in>insert ?p F. size_at A p)"
    using assms(2,4) listed_finite [OF assms(2)] s by (simp add: listed_def)
  have "free_size A + r_size r < 2 ^ 64"
    using sizes_le_whole [OF assms(1) sub] sum shapeD(3) [OF assms(1)] by linarith
  then have "add64 (free_size A) (r_size r) = (\<Sum>p\<in>insert ?p F. size_at A p)" using sum by (simp add: add64_def)
  moreover have "FreeListAddRegion A ?p = Some ?A" by (simp add: FreeListAddRegion_def at)
  ultimately have "listed ?A (insert ?p F)"
    using assms(2,4) sub shapeD(1) [OF assms(1)] by (auto simp: listed_def sorted_insort_key set_insort_key distinct_insort)
  with \<open>FreeListAddRegion A ?p = Some ?A\<close> that show thesis by blast
qed

text \<open>Changes of regions outside of the free list do not affect it.\<close>

lemma listed_regions:
  assumes "listed A F" and "\<forall>p\<in>F. region_at A' p \<noteq> None \<and> size_at A' p = size_at A p"
    and "free_regions A' = free_regions A" and "free_size A' = free_size A"
  shows "listed A' F"
proof -
  have "map (SizeAddressOrder A') (free_regions A') = map (SizeAddressOrder A) (free_regions A)"
    using assms by (auto simp: listed_def SizeAddressOrder_def)
  moreover have "F \<subseteq> starts (all_regions A')"
    using assms(2) by (auto simp: region_at_def find_Some_iff starts_def)
  ultimately show ?thesis using assms unfolding listed_def by (simp del: map_eq_conv)
qed

lemma listed_shape:
  assumes "listed A F" and "shape A rs" and "shape A' rs'" and "\<forall>r\<in>set rs. r_begin r \<in> F \<longrightarrow> r \<in> set rs'"
    and "free_regions A' = free_regions A" and "free_size A' = free_size A"
  shows "listed A' F"
proof (rule listed_regions [OF assms(1) _ assms(5,6)], rule ballI)
  fix p assume "p \<in> F"
  then obtain r where r: "r \<in> set rs" "r_begin r = p" using assms(1) shapeD(1) [OF assms(2)] by (auto simp: listed_def starts_def)
  with assms(4) \<open>p \<in> F\<close> have "r \<in> set rs'" by blast
  then obtain xs ys where "rs' = xs @ r # ys" by (meson split_list)
  with shape_region_at assms(3) r(2) have "region_at A' p = Some r" by blast
  then show "region_at A' p \<noteq> None \<and> size_at A' p = size_at A p"
    using shape_size_at_mem [OF assms(2) r(1)] r(2) by (simp add: size_at_def)
qed

section \<open>Splitting, merging and taking regions\<close>

definition config :: "RegionAllocator \<Rightarrow> Region \<times> nat \<times> nat \<times> nat" where
  "config A = (whole_region A, region_size_in_pages A, max_load_for_randomization A, page_size A)"

lemma config_fields [simp]:
  "config (A\<lparr>free_size := u\<rparr>) = config A" "config (A\<lparr>free_regions := v\<rparr>) = config A" "config (A\<lparr>calls := w\<rparr>) = config A"
  "config (A\<lparr>all_regions := rs\<rparr>) = config A"
  by (simp_all add: config_def)

lemma shape_regions:
  assumes "shape A rs" and "tiles (page_size A) (r_begin (whole_region A)) rs' (r_begin (whole_region A) + r_size (whole_region A))"
  shows "shape (A\<lparr>all_regions := rs'\<rparr>) rs'"
  using assms by (simp add: shape_def)

lemma update_region_eq:
  assumes "shape A (xs @ r # ys)"
  shows "update_region (r_begin r) f A = A\<lparr>all_regions := xs @ f r # ys\<rparr>"
  unfolding update_region_def using update_begin [OF shapeD(5) [OF assms]] shapeD(1) [OF assms] by simp

lemma shape_state:
  assumes "shape A (xs @ r # ys)"
  shows "shape (set_state (r_begin r) st A) (xs @ r\<lparr>r_state := st\<rparr> # ys)"
proof -
  have "tiles (page_size A) (r_begin (whole_region A)) (xs @ r\<lparr>r_state := st\<rparr> # ys) (r_begin (whole_region A) + r_size (whole_region A))"
    using shapeD(5) [OF assms] by (simp add: tiles_append)
  then show ?thesis unfolding set_state_def update_region_eq [OF assms] by (rule shape_regions [OF assms])
qed

lemma Split_regions:
  assumes "shape A (xs @ r # ys)" and "page_size A dvd n" and "0 < n" and "n < r_size r"
  defines "new \<equiv> \<lparr>r_begin = r_begin r + n, r_size = r_size r - n, r_state = r_state r\<rparr>"
  shows "(set_size (r_begin r) n A)\<lparr>all_regions := insert_by_end \<lparr>r_begin = add64 (r_begin r) n, r_size = r_size r - n, r_state = r_state r\<rparr>
      (all_regions (set_size (r_begin r) n A))\<rparr> = A\<lparr>all_regions := xs @ r\<lparr>r_size := n\<rparr> # new # ys\<rparr>"
    and "shape (A\<lparr>all_regions := xs @ r\<lparr>r_size := n\<rparr> # new # ys\<rparr>) (xs @ r\<lparr>r_size := n\<rparr> # new # ys)"
    and "add64 (r_begin r) n = r_begin r + n"
proof -
  show a: "add64 (r_begin r) n = r_begin r + n" using shape_split(3) [OF assms(1-4)] by simp
  note split = shape_split(1,2) [OF assms(1-4), unfolded a, folded new_def]
  show "(set_size (r_begin r) n A)\<lparr>all_regions := insert_by_end \<lparr>r_begin = add64 (r_begin r) n, r_size = r_size r - n, r_state = r_state r\<rparr>
      (all_regions (set_size (r_begin r) n A))\<rparr> = A\<lparr>all_regions := xs @ r\<lparr>r_size := n\<rparr> # new # ys\<rparr>"
    unfolding set_size_def update_region_eq [OF assms(1)] a using split(1) by (simp add: new_def)
  show "shape (A\<lparr>all_regions := xs @ r\<lparr>r_size := n\<rparr> # new # ys\<rparr>) (xs @ r\<lparr>r_size := n\<rparr> # new # ys)"
    by (rule shape_regions [OF assms(1) split(2)])
qed

lemma new_start:
  assumes "shape A (xs @ r # ys)" and "0 < n" and "n < r_size r"
  shows "r_begin r + n \<notin> starts (xs @ r # ys)"
  using tiles_sides(5,6) [OF shapeD(5) [OF assms(1)]] assms(2,3) by (fastforce simp: starts_def)

lemma Split_ok:
  assumes "shape A (xs @ r # ys)" and "listed A F" and "r_state r \<noteq> kExcluded" and "r_state r = kFree \<longleftrightarrow> r_begin r \<in> F"
    and "page_size A dvd n" and "0 < n" and "n < r_size r"
  obtains A' where "Split A (r_begin r) n = Some (r_begin r + n, A')" and "config A' = config A"
    and "shape A' (xs @ r\<lparr>r_size := n\<rparr> # \<lparr>r_begin = r_begin r + n, r_size = r_size r - n, r_state = r_state r\<rparr> # ys)"
    and "listed A' (if r_state r = kFree then insert (r_begin r + n) F else F)"
    and "calls A' = calls A @ [OnSplit (r_begin r) n]"
proof -
  let ?p = "r_begin r" and ?new = "\<lparr>r_begin = r_begin r + n, r_size = r_size r - n, r_state = r_state r\<rparr>"
  let ?rs = "xs @ r\<lparr>r_size := n\<rparr> # ?new # ys" and ?A1 = "A\<lparr>calls := calls A @ [OnSplit (r_begin r) n]\<rparr>"
  have al: "IsAligned n (page_size A)" using IsAligned_dvd [OF shapeD(2) [OF assms(1)]] assms(5) by simp
  have at: "region_at A ?p = Some r" by (rule shape_region_at [OF assms(1)])
  have s1: "shape ?A1 (xs @ r # ys)" "listed ?A1 F" using assms(1,2) by simp_all
  have other: "\<forall>x\<in>set (xs @ r # ys). r_begin x \<noteq> ?p \<longrightarrow> x \<in> set ?rs" by auto
  show thesis
  proof (cases "r_state r = kFree")
    case False
    let ?A' = "?A1\<lparr>all_regions := ?rs\<rparr>"
    have s': "shape ?A' ?rs" using Split_regions(2) [OF s1(1), of n] assms(5-7) by simp
    have "listed ?A' F" by (rule listed_shape [OF s1(2,1) s']) (use other False assms(4) in auto)
    moreover have "Split A ?p n = Some (?p + n, ?A')"
      using False assms(3,6,7) al at Split_regions(1,3) [OF s1(1), of n] assms(5) by (simp add: Split_def Let_def)
    ultimately show thesis using that [of ?A'] s' False by simp
  next
    case True
    have F: "?p \<in> F" using True assms(4) by simp
    from FreeListRemoveRegion_ok [OF s1(2) F _ True] at obtain A2 where
      A2: "FreeListRemoveRegion ?A1 ?p = Some A2" "listed A2 (F - {?p})" "\<exists>u v. A2 = ?A1\<lparr>free_size := u, free_regions := v\<rparr>" by auto
    then have s2: "shape A2 (xs @ r # ys)" and p2: "page_size A2 = page_size A" "config A2 = config A" "calls A2 = calls ?A1" using s1(1) by auto
    let ?A3 = "A2\<lparr>all_regions := ?rs\<rparr>"
    have s3: "shape ?A3 ?rs" using Split_regions(2) [OF s2, of n] assms(5-7) p2 by simp
    have l3: "listed ?A3 (F - {?p})" by (rule listed_shape [OF A2(2) s2 s3]) (use other in auto)
    from FreeListAddRegion_ok [OF s3 l3, of "r\<lparr>r_size := n\<rparr>"] F obtain A4 where
      A4: "FreeListAddRegion ?A3 ?p = Some A4" "listed A4 F" "\<exists>u v. A4 = ?A3\<lparr>free_size := u, free_regions := v\<rparr>"
      by (auto simp: insert_absorb)
    then have s4: "shape A4 ?rs" using s3 by auto
    have "?p + n \<notin> F" using new_start [OF assms(1,6,7)] assms(2) shapeD(1) [OF assms(1)] by (auto simp: listed_def)
    with FreeListAddRegion_ok [OF s4 A4(2), of ?new] obtain A5 where
      A5: "FreeListAddRegion A4 (?p + n) = Some A5" "listed A5 (insert (?p + n) F)" "\<exists>u v. A5 = A4\<lparr>free_size := u, free_regions := v\<rparr>"
      by auto
    have "Split A ?p n = Some (?p + n, A5)"
      using True assms(6,7) al at Split_regions(1,3) [OF s2, of n] assms(5) p2 A2(1) A4(1) A5(1) by (simp add: Split_def Let_def)
    moreover have "shape A5 ?rs" "config A5 = config A" "calls A5 = calls A @ [OnSplit ?p n]" using s4 A4(3) A5(3) p2 by auto
    ultimately show thesis using that [of A5] A5(2) True by simp
  qed
qed

lemma Merge_ok:
  assumes "shape A (xs @ r # n # ys)" and "listed A F" and "r_begin r \<notin> F" and "r_begin n \<notin> F"
  obtains A' where "Merge A (r_begin r) (r_begin n) = Some A'" and "config A' = config A"
    and "shape A' (xs @ r\<lparr>r_size := r_size r + r_size n\<rparr> # ys)" and "listed A' F"
    and "calls A' = calls A @ [OnMerge (r_begin r) (r_size r + r_size n)]"
proof -
  let ?rs = "xs @ r\<lparr>r_size := r_size r + r_size n\<rparr> # ys"
  let ?A1 = "A\<lparr>calls := calls A @ [OnMerge (r_begin r) (r_size r + r_size n)]\<rparr>"
  have s': "shape A ((xs @ [r]) @ n # ys)" using assms(1) by simp
  note t = shapeD(5) [OF assms(1)] and t' = shapeD(5) [OF s']
  have nb: "r_begin n = r_begin r + r_size r" using t by (auto simp: tiles_append)
  have e: "r_end r = r_begin r + r_size r" using shape_end(1) [OF assms(1), of r] by simp
  have fits: "r_size r + r_size n < 2 ^ 64" using shape_end(2) [OF assms(1), of n] nb by simp
  have at: "region_at A (r_begin r) = Some r" "region_at A (r_begin n) = Some n"
    using shape_region_at [OF assms(1)] shape_region_at [OF s'] .
  have tiles: "tiles (page_size A) (r_begin (whole_region A)) ?rs (r_begin (whole_region A) + r_size (whole_region A))"
    using t by (auto simp: tiles_append add.assoc)
  have "filter (\<lambda>x. r_begin x \<noteq> r_begin n) xs = xs" "filter (\<lambda>x. r_begin x \<noteq> r_begin n) ys = ys"
    using tiles_sides(5,6) [OF t'] by (auto intro!: filter_True)
  moreover have "r_begin r \<noteq> r_begin n" using nb tiles_sides(3) [OF t] by simp
  ultimately have f: "filter (\<lambda>x. r_begin x \<noteq> r_begin n) (xs @ r\<lparr>r_size := r_size r + r_size n\<rparr> # n # ys) = ?rs" by simp
  let ?A' = "?A1\<lparr>all_regions := ?rs\<rparr>"
  have s1: "shape ?A1 (xs @ r # n # ys)" using assms(1) by simp
  have "set_size (r_begin r) (r_size r + r_size n) ?A1 = ?A1\<lparr>all_regions := xs @ r\<lparr>r_size := r_size r + r_size n\<rparr> # n # ys\<rparr>"
    unfolding set_size_def by (rule update_region_eq [OF s1])
  then have "Merge A (r_begin r) (r_begin n) = Some ?A'"
    using at e nb fits f assms(2,4) by (simp add: Merge_def Let_def add64_def listed_def)
  moreover have sh: "shape ?A' ?rs" by (rule shape_regions [OF s1]) (use tiles in simp)
  moreover have "listed ?A' F" by (rule listed_shape [OF _ s1 sh]) (use assms(2-4) in auto)
  ultimately show thesis using that [of ?A'] by simp
qed

lemma take_ok:
  assumes "shape A (xs @ r # ys)" and "listed A F" and "r_begin r \<in> F" and "r_state r = kFree"
  obtains A' where "FreeListRemoveRegion A (r_begin r) = Some A'" and "config (set_state (r_begin r) st A') = config A"
    and "shape (set_state (r_begin r) st A') (xs @ r\<lparr>r_state := st\<rparr> # ys)" and "listed (set_state (r_begin r) st A') (F - {r_begin r})"
    and "calls (set_state (r_begin r) st A') = calls A"
proof -
  from FreeListRemoveRegion_ok [OF assms(2,3) shape_region_at [OF assms(1)] assms(4)] obtain A' where
    A': "FreeListRemoveRegion A (r_begin r) = Some A'" "listed A' (F - {r_begin r})" "\<exists>u v. A' = A\<lparr>free_size := u, free_regions := v\<rparr>" by blast
  then have s: "shape A' (xs @ r # ys)" using assms(1) by auto
  let ?A = "set_state (r_begin r) st A'"
  have s': "shape ?A (xs @ r\<lparr>r_state := st\<rparr> # ys)" by (rule shape_state [OF s])
  have eq: "?A = A'\<lparr>all_regions := xs @ r\<lparr>r_state := st\<rparr> # ys\<rparr>" unfolding set_state_def by (rule update_region_eq [OF s])
  have "listed ?A (F - {r_begin r})" by (rule listed_shape [OF A'(2) s s']) (auto simp: eq)
  moreover have "config ?A = config A" "calls ?A = calls A" using A'(3) by (auto simp: eq)
  ultimately show thesis using that [OF A'(1)] s' by blast
qed

section \<open>The invariant\<close>

fun coalesced :: "Region list \<Rightarrow> bool" where
  "coalesced (x # y # rs) \<longleftrightarrow> \<not> (r_state x = kFree \<and> r_state y = kFree) \<and> coalesced (y # rs)"
| "coalesced _ \<longleftrightarrow> True"

definition wf_allocator :: "RegionAllocator \<Rightarrow> bool" where
  "wf_allocator A \<longleftrightarrow> shape A (all_regions A) \<and> listed A (free_starts (all_regions A)) \<and> coalesced (all_regions A)"

lemma starts_simps [simp]: "starts [] = {}" "starts (r # rs) = insert (r_begin r) (starts rs)" "starts (xs @ ys) = starts xs \<union> starts ys"
  by (auto simp: starts_def)

lemma free_starts_simps [simp]:
  "free_starts [] = {}" "free_starts (r # rs) = (if r_state r = kFree then insert (r_begin r) (free_starts rs) else free_starts rs)"
  "free_starts (xs @ ys) = free_starts xs \<union> free_starts ys"
  by (auto simp: free_starts_def)

lemma coalesced_append:
  "coalesced (xs @ ys) \<longleftrightarrow> coalesced xs \<and> coalesced ys \<and> (xs \<noteq> [] \<and> ys \<noteq> [] \<longrightarrow> \<not> (r_state (last xs) = kFree \<and> r_state (hd ys) = kFree))"
proof (induction xs)
  case (Cons x xs)
  then show ?case by (cases xs; cases ys) auto
qed simp

text \<open>Names on either side of a region.\<close>

lemma other_starts:
  assumes "tiles pg s (xs @ r # ys) e"
  shows "r_begin r \<notin> free_starts xs" and "r_begin r \<notin> free_starts ys"
  using tiles_sides(5,6) [OF assms] by (fastforce simp: free_starts_def starts_def)+

lemma wf_region:
  assumes "wf_allocator A" and "all_regions A = xs @ r # ys"
  shows "shape A (xs @ r # ys)" and "listed A (free_starts (xs @ r # ys))" and "coalesced (xs @ r # ys)" and "r_state r = kFree \<longleftrightarrow> r_begin r \<in> free_starts (xs @ r # ys)"
proof -
  show s: "shape A (xs @ r # ys)" "listed A (free_starts (xs @ r # ys))" "coalesced (xs @ r # ys)"
    using assms by (simp_all add: wf_allocator_def)
  show "r_state r = kFree \<longleftrightarrow> r_begin r \<in> free_starts (xs @ r # ys)"
    using other_starts [OF shapeD(5) [OF s(1)]] by simp
qed

lemma wfI: "shape A rs \<Longrightarrow> listed A F \<Longrightarrow> F = free_starts rs \<Longrightarrow> coalesced rs \<Longrightarrow> wf_allocator A"
  using shapeD(1) by (fastforce simp: wf_allocator_def)

text \<open>Best fit: the first name in the order of size and address whose region is large enough.\<close>

lemma FreeListFindRegion_None:
  assumes "wf_allocator A"
  shows "FreeListFindRegion A n = None \<longleftrightarrow> (\<forall>r\<in>set (all_regions A). r_state r = kFree \<longrightarrow> r_size r < n)"
proof -
  have s: "shape A (all_regions A)" and l: "set (free_regions A) = free_starts (all_regions A)"
    using assms by (simp_all add: wf_allocator_def listed_def)
  then show ?thesis
    unfolding FreeListFindRegion_def find_None_iff by (auto simp: free_starts_def starts_def shape_size_at_mem [OF s] not_le)
qed

lemma FreeListFindRegion_Some:
  assumes "wf_allocator A" and "FreeListFindRegion A n = Some p"
  obtains xs r ys where "all_regions A = xs @ r # ys" and "r_begin r = p" and "r_state r = kFree" and "n \<le> r_size r"
    and "\<forall>r'\<in>set (all_regions A). r_state r' = kFree \<and> n \<le> r_size r' \<longrightarrow> (r_size r, r_begin r) \<le> (r_size r', r_begin r')"
proof -
  have s: "shape A (all_regions A)" and l: "set (free_regions A) = free_starts (all_regions A)"
    and sorted: "sorted (map (SizeAddressOrder A) (free_regions A))"
    using assms(1) by (simp_all add: wf_allocator_def listed_def)
  from assms(2) obtain i where i: "i < length (free_regions A)" "free_regions A ! i = p" "n \<le> size_at A p"
    "\<forall>j<i. \<not> n \<le> size_at A (free_regions A ! j)" by (auto simp: FreeListFindRegion_def find_Some_iff)
  then have "p \<in> free_starts (all_regions A)" using l by (metis nth_mem)
  then obtain r where r: "r \<in> set (all_regions A)" "r_state r = kFree" "r_begin r = p" by (auto simp: free_starts_def starts_def)
  have best: "(r_size r, r_begin r) \<le> (r_size r', r_begin r')" if r': "r' \<in> set (all_regions A)" "r_state r' = kFree" "n \<le> r_size r'" for r'
  proof -
    have "r_begin r' \<in> set (free_regions A)" using r' l by (auto simp: free_starts_def starts_def)
    then obtain j where j: "j < length (free_regions A)" "free_regions A ! j = r_begin r'" by (auto simp: in_set_conv_nth)
    then have "i \<le> j" using i(4) r'(1,3) shape_size_at_mem [OF s r'(1)] by (metis not_le)
    with sorted j(1) have "SizeAddressOrder A (free_regions A ! i) \<le> SizeAddressOrder A (free_regions A ! j)"
      using sorted_nth_mono [OF sorted, of i j] i(1) by simp
    then show ?thesis using i(2) j(2) r(3) shape_size_at_mem [OF s r(1)] shape_size_at_mem [OF s r'(1)] by (simp add: SizeAddressOrder_def)
  qed
  from r(1) obtain xs ys where "all_regions A = xs @ r # ys" by (meson split_list)
  with that r best i(3) shape_size_at_mem [OF s r(1)] show thesis by auto
qed

section \<open>Carving a range out of a free region\<close>

definition left_part :: "Region \<Rightarrow> Address \<Rightarrow> Region list" where
  "left_part r a = (if a = r_begin r then [] else [\<lparr>r_begin = r_begin r, r_size = a - r_begin r, r_state = kFree\<rparr>])"

definition right_part :: "Region \<Rightarrow> Address \<Rightarrow> Region list" where
  "right_part r b = (if b = r_begin r + r_size r then [] else [\<lparr>r_begin = b, r_size = r_begin r + r_size r - b, r_state = kFree\<rparr>])"

definition carve :: "Region \<Rightarrow> Address \<Rightarrow> nat \<Rightarrow> RegionState \<Rightarrow> Region list" where
  "carve r a n st = left_part r a @ \<lparr>r_begin = a, r_size = n, r_state = st\<rparr> # right_part r (a + n)"

lemma carve_tail:
  assumes "shape A (xs @ r # ys)" and "listed A F" and "r_state r = kFree" and "r_begin r \<in> F" and "page_size A dvd n" and "0 < n" and "n \<le> r_size r"
  obtains A1 A2 where "(if r_size r \<noteq> n then do { (_, A) \<leftarrow> Split A (r_begin r) n; Some A } else Some A) = Some A1"
    and "region_at A1 (r_begin r) = Some (r\<lparr>r_size := n\<rparr>)" and "page_size A1 = page_size A" and "FreeListRemoveRegion A1 (r_begin r) = Some A2"
    and "config (set_state (r_begin r) st A2) = config A"
    and "shape (set_state (r_begin r) st A2) (xs @ r\<lparr>r_size := n, r_state := st\<rparr> # right_part r (r_begin r + n) @ ys)"
    and "listed (set_state (r_begin r) st A2) (F - {r_begin r} \<union> starts (right_part r (r_begin r + n)))"
proof (cases "r_size r = n")
  case True
  from take_ok [OF assms(1,2,4,3), of st] obtain A' where
    A': "FreeListRemoveRegion A (r_begin r) = Some A'" "config (set_state (r_begin r) st A') = config A"
    "shape (set_state (r_begin r) st A') (xs @ r\<lparr>r_state := st\<rparr> # ys)" "listed (set_state (r_begin r) st A') (F - {r_begin r})" by blast
  then show thesis using that [of A A', unfolded True [symmetric]] shape_region_at [OF assms(1)] by (simp add: right_part_def)
next
  case False
  let ?new = "\<lparr>r_begin = r_begin r + n, r_size = r_size r - n, r_state = r_state r\<rparr>"
  have "n < r_size r" "r_state r \<noteq> kExcluded" "r_state r = kFree \<longleftrightarrow> r_begin r \<in> F" using False assms(3,4,7) by auto
  from Split_ok [OF assms(1,2) this(2,3) assms(5,6) this(1)] obtain A1 where
    A1: "Split A (r_begin r) n = Some (r_begin r + n, A1)" "config A1 = config A" "shape A1 (xs @ r\<lparr>r_size := n\<rparr> # ?new # ys)"
    "listed A1 (insert (r_begin r + n) F)" using assms(3) by auto
  from take_ok [OF A1(3,4), of st] assms(3,4) obtain A' where
    A': "FreeListRemoveRegion A1 (r_begin r) = Some A'" "config (set_state (r_begin r) st A') = config A1"
    "shape (set_state (r_begin r) st A') (xs @ r\<lparr>r_size := n, r_state := st\<rparr> # ?new # ys)"
    "listed (set_state (r_begin r) st A') (insert (r_begin r + n) F - {r_begin r})" by auto
  have right: "right_part r (r_begin r + n) = [?new]" using False assms(3,7) by (simp add: right_part_def)
  have "insert (r_begin r + n) F - {r_begin r} = F - {r_begin r} \<union> starts (right_part r (r_begin r + n))" using right assms(6) by auto
  moreover have "page_size A1 = page_size A" using A1(2) by (simp add: config_def)
  ultimately show thesis using that [of A1 A'] False A1 A' right shape_region_at [OF A1(3)] by simp
qed

lemma carved_wf:
  assumes "wf_allocator A" and "all_regions A = xs @ r # ys" and "r_state r = kFree" and "st \<noteq> kFree" and "r_begin r \<le> a" and "0 < n"
    and "shape A' (xs @ carve r a n st @ ys)" and "listed A' (free_starts (xs @ ys) \<union> starts (left_part r a) \<union> starts (right_part r (a + n)))"
  shows "wf_allocator A'"
proof (rule wfI [OF assms(7,8)])
  show "free_starts (xs @ ys) \<union> starts (left_part r a) \<union> starts (right_part r (a + n)) = free_starts (xs @ carve r a n st @ ys)"
    using assms(4) by (auto simp: carve_def left_part_def right_part_def)
  have c: "coalesced (xs @ r # ys)" using assms(1,2) by (simp add: wf_allocator_def)
  then show "coalesced (xs @ carve r a n st @ ys)" using assms(3,4)
    by (cases ys) (auto simp: carve_def left_part_def right_part_def coalesced_append)
qed

lemma AllocateRegion_ok:
  assumes "wf_allocator A" and "page_size A dvd n" and "0 < n" and "FreeListFindRegion A n = Some p"
    and "all_regions A = xs @ r # ys" and "r_begin r = p" and "r_state r = kFree" and "n \<le> r_size r"
  obtains A' where "AllocateRegion A n = Some (p, A')" and "wf_allocator A'" and "config A' = config A"
    and "all_regions A' = xs @ carve r p n kAllocated @ ys"
proof -
  note wf = wf_region [OF assms(1,5)]
  note pow = shapeD(2) [OF wf(1)]
  have F: "r_begin r \<in> free_starts (xs @ r # ys)" using wf(4) assms(7) by simp
  from carve_tail [OF wf(1,2) assms(7) F assms(2,3,8), of kAllocated] obtain A1 A2 where
    A: "(if r_size r \<noteq> n then do { (_, A) \<leftarrow> Split A (r_begin r) n; Some A } else Some A) = Some A1"
    "region_at A1 (r_begin r) = Some (r\<lparr>r_size := n\<rparr>)" "page_size A1 = page_size A" "FreeListRemoveRegion A1 (r_begin r) = Some A2"
    "config (set_state (r_begin r) kAllocated A2) = config A"
    "shape (set_state (r_begin r) kAllocated A2) (xs @ r\<lparr>r_size := n, r_state := kAllocated\<rparr> # right_part r (r_begin r + n) @ ys)"
    "listed (set_state (r_begin r) kAllocated A2) (free_starts (xs @ r # ys) - {r_begin r} \<union> starts (right_part r (r_begin r + n)))" by blast
  let ?A = "set_state (r_begin r) kAllocated A2"
  have al: "IsAligned n (page_size A)" "IsAligned p (page_size A)"
    using IsAligned_dvd [OF pow] assms(2,6) tiles_aligned [OF shapeD(5,4) [OF wf(1)], of r] by simp_all
  have "AllocateRegion A n = Some (p, ?A)"
    unfolding AllocateRegion_def using assms(3,4,6) al shape_region_at [OF wf(1)] A(2-4)
    by (simp add: A(1) [unfolded assms(6)] split del: if_split)
  have carve: "xs @ r\<lparr>r_size := n, r_state := kAllocated\<rparr> # right_part r (r_begin r + n) @ ys = xs @ carve r p n kAllocated @ ys"
    using assms(6) by (cases r) (simp add: carve_def left_part_def)
  note s' = A(6) [unfolded carve]
  have l': "listed ?A (free_starts (xs @ ys) \<union> starts (left_part r p) \<union> starts (right_part r (p + n)))"
    using A(7) other_starts [OF shapeD(5) [OF wf(1)]] assms(6,7) by (simp add: left_part_def insert_Diff_if)
  have "wf_allocator ?A" by (rule carved_wf [OF assms(1,5,7) _ _ assms(3) s' l']) (simp_all add: assms(6))
  with \<open>AllocateRegion A n = Some (p, ?A)\<close> show thesis using that [of ?A] A(5) shapeD(1) [OF s'] by simp
qed

section \<open>Allocation at an address\<close>

lemma sub64_le: "b \<le> a \<Longrightarrow> a < 2 ^ 64 \<Longrightarrow> sub64 a b = a - b"
  by (simp add: sub64_def mod_if)

lemma contains_iff:
  assumes "r_begin r + r_size r < 2 ^ 64" and "a < 2 ^ 64"
  shows "contains r a \<longleftrightarrow> r_begin r \<le> a \<and> a < r_begin r + r_size r"
proof (cases "r_begin r \<le> a")
  case True
  then show ?thesis using assms by (auto simp: contains_def sub64_le)
next
  case False
  then have "sub64 a (r_begin r) = a + 2 ^ 64 - r_begin r" using assms by (simp add: sub64_def)
  then show ?thesis using False assms by (simp add: contains_def)
qed

lemma tiles_cover:
  assumes "tiles pg s rs e" and "s \<le> a" and "a < e"
  obtains xs r ys where "rs = xs @ r # ys" and "r_begin r \<le> a" and "a < r_begin r + r_size r"
  using assms
proof (induction rs arbitrary: s thesis)
  case (Cons x rs)
  show ?case
  proof (cases "a < s + r_size x")
    case True
    then show ?thesis using Cons.prems(1) [of "[]" x rs] Cons.prems(2,3) by simp
  next
    case False
    have "tiles pg (s + r_size x) rs e" "s + r_size x \<le> a" using Cons.prems(2) False by auto
    from Cons.IH [OF _ this Cons.prems(4)] Cons.prems(1) [of "x # _"] show ?thesis by (metis append_Cons)
  qed
qed simp

lemma find_skip: "find P xs = None \<Longrightarrow> find P (xs @ ys) = find P ys"
  by (induction xs) (auto split: if_splits)

lemma FindRegion_outside:
  assumes "shape A rs" and "a < 2 ^ 64" and "\<not> (r_begin (whole_region A) \<le> a \<and> a < r_begin (whole_region A) + r_size (whole_region A))"
  shows "FindRegion A a = Some None"
  using contains_iff [of "whole_region A" a] shapeD(3) [OF assms(1)] assms(2,3) by (auto simp: FindRegion_def)

lemma FindRegion_inside:
  assumes "shape A (xs @ r # ys)" and "r_begin r \<le> a" and "a < r_begin r + r_size r"
  shows "FindRegion A a = Some (Some (r_begin r))"
proof -
  note t = shapeD(5) [OF assms(1)]
  have r: "r_begin (whole_region A) \<le> r_begin r" "r_begin r + r_size r \<le> r_begin (whole_region A) + r_size (whole_region A)"
    using tiles_bounds [OF t, of r] by simp_all
  have a: "a < 2 ^ 64" using r(2) assms(3) shapeD(3) [OF assms(1)] by simp
  have "contains (whole_region A) a" using contains_iff [of "whole_region A", OF shapeD(3) [OF assms(1)] a] r assms(2,3) by simp
  moreover have "contains r a" using contains_iff [OF shape_end(2) [OF assms(1)] a] assms(2,3) by simp
  moreover have "find (\<lambda>r. r_end r > a) xs = None"
    using tiles_sides(5) [OF t] shape_end(1) [OF assms(1)] assms(2) by (fastforce simp: find_None_iff not_less)
  moreover have "r_end r > a" using shape_end(1) [OF assms(1), of r] assms(3) by simp
  ultimately show ?thesis unfolding FindRegion_def shapeD(1) [OF assms(1)] by (simp add: find_skip)
qed

lemma carve_head:
  assumes "wf_allocator A" and "all_regions A = xs @ r # ys" and "r_state r = kFree" and "page_size A dvd a"
    and "r_begin r \<le> a" and "a < r_begin r + r_size r"
  defines "r1 \<equiv> \<lparr>r_begin = a, r_size = r_begin r + r_size r - a, r_state = kFree\<rparr>"
  obtains A1 where "(if r_begin r \<noteq> a then Split A (r_begin r) (a - r_begin r) else Some (r_begin r, A)) = Some (a, A1)"
    and "config A1 = config A" and "shape A1 ((xs @ left_part r a) @ r1 # ys)"
    and "listed A1 (free_starts (xs @ ys) \<union> starts (left_part r a) \<union> {a})"
proof (cases "r_begin r = a")
  case True
  then have "r1 = r" using assms(3) by (simp add: r1_def)
  then show thesis using that [of A] True wf_region(1,2) [OF assms(1,2)] assms(3) by (simp add: left_part_def insert_commute)
next
  case False
  let ?n = "a - r_begin r"
  note wf = wf_region [OF assms(1,2)]
  have "page_size A dvd r_begin r" using tiles_aligned [OF shapeD(5,4) [OF wf(1)], of r] by simp
  then have n: "page_size A dvd ?n" "0 < ?n" "?n < r_size r" using assms(4-6) False by (auto intro: dvd_diff_nat)
  from Split_ok [OF wf(1,2) _ wf(4) n] assms(3) obtain A1 where
    A1: "Split A (r_begin r) ?n = Some (r_begin r + ?n, A1)" "config A1 = config A"
    "shape A1 (xs @ r\<lparr>r_size := ?n\<rparr> # \<lparr>r_begin = r_begin r + ?n, r_size = r_size r - ?n, r_state = r_state r\<rparr> # ys)"
    "listed A1 (insert (r_begin r + ?n) (free_starts (xs @ r # ys)))" by auto
  have a: "r_begin r + ?n = a" using assms(5) by simp
  have list: "xs @ r\<lparr>r_size := ?n\<rparr> # \<lparr>r_begin = r_begin r + ?n, r_size = r_size r - ?n, r_state = r_state r\<rparr> # ys =
      (xs @ left_part r a) @ r1 # ys"
    using False assms(3,5,6) by (cases r) (auto simp: left_part_def r1_def)
  have F: "insert (r_begin r + ?n) (free_starts (xs @ r # ys)) = free_starts (xs @ ys) \<union> starts (left_part r a) \<union> {a}"
    unfolding a using False assms(3) by (auto simp: left_part_def)
  show thesis by (rule that [of A1]) (use A1(1,2) A1(3) [unfolded list] A1(4) [unfolded F] False a in simp_all)
qed

lemma carve_ok:
  assumes "wf_allocator A" and "all_regions A = xs @ r # ys" and "r_state r = kFree" and "page_size A dvd a"
    and "r_begin r \<le> a" and "page_size A dvd n" and "0 < n" and "a + n \<le> r_begin r + r_size r" and "st \<noteq> kFree"
  obtains A1 A2 A3 where "(if r_begin r \<noteq> a then Split A (r_begin r) (a - r_begin r) else Some (r_begin r, A)) = Some (a, A1)"
    and "region_at A1 a = Some \<lparr>r_begin = a, r_size = r_begin r + r_size r - a, r_state = kFree\<rparr>"
    and "(if r_begin r + r_size r - a \<noteq> n then do { (_, A) \<leftarrow> Split A1 a n; Some A } else Some A1) = Some A2"
    and "region_at A2 a = Some \<lparr>r_begin = a, r_size = n, r_state = kFree\<rparr>" and "page_size A2 = page_size A"
    and "FreeListRemoveRegion A2 a = Some A3" and "wf_allocator (set_state a st A3)" and "config (set_state a st A3) = config A"
    and "all_regions (set_state a st A3) = xs @ carve r a n st @ ys"
proof -
  let ?r = "\<lparr>r_begin = a, r_size = r_begin r + r_size r - a, r_state = kFree\<rparr>"
  have lt: "a < r_begin r + r_size r" using assms(7,8) by linarith
  from carve_head [OF assms(1-5) lt] obtain A1 where
    A1: "(if r_begin r \<noteq> a then Split A (r_begin r) (a - r_begin r) else Some (r_begin r, A)) = Some (a, A1)" "config A1 = config A"
    "shape A1 ((xs @ left_part r a) @ ?r # ys)" "listed A1 (free_starts (xs @ ys) \<union> starts (left_part r a) \<union> {a})" by blast
  have pg: "page_size A1 = page_size A" using A1(2) by (simp add: config_def)
  have c: "r_state ?r = kFree" "r_begin ?r \<in> free_starts (xs @ ys) \<union> starts (left_part r a) \<union> {a}" "page_size A1 dvd n" "n \<le> r_size ?r"
    using assms(6,8) pg by simp_all
  from carve_tail [OF A1(3,4) c(1-3) assms(7) c(4), of st, unfolded Region.simps] obtain A2 A3 where
    A2: "(if r_begin r + r_size r - a \<noteq> n then do { (_, A) \<leftarrow> Split A1 a n; Some A } else Some A1) = Some A2"
    "region_at A2 a = Some \<lparr>r_begin = a, r_size = n, r_state = kFree\<rparr>" "page_size A2 = page_size A1" "FreeListRemoveRegion A2 a = Some A3"
    "config (set_state a st A3) = config A1"
    "shape (set_state a st A3) ((xs @ left_part r a) @ \<lparr>r_begin = a, r_size = n, r_state = st\<rparr> # right_part ?r (a + n) @ ys)"
    "listed (set_state a st A3) (free_starts (xs @ ys) \<union> starts (left_part r a) \<union> {a} - {a} \<union> starts (right_part ?r (a + n)))"
    by blast
  have right: "right_part ?r (a + n) = right_part r (a + n)" using lt by (auto simp: right_part_def)
  have s: "shape (set_state a st A3) (xs @ carve r a n st @ ys)" using A2(6) by (simp add: right carve_def)
  have "a \<notin> starts (xs @ left_part r a) \<union> starts ys"
    using tiles_sides(5,6) [OF shapeD(5) [OF A1(3)]] by (fastforce simp: starts_def)
  then have "a \<notin> free_starts (xs @ ys) \<union> starts (left_part r a)" by (auto simp: free_starts_def starts_def)
  then have l: "listed (set_state a st A3) (free_starts (xs @ ys) \<union> starts (left_part r a) \<union> starts (right_part r (a + n)))"
    using A2(7) by (simp add: right)
  have "wf_allocator (set_state a st A3)" by (rule carved_wf [OF assms(1-3,9,5,7) s l])
  with that A1(1) shape_region_at [OF A1(3)] A2(1-5) pg A1(2) shapeD(1) [OF s] show thesis by simp
qed

end
