(* ===== verification/Region_Allocator_Operations.thy ===== *)
theory Region_Allocator_Operations
  imports Region_Allocator_Correct
begin

text \<open>
  What the public operations of the region allocator do: allocation at an address, aligned, hinted and randomised allocation,
  trimming and freeing, and the queries, in terms of the blocks in use.
\<close>

section \<open>Blocks in use\<close>

definition blocks :: "RegionAllocator \<Rightarrow> Region set" where
  "blocks A = {r \<in> set (all_regions A). r_state r \<noteq> kFree}"

definition apart :: "Region \<Rightarrow> Address \<Rightarrow> nat \<Rightarrow> bool" where
  "apart b a n \<longleftrightarrow> r_begin b + r_size b \<le> a \<or> a + n \<le> r_begin b"

abbreviation whole_begin :: "RegionAllocator \<Rightarrow> Address" where
  "whole_begin A \<equiv> r_begin (whole_region A)"

abbreviation whole_end :: "RegionAllocator \<Rightarrow> Address" where
  "whole_end A \<equiv> r_begin (whole_region A) + r_size (whole_region A)"

lemma blocks_carve:
  assumes "all_regions A = xs @ r # ys" and "r_state r = kFree" and "all_regions A' = xs @ carve r a n st @ ys" and "st \<noteq> kFree"
  shows "blocks A' = insert \<lparr>r_begin = a, r_size = n, r_state = st\<rparr> (blocks A)"
  using assms by (auto simp: blocks_def carve_def left_part_def right_part_def split: if_splits)

text \<open>A range that meets no block lies in a single free region, because free regions are coalesced.\<close>

lemma free_range_region:
  assumes "wf_allocator A" and "whole_begin A \<le> a" and "0 < n" and "a + n \<le> whole_end A"
  obtains (inside) xs r ys where "all_regions A = xs @ r # ys" and "r_begin r \<le> a" and "a < r_begin r + r_size r"
      and "r_state r = kFree" and "a + n \<le> r_begin r + r_size r" and "\<forall>b\<in>blocks A. apart b a n"
    | (meets) xs r ys where "all_regions A = xs @ r # ys" and "r_begin r \<le> a" and "a < r_begin r + r_size r"
      and "r_state r \<noteq> kFree \<or> r_begin r + r_size r < a + n" and "\<exists>b\<in>blocks A. \<not> apart b a n"
proof -
  have s: "shape A (all_regions A)" using assms(1) by (simp add: wf_allocator_def)
  have "a < whole_end A" using assms(3,4) by simp
  from tiles_cover [OF shapeD(5) [OF s] assms(2) this] obtain xs r ys where
    r: "all_regions A = xs @ r # ys" "r_begin r \<le> a" "a < r_begin r + r_size r" by blast
  note wf = wf_region [OF assms(1) r(1)]
  note t = shapeD(5) [OF wf(1)] and sides = tiles_sides [OF shapeD(5) [OF wf(1)]]
  consider "r_state r \<noteq> kFree" | "r_state r = kFree" "a + n \<le> r_begin r + r_size r" | "r_state r = kFree" "r_begin r + r_size r < a + n"
    by linarith
  then show thesis
  proof cases
    case 1
    then have "r \<in> blocks A" "\<not> apart r a n" using r assms(3) by (auto simp: blocks_def apart_def)
    then show thesis using meets [OF r] 1 by blast
  next
    case 2
    have "apart b a n" if "b \<in> blocks A" for b
      using that r(1,2) 2 sides(5,6) by (fastforce simp: blocks_def apart_def)
    then show thesis using inside [OF r 2] by blast
  next
    case 3
    have "ys \<noteq> []" using sides(2) 3(2) assms(4) by auto
    then obtain y zs where y: "ys = y # zs" by (cases ys) auto
    have "r_begin y = r_begin r + r_size r" using sides(2) y by simp
    moreover have "0 < r_size y" "r_state y \<noteq> kFree" using sides(6) wf(3) 3(1) y by (simp_all add: coalesced_append)
    ultimately have "y \<in> blocks A" "\<not> apart y a n" using r(1,3) 3(2) y by (auto simp: blocks_def apart_def)
    then show thesis using meets [OF r] 3(2) by blast
  qed
qed

section \<open>Allocation at an address\<close>

lemma AllocateRegionAt_carve:
  assumes "wf_allocator A" and "page_size A dvd a" and "page_size A dvd n" and "0 < n" and "st \<noteq> kFree"
    and "all_regions A = xs @ r # ys" and "r_state r = kFree" and "r_begin r \<le> a" and "a + n \<le> r_begin r + r_size r"
  obtains A' where "AllocateRegionAt A a n st = Some (True, A')" and "wf_allocator A'" and "config A' = config A"
    and "all_regions A' = xs @ carve r a n st @ ys"
proof -
  note wf = wf_region [OF assms(1,6)]
  have lt: "a < r_begin r + r_size r" using assms(4,9) by linarith
  have e: "r_end r = r_begin r + r_size r" "r_begin r + r_size r < 2 ^ 64" using shape_end [OF wf(1), of r] by simp_all
  have w: "r_begin r + r_size r \<le> whole_end A" using tiles_bounds [OF shapeD(5) [OF wf(1)], of r] by simp
  from carve_ok [OF assms(1,6,7,2,8,3,4,9,5)] obtain A1 A2 A3 where
    C: "(if r_begin r \<noteq> a then Split A (r_begin r) (a - r_begin r) else Some (r_begin r, A)) = Some (a, A1)"
    "region_at A1 a = Some \<lparr>r_begin = a, r_size = r_begin r + r_size r - a, r_state = kFree\<rparr>"
    "(if r_begin r + r_size r - a \<noteq> n then do { (_, A) \<leftarrow> Split A1 a n; Some A } else Some A1) = Some A2"
    "region_at A2 a = Some \<lparr>r_begin = a, r_size = n, r_state = kFree\<rparr>" "FreeListRemoveRegion A2 a = Some A3"
    "wf_allocator (set_state a st A3)" "config (set_state a st A3) = config A" "all_regions (set_state a st A3) = xs @ carve r a n st @ ys"
    by metis
  have "r_end \<lparr>r_begin = a, r_size = r_begin r + r_size r - a, r_state = kFree\<rparr> = r_begin r + r_size r"
    using e(2) lt by (simp add: r_end_def add64_def)
  moreover have ends: "r_begin r + r_size r - a \<noteq> n \<longleftrightarrow> r_begin r + r_size r \<noteq> a + n" using lt by auto
  moreover have sub: "a - r_begin r = sub64 a (r_begin r)" and "add64 a n = a + n"
    using e(2) assms(8,9) by (simp_all add: add64_def sub64_le)
  moreover have "IsAligned a (page_size A)" "IsAligned n (page_size A)" using IsAligned_dvd [OF shapeD(2) [OF wf(1)]] assms(2,3) by simp_all
  ultimately have "AllocateRegionAt A a n st = Some (True, set_state a st A3)"
    unfolding AllocateRegionAt_def using assms(4,5,7-9) w e(1) C(2,4,5) FindRegion_inside [OF wf(1) assms(8) lt] shape_region_at [OF wf(1)]
    by (simp add: shape_whole_end [OF wf(1)] Let_def C(1) [unfolded sub] C(3) [unfolded ends] split del: if_split)
  then show thesis using that C(6-8) by blast
qed

lemma AllocateRegionAt_busy:
  assumes "wf_allocator A" and "page_size A dvd a" and "page_size A dvd n" and "0 < n" and "st \<noteq> kFree" and "a + n \<le> whole_end A"
    and "all_regions A = xs @ r # ys" and "r_begin r \<le> a" and "a < r_begin r + r_size r"
    and "r_state r \<noteq> kFree \<or> r_begin r + r_size r < a + n"
  shows "AllocateRegionAt A a n st = Some (False, A)"
proof -
  note wf = wf_region [OF assms(1,7)]
  have e: "r_end r = r_begin r + r_size r" using shape_end [OF wf(1), of r] by simp
  have "add64 a n = a + n" using assms(6) shapeD(3) [OF wf(1)] by (simp add: add64_def)
  moreover have "IsAligned a (page_size A)" "IsAligned n (page_size A)" using IsAligned_dvd [OF shapeD(2) [OF wf(1)]] assms(2,3) by simp_all
  ultimately show ?thesis
    using assms(4-6,10) e FindRegion_inside [OF wf(1) assms(8,9)] shape_region_at [OF wf(1)]
    by (auto simp: AllocateRegionAt_def shape_whole_end [OF wf(1)] Let_def)
qed

lemma AllocateRegionAt_below:
  assumes "wf_allocator A" and "page_size A dvd a" and "page_size A dvd n" and "0 < n" and "st \<noteq> kFree" and "a + n \<le> whole_end A"
    and "a < whole_begin A"
  shows "AllocateRegionAt A a n st = Some (False, A)"
proof -
  have s: "shape A (all_regions A)" using assms(1) by (simp add: wf_allocator_def)
  have a: "a < 2 ^ 64" using assms(6) shapeD(3) [OF s] by simp
  have "add64 a n = a + n" using assms(6) shapeD(3) [OF s] by (simp add: add64_def)
  moreover have "IsAligned a (page_size A)" "IsAligned n (page_size A)" using IsAligned_dvd [OF shapeD(2) [OF s]] assms(2,3) by simp_all
  ultimately show ?thesis using assms(4-7) FindRegion_outside [OF s a] by (simp add: AllocateRegionAt_def shape_whole_end [OF s] Let_def)
qed

definition grants :: "RegionAllocator \<Rightarrow> Address \<Rightarrow> nat \<Rightarrow> bool" where
  "grants A a n \<longleftrightarrow> whole_begin A \<le> a \<and> (\<forall>b\<in>blocks A. apart b a n)"

lemma AllocateRegionAt_cases:
  assumes "wf_allocator A" and "page_size A dvd a" and "page_size A dvd n" and "0 < n" and "st \<noteq> kFree" and "a + n \<le> whole_end A"
  obtains (granted) A' where "grants A a n" and "AllocateRegionAt A a n st = Some (True, A')" and "wf_allocator A'" and "config A' = config A"
      and "blocks A' = insert \<lparr>r_begin = a, r_size = n, r_state = st\<rparr> (blocks A)"
    | (denied) "\<not> grants A a n" and "AllocateRegionAt A a n st = Some (False, A)"
proof (cases "whole_begin A \<le> a")
  case True
  show thesis
  proof (rule free_range_region [OF assms(1) True assms(4,6)])
    fix xs r ys
    assume r: "all_regions A = xs @ r # ys" "r_begin r \<le> a" "r_state r = kFree" "a + n \<le> r_begin r + r_size r" and free: "\<forall>b\<in>blocks A. apart b a n"
    from AllocateRegionAt_carve [OF assms(1-5) r(1,3,2,4)] obtain A' where
      A': "AllocateRegionAt A a n st = Some (True, A')" "wf_allocator A'" "config A' = config A" "all_regions A' = xs @ carve r a n st @ ys" by blast
    then show thesis using granted [of A'] blocks_carve [OF r(1,3) A'(4) assms(5)] True free by (simp add: grants_def)
  next
    fix xs r ys
    assume r: "all_regions A = xs @ r # ys" "r_begin r \<le> a" "a < r_begin r + r_size r" "r_state r \<noteq> kFree \<or> r_begin r + r_size r < a + n"
      and meets: "\<exists>b\<in>blocks A. \<not> apart b a n"
    then show thesis using denied AllocateRegionAt_busy [OF assms r] by (auto simp: grants_def)
  qed
next
  case False
  then show thesis using denied AllocateRegionAt_below [OF assms] by (simp add: grants_def)
qed

text \<open>Whatever the arguments are, a call that returns has kept the invariant: a range that wraps around fails a check of \<^const>\<open>Split\<close>.\<close>

lemma Split_requires: "Split A p n = Some x \<Longrightarrow> region_at A p = Some r \<Longrightarrow> n < r_size r"
  by (auto simp: Split_def Let_def split: if_splits)

lemma AllocateRegionAt_wraps:
  assumes "wf_allocator A" and "a < 2 ^ 64" and "n < 2 ^ 64" and "2 ^ 64 \<le> a + n" and "AllocateRegionAt A a n st = Some (success, A')"
  shows "success = False \<and> A' = A"
proof -
  have s: "shape A (all_regions A)" using assms(1) by (simp add: wf_allocator_def)
  have pre: "page_size A dvd a" using assms(5) IsAligned_dvd [OF shapeD(2) [OF s]] by (auto simp: AllocateRegionAt_def split: if_splits)
  show ?thesis
  proof (cases "whole_begin A \<le> a \<and> a < whole_end A")
    case False
    then show ?thesis using assms(5) FindRegion_outside [OF s assms(2)] by (auto simp: AllocateRegionAt_def Let_def split: if_splits)
  next
    case True
    then obtain xs r ys where r: "all_regions A = xs @ r # ys" "r_begin r \<le> a" "a < r_begin r + r_size r"
      using tiles_cover [OF shapeD(5) [OF s]] by blast
    note wf = wf_region [OF assms(1) r(1)]
    note found = FindRegion_inside [OF wf(1) r(2,3)] shape_region_at [OF wf(1)]
    have e: "r_begin r + r_size r < 2 ^ 64" using shape_end [OF wf(1), of r] by simp
    show ?thesis
    proof (cases "r_state r = kFree")
      case free: True
      let ?r = "\<lparr>r_begin = a, r_size = r_begin r + r_size r - a, r_state = kFree\<rparr>"
      from carve_head [OF assms(1) r(1) free pre r(2,3)] obtain A1 where
        A1: "(if r_begin r \<noteq> a then Split A (r_begin r) (a - r_begin r) else Some (r_begin r, A)) = Some (a, A1)"
        "shape A1 ((xs @ left_part r a) @ ?r # ys)" by blast
      have sub: "a - r_begin r = sub64 a (r_begin r)" using assms(2) r(2) by (simp add: sub64_le)
      have "add64 a n = a + n - 2 ^ 64" using assms(2-4) by (simp add: add64_def mod_if)
      then have "add64 a n < a" using assms(3,4) by linarith
      moreover have "r_end ?r = r_begin r + r_size r" using e r(3) by (simp add: r_end_def add64_def)
      ultimately have "r_end ?r \<noteq> add64 a n" using r(3) by simp
      moreover have at: "region_at A1 a = Some ?r" using shape_region_at [OF A1(2)] by simp
      moreover have "Split A1 a n = None" using Split_requires [OF _ at] e assms(4) by (cases "Split A1 a n") fastforce+
      ultimately have "AllocateRegionAt A a n st = Some (success, A') \<Longrightarrow> success = False \<and> A' = A"
        unfolding AllocateRegionAt_def using found free by (auto simp: Let_def A1(1) [unfolded sub] split: if_splits simp del: not_None_eq)
      then show ?thesis using assms(5) by blast
    qed (use assms(5) found in \<open>auto simp: AllocateRegionAt_def Let_def split: if_splits\<close>)
  qed
qed

definition allocates :: "RegionAllocator \<Rightarrow> Address \<Rightarrow> nat \<Rightarrow> RegionState \<Rightarrow> RegionAllocator \<Rightarrow> bool" where
  "allocates A a n st A' \<longleftrightarrow> wf_allocator A' \<and> config A' = config A \<and> whole_begin A \<le> a \<and> a + n \<le> whole_end A \<and>
     page_size A dvd a \<and> 0 < n \<and> page_size A dvd n \<and> (\<forall>b\<in>blocks A. apart b a n) \<and>
     blocks A' = insert \<lparr>r_begin = a, r_size = n, r_state = st\<rparr> (blocks A)"

lemma AllocateRegionAt_returns:
  assumes "wf_allocator A" and "a < 2 ^ 64" and "n < 2 ^ 64" and "AllocateRegionAt A a n st = Some (success, A')"
  shows "if success then allocates A a n st A' else A' = A"
proof (cases "a + n < 2 ^ 64")
  case False
  then show ?thesis using AllocateRegionAt_wraps [OF assms(1-3) _ assms(4)] by simp
next
  case True
  have s: "shape A (all_regions A)" using assms(1) by (simp add: wf_allocator_def)
  have "add64 a n = a + n" using True by (simp add: add64_def)
  then have pre: "page_size A dvd a" "page_size A dvd n" "0 < n" "st \<noteq> kFree" "a + n \<le> whole_end A"
    using assms(4) IsAligned_dvd [OF shapeD(2) [OF s]] by (auto simp: AllocateRegionAt_def Let_def shape_whole_end [OF s] split: if_splits)
  show ?thesis by (rule AllocateRegionAt_cases [OF assms(1) pre]) (use assms(4) pre in \<open>auto simp: allocates_def grants_def\<close>)
qed

section \<open>Allocation from the free list\<close>

lemma allocatesI:
  assumes "wf_allocator A" and "all_regions A = xs @ r # ys" and "r_state r = kFree" and "r_begin r \<le> a" and "a + n \<le> r_begin r + r_size r"
    and "page_size A dvd a" and "0 < n" and "page_size A dvd n" and "st \<noteq> kFree"
    and "wf_allocator A'" and "config A' = config A" and "all_regions A' = xs @ carve r a n st @ ys"
  shows "allocates A a n st A'"
proof -
  note t = shapeD(5) [OF wf_region(1) [OF assms(1,2)]]
  have "whole_begin A \<le> r_begin r" "r_begin r + r_size r \<le> whole_end A" using tiles_bounds [OF t, of r] by simp_all
  moreover have "apart b a n" if "b \<in> blocks A" for b
    using that assms(2-5) tiles_sides(5,6) [OF t] by (fastforce simp: blocks_def apart_def)
  ultimately show ?thesis using assms blocks_carve [OF assms(2,3,12,9)] by (simp add: allocates_def)
qed

definition best_fit :: "RegionAllocator \<Rightarrow> nat \<Rightarrow> Region \<Rightarrow> bool" where
  "best_fit A n r \<longleftrightarrow> r \<in> set (all_regions A) \<and> r_state r = kFree \<and> n \<le> r_size r \<and>
     (\<forall>r'\<in>set (all_regions A). r_state r' = kFree \<and> n \<le> r_size r' \<longrightarrow> (r_size r, r_begin r) \<le> (r_size r', r_begin r'))"

lemma AllocateRegion_cases:
  assumes "wf_allocator A" and "page_size A dvd n" and "0 < n"
  obtains (fits) r A' where "best_fit A n r" and "AllocateRegion A n = Some (r_begin r, A')" and "allocates A (r_begin r) n kAllocated A'"
    | (full) "\<forall>r\<in>set (all_regions A). r_state r = kFree \<longrightarrow> r_size r < n" and "AllocateRegion A n = Some (kAllocationFailure, A)"
proof (cases "FreeListFindRegion A n")
  case None
  have "IsAligned n (page_size A)" using IsAligned_dvd assms(1,2) by (auto simp: wf_allocator_def dest: shapeD(2))
  then show thesis using full None FreeListFindRegion_None [OF assms(1)] assms(3) by (simp add: AllocateRegion_def)
next
  case (Some p)
  from FreeListFindRegion_Some [OF assms(1) Some] obtain xs r ys where
    r: "all_regions A = xs @ r # ys" "r_begin r = p" "r_state r = kFree" "n \<le> r_size r"
    "\<forall>r'\<in>set (all_regions A). r_state r' = kFree \<and> n \<le> r_size r' \<longrightarrow> (r_size r, r_begin r) \<le> (r_size r', r_begin r')" by blast
  from AllocateRegion_ok [OF assms Some r(1-4)] obtain A' where
    A': "AllocateRegion A n = Some (p, A')" "wf_allocator A'" "config A' = config A" "all_regions A' = xs @ carve r p n kAllocated @ ys" by blast
  have "page_size A dvd p" using tiles_aligned [OF shapeD(5,4) [OF wf_region(1) [OF assms(1) r(1)]], of r] r(2) by simp
  then have "allocates A p n kAllocated A'"
    by (intro allocatesI [OF assms(1) r(1,3) _ _ _ assms(3,2) _ A'(2-4)]) (use r(2,4) in simp_all)
  then show thesis using fits [of r A'] A'(1) r by (auto simp: best_fit_def)
qed

lemma AllocateRegion_returns:
  assumes "wf_allocator A" and "AllocateRegion A n = Some (a, A')"
  shows "a = kAllocationFailure \<and> A' = A \<or> allocates A a n kAllocated A'"
proof -
  have "page_size A dvd n" "0 < n"
    using assms IsAligned_dvd by (auto simp: AllocateRegion_def wf_allocator_def dest: shapeD(2) split: if_splits)
  from AllocateRegion_cases [OF assms(1) this] assms(2) show ?thesis by fastforce
qed

lemma allocates_success: "wf_allocator A \<Longrightarrow> allocates A a n st A' \<Longrightarrow> a \<noteq> kAllocationFailure"
  by (auto simp: allocates_def code_defs wf_allocator_def dest!: shapeD(3))

section \<open>Aligned allocation\<close>

lemma RoundUp_address_eq:
  assumes "IsPowerOfTwo m" and "x + (m - 1) < 2 ^ 64" and "m < 2 ^ 63"
  shows "RoundUp_address x m = Some ((x + (m - 1)) div m * m)"
proof -
  from assms(1) obtain k where k: "m = 2 ^ k" using IsPowerOfTwo_power by blast
  let ?y = "x + (m - 1)"
  have "int ?y AND - int m = int ?y AND NOT (mask k)" by (simp add: k minus_exp_eq_not_mask)
  also have "\<dots> = push_bit k (drop_bit k (int ?y))" by (rule bit_eqI) (auto simp: bit_simps not_less)
  also have "\<dots> = int (?y div m * m)" by (simp add: push_bit_eq_mult drop_bit_eq_div k zdiv_int)
  finally have "nat (int ?y AND - int m) = ?y div m * m" by (simp only: nat_int)
  moreover have "\<not> 2 ^ 64 - 1 - x < m - 1" using assms(2) by linarith
  ultimately show ?thesis using assms(1,3) unfolding RoundUp_address_def by simp
qed

lemma round_up_bounds:
  assumes "0 < (m::nat)"
  shows "x \<le> (x + (m - 1)) div m * m" and "(x + (m - 1)) div m * m \<le> x + (m - 1)" and "m dvd (x + (m - 1)) div m * m"
proof -
  have "(x + (m - 1)) mod m < m" using assms by simp
  then show "x \<le> (x + (m - 1)) div m * m" using div_mult_mod_eq [of "x + (m - 1)" m] by linarith
qed simp_all

lemma round_up_gap:
  assumes "pg dvd x" and "pg dvd m" and "0 < (m::nat)"
  shows "(x + (m - 1)) div m * m + pg \<le> x + m"
proof -
  let ?a = "(x + (m - 1)) div m * m"
  have "pg dvd ?a" using assms(2) by simp
  then have "pg dvd x + m - ?a" using assms(1,2) by (intro dvd_diff_nat dvd_add)
  moreover have "0 < x + m - ?a" using round_up_bounds(2) [OF assms(3), of x] assms(3) by linarith
  ultimately have "pg \<le> x + m - ?a" by (rule dvd_imp_le)
  then show ?thesis using \<open>0 < x + m - ?a\<close> by linarith
qed

lemma AllocateAlignedRegion_carve:
  assumes "wf_allocator A" and "page_size A dvd n" and "0 < n" and "IsPowerOfTwo alignment" and "page_size A dvd alignment"
    and "n + alignment < 2 ^ 64" and "FreeListFindRegion A (n + alignment - page_size A) = Some (r_begin r)"
    and "all_regions A = xs @ r # ys" and "r_state r = kFree" and "n + alignment - page_size A \<le> r_size r" and "alignment < 2 ^ 63"
  defines "a \<equiv> (r_begin r + (alignment - 1)) div alignment * alignment"
  obtains A' where "AllocateAlignedRegion A n alignment = Some (a, A')" and "allocates A a n kAllocated A'" and "alignment dvd a"
proof -
  note wf = wf_region [OF assms(1,8)]
  have e: "r_begin r + r_size r < 2 ^ 64" using shape_end [OF wf(1), of r] by simp
  have pos: "0 < alignment" "page_size A \<le> alignment" "page_size A \<le> n"
    using assms(2-5) by (auto simp: IsPowerOfTwo_def dvd_imp_le)
  have pg: "page_size A dvd r_begin r" using tiles_aligned [OF shapeD(5,4) [OF wf(1)], of r] by simp
  have a: "r_begin r \<le> a" "alignment dvd a" "a + page_size A \<le> r_begin r + alignment"
    using round_up_bounds [OF pos(1)] round_up_gap [OF pg assms(5) pos(1)] by (simp_all add: a_def)
  have fits: "a + n \<le> r_begin r + r_size r" using a(3) assms(10) pos by linarith
  have pa: "page_size A dvd a" using assms(5) a(2) by (rule dvd_trans)
  have al: "IsAligned x alignment \<longleftrightarrow> alignment dvd x" "IsAligned x (page_size A) \<longleftrightarrow> page_size A dvd x" for x
    using IsAligned_dvd assms(4) shapeD(2) [OF wf(1)] by blast+
  from carve_ok [OF assms(1,8,9) pa a(1) assms(2,3) fits, of kAllocated] obtain A1 A2 A3 where
    C: "(if r_begin r \<noteq> a then Split A (r_begin r) (a - r_begin r) else Some (r_begin r, A)) = Some (a, A1)"
    "region_at A1 a = Some \<lparr>r_begin = a, r_size = r_begin r + r_size r - a, r_state = kFree\<rparr>"
    "(if r_begin r + r_size r - a \<noteq> n then do { (_, A) \<leftarrow> Split A1 a n; Some A } else Some A1) = Some A2"
    "region_at A2 a = Some \<lparr>r_begin = a, r_size = n, r_state = kFree\<rparr>" "FreeListRemoveRegion A2 a = Some A3"
    "wf_allocator (set_state a kAllocated A3)" "config (set_state a kAllocated A3) = config A"
    "all_regions (set_state a kAllocated A3) = xs @ carve r a n kAllocated @ ys"
    by (metis RegionState.distinct(3))
  have "sub64 (add64 n alignment) (page_size A) = n + alignment - page_size A" using assms(6) pos(2) by (simp add: add64_def sub64_le)
  moreover have "r_begin r + (alignment - 1) < 2 ^ 64" using e assms(10) pos by linarith
  then have up: "RoundUp_address (r_begin r) alignment = Some a" using RoundUp_address_eq [OF assms(4)] assms(11) by (simp add: a_def)
  have sub: "sub64 a (r_begin r) = a - r_begin r" using a(1) fits e by (simp add: sub64_le)
  have "a - r_begin r < alignment" using a(1) round_up_bounds(2) [OF pos(1), of "r_begin r"] pos(1) unfolding a_def by linarith
  then have "alignment dvd r_begin r \<longleftrightarrow> r_begin r = a"
    using dvd_imp_le [OF dvd_diff_nat [OF a(2)], of "r_begin r"] a(1,2) by fastforce
  then have "(if \<not> alignment dvd r_begin r then do { start \<leftarrow> RoundUp_address (r_begin r) alignment;
      (p, A) \<leftarrow> Split A (r_begin r) (sub64 start (r_begin r));
      if p \<noteq> start \<or> \<not> alignment dvd p then None else Some (p, A) } else Some (r_begin r, A)) = Some (a, A1)"
    using C(1) up sub a(2) by (auto split: if_splits)
  ultimately have "AllocateAlignedRegion A n alignment = Some (a, set_state a kAllocated A3)"
    unfolding AllocateAlignedRegion_def al Let_def using assms(2,5,7) pos(2) a(2) C(2,4,5) shape_region_at [OF wf(1)]
    by (simp add: C(3) split del: if_split)
  moreover have "allocates A a n kAllocated (set_state a kAllocated A3)"
    by (rule allocatesI [OF assms(1,8,9) a(1) fits pa assms(3,2) _ C(6-8)]) simp
  ultimately show thesis using that a(2) by blast
qed

lemma AllocateAlignedRegion_cases:
  assumes "wf_allocator A" and "page_size A dvd n" and "0 < n" and "IsPowerOfTwo alignment" and "page_size A dvd alignment"
    and "n + alignment < 2 ^ 64" and "alignment < 2 ^ 63"
  obtains (fits) a A' where "AllocateAlignedRegion A n alignment = Some (a, A')" and "allocates A a n kAllocated A'" and "alignment dvd a"
    | (full) "\<forall>r\<in>set (all_regions A). r_state r = kFree \<longrightarrow> r_size r < n + alignment - page_size A"
      and "AllocateAlignedRegion A n alignment = Some (kAllocationFailure, A)"
proof (cases "FreeListFindRegion A (n + alignment - page_size A)")
  case None
  have s: "shape A (all_regions A)" using assms(1) by (simp add: wf_allocator_def)
  have pos: "page_size A \<le> alignment" using assms(4,5) by (auto simp: IsPowerOfTwo_def dvd_imp_le)
  then have "sub64 (add64 n alignment) (page_size A) = n + alignment - page_size A" using assms(6) by (simp add: add64_def sub64_le)
  then have "AllocateAlignedRegion A n alignment = Some (kAllocationFailure, A)"
    using None assms(2,5) pos by (simp add: AllocateAlignedRegion_def IsAligned_dvd [OF shapeD(2) [OF s]])
  then show thesis using full None FreeListFindRegion_None [OF assms(1)] by simp
next
  case (Some p)
  from FreeListFindRegion_Some [OF assms(1) Some] obtain xs r ys where
    r: "all_regions A = xs @ r # ys" "r_begin r = p" "r_state r = kFree" "n + alignment - page_size A \<le> r_size r" by metis
  from AllocateAlignedRegion_carve [OF assms(1-6) Some [folded r(2)] r(1,3,4) assms(7)] fits show thesis by blast
qed

text \<open>The steps from the found region on: whatever the arguments, a result means that a range was carved out of a free region.\<close>

lemma Split_positive: "Split A p n = Some x \<Longrightarrow> 0 < n \<and> IsAligned n (page_size A)"
  by (auto simp: Split_def Option.bind_eq_Some_conv split: if_splits)

lemma carve_result:
  assumes "wf_allocator A" and "all_regions A = xs @ r # ys" and "r_state r = kFree" and "page_size A dvd a"
    and "r_begin r \<le> a" and "a < r_begin r + r_size r" and "page_size A dvd n"
    and "(if r_begin r \<noteq> a then Split A (r_begin r) (a - r_begin r) else Some (r_begin r, A)) = Some (p, A1)"
    and "do { r \<leftarrow> region_at A1 p;
              A \<leftarrow> (if r_size r \<noteq> n then do { (_, A) \<leftarrow> Split A1 p n; Some A } else Some A1);
              r \<leftarrow> region_at A p;
              if \<not> IsAligned (r_begin r) alignment \<or> r_size r \<noteq> n then None
              else do { A \<leftarrow> FreeListRemoveRegion A p; Some (r_begin r, set_state p kAllocated A) } } = Some (x, A')"
  shows "allocates A x n kAllocated A'"
proof -
  let ?r = "\<lparr>r_begin = a, r_size = r_begin r + r_size r - a, r_state = kFree\<rparr>"
  from carve_head [OF assms(1-6)] assms(8) have p: "p = a" and s: "shape A1 ((xs @ left_part r a) @ ?r # ys)" by auto
  have at: "region_at A1 a = Some ?r" using shape_region_at [OF s] by simp
  have "r_size ?r = n \<or> (\<exists>y. Split A1 a n = Some y)"
    using assms(9) at by (auto simp: p Option.bind_eq_Some_conv split: if_splits)
  then have "0 < n" "n \<le> r_size ?r" using assms(6) Split_requires [OF _ at, of n] Split_positive by (auto simp: less_imp_le)
  then have n: "0 < n" "a + n \<le> r_begin r + r_size r" using assms(6) by auto
  have "kAllocated \<noteq> kFree" by simp
  from carve_ok [OF assms(1-5,7) n this] obtain B A2 A3 where
    B: "(if r_begin r \<noteq> a then Split A (r_begin r) (a - r_begin r) else Some (r_begin r, A)) = Some (a, B)" and
    C0: "(if r_begin r + r_size r - a \<noteq> n then do { (_, A) \<leftarrow> Split B a n; Some A } else Some B) = Some A2" and
    C: "region_at A2 a = Some \<lparr>r_begin = a, r_size = n, r_state = kFree\<rparr>" "FreeListRemoveRegion A2 a = Some A3"
    "wf_allocator (set_state a kAllocated A3)" "config (set_state a kAllocated A3) = config A"
    "all_regions (set_state a kAllocated A3) = xs @ carve r a n kAllocated @ ys" by metis
  have "B = A1" using B assms(8) by simp
  note C1 = C0 [unfolded this]
  have "x = a \<and> A' = set_state a kAllocated A3"
    using assms(9) unfolding p at Option.bind.simps Region.simps C1 C(1,2) by (auto split: if_splits)
  then show ?thesis using allocatesI [OF assms(1-3,5) n(2) assms(4) n(1) assms(7) _ C(3-5)] by simp
qed

lemma AllocateAlignedRegion_returns:
  assumes "wf_allocator A" and "AllocateAlignedRegion A n alignment = Some (x, A')"
  shows "x = kAllocationFailure \<and> A' = A \<or> allocates A x n kAllocated A'"
proof (cases "FreeListFindRegion A (sub64 (add64 n alignment) (page_size A))")
  case None
  then show ?thesis using assms(2) by (auto simp: AllocateAlignedRegion_def split: if_splits)
next
  case (Some p)
  from FreeListFindRegion_Some [OF assms(1) Some] obtain xs r ys where
    r: "all_regions A = xs @ r # ys" "r_begin r = p" "r_state r = kFree" by metis
  note wf = wf_region [OF assms(1) r(1)]
  note pow = IsAligned_dvd [OF shapeD(2) [OF wf(1)]]
  have e: "r_begin r + r_size r < 2 ^ 64" and at: "region_at A p = Some r" using shape_end [OF wf(1), of r] shape_region_at [OF wf(1)] r(2) by simp_all
  have pg: "page_size A dvd r_begin r" using tiles_aligned [OF shapeD(5,4) [OF wf(1)], of r] by simp
  have n: "page_size A dvd n" using assms(2) pow by (auto simp: AllocateAlignedRegion_def split: if_splits)
  show ?thesis
  proof (cases "IsAligned (r_begin r) alignment")
    case True
    then show ?thesis using assms(2) Some at r(2) tiles_sides(3) [OF shapeD(5) [OF wf(1)]]
      by (intro disjI2 carve_result [OF assms(1) r(1,3) pg order_refl _ n, where p = p and ?A1.0 = A and alignment = alignment])
        (auto simp: AllocateAlignedRegion_def split: if_splits)
  next
    case False
    then obtain start q A1 where st: "RoundUp_address (r_begin r) alignment = Some start" "Split A p (sub64 start p) = Some (q, A1)" "q = start"
      using assms(2) Some at r(2) by (auto simp: AllocateAlignedRegion_def Option.bind_eq_Some_conv split: if_splits)
    then have m: "IsPowerOfTwo alignment" "\<not> 2 ^ 64 - 1 - r_begin r < alignment - 1" and m63: "alignment < 2 ^ 63"
      unfolding RoundUp_address_def by (auto split: if_splits)
    then have m: "0 < alignment" "IsPowerOfTwo alignment" "r_begin r + (alignment - 1) < 2 ^ 64" using e by (auto simp: IsPowerOfTwo_def)
    then have up: "start = (r_begin r + (alignment - 1)) div alignment * alignment" using st(1) RoundUp_address_eq m63 by simp
    have start: "r_begin r \<le> start" "start < 2 ^ 64" using round_up_bounds(1,2) [OF m(1), of "r_begin r"] m(3) unfolding up by linarith+
    then have sub: "sub64 start p = start - r_begin r" using r(2) by (simp add: sub64_le)
    then have gap: "0 < start - r_begin r" "page_size A dvd start - r_begin r" "start - r_begin r < r_size r"
      using Split_positive [OF st(2)] Split_requires [OF st(2) at] pow by simp_all
    then have a: "page_size A dvd start" "start < r_begin r + r_size r" using pg start(1) dvd_diffD [of "page_size A" start] by auto
    show ?thesis using assms(2) False Some at r(2) st sub gap(1)
      by (intro disjI2 carve_result [OF assms(1) r(1,3) a(1) start(1) a(2) n, where p = start and ?A1.0 = A1 and alignment = alignment])
        (auto simp: AllocateAlignedRegion_def split: if_splits)
  qed
qed

section \<open>Hinted and randomised allocation\<close>

lemma AllocateRegion_hint_returns:
  assumes "wf_allocator A" and "hint < 2 ^ 64" and "n < 2 ^ 64" and "AllocateRegion_hint A hint n alignment = Some (x, A')"
  shows "x = kAllocationFailure \<and> A' = A \<or> allocates A x n kAllocated A'"
proof -
  from assms(4) obtain success A1 where
    first: "(if hint \<noteq> 0 \<and> contains_range (whole_region A) hint n then AllocateRegionAt A hint n kAllocated else Some (False, A)) = Some (success, A1)" and
    rest: "(if success then Some (hint, A1) else if alignment \<le> page_size A1 then AllocateRegion A1 n else AllocateAlignedRegion A1 n alignment) = Some (x, A')"
    by (auto simp: AllocateRegion_hint_def Option.bind_eq_Some_conv split: if_splits)
  have "if success then allocates A hint n kAllocated A1 else A1 = A"
    using first AllocateRegionAt_returns [OF assms(1-3), of kAllocated success A1] by (auto split: if_splits)
  then show ?thesis
    using rest AllocateRegion_returns [OF assms(1)] AllocateAlignedRegion_returns [OF assms(1)] by (auto split: if_splits)
qed

lemma AllocateRegion_hint_granted:
  assumes "wf_allocator A" and "hint \<noteq> 0" and "page_size A dvd n" and "0 < n" and "hint + n \<le> whole_end A" and "grants A hint n"
    and "page_size A dvd alignment" and "IsPowerOfTwo alignment" and "alignment dvd hint"
  obtains A' where "AllocateRegion_hint A hint n alignment = Some (hint, A')" and "allocates A hint n kAllocated A'"
proof -
  have s: "shape A (all_regions A)" using assms(1) by (simp add: wf_allocator_def)
  have hint: "page_size A dvd hint" using assms(7,9) by (rule dvd_trans)
  have le: "whole_begin A \<le> hint" using assms(6) by (simp add: grants_def)
  then have "sub64 hint (whole_begin A) = hint - whole_begin A" using assms(5) shapeD(3) [OF s] by (simp add: sub64_le)
  then have "contains_range (whole_region A) hint n"
    using le assms(4,5) shapeD(3) [OF s] by (auto simp: contains_range_def Let_def add64_def)
  moreover obtain A' where A': "AllocateRegionAt A hint n kAllocated = Some (True, A')" "wf_allocator A'" "config A' = config A"
    "blocks A' = insert \<lparr>r_begin = hint, r_size = n, r_state = kAllocated\<rparr> (blocks A)"
    by (rule AllocateRegionAt_cases [OF assms(1) hint assms(3,4) _ assms(5), of kAllocated]) (use assms(6) in simp_all)
  moreover have "IsAligned alignment (page_size A)" "IsAligned hint alignment"
    using IsAligned_dvd shapeD(2) [OF s] assms(7-9) by simp_all
  ultimately have "AllocateRegion_hint A hint n alignment = Some (hint, A')" using assms(2) by (simp add: AllocateRegion_hint_def)
  moreover have "allocates A hint n kAllocated A'" using A' assms(3-6) hint by (simp add: allocates_def grants_def)
  ultimately show thesis by (rule that)
qed

lemma random_attempts_returns:
  assumes "wf_allocator A" and "n < 2 ^ 64" and "random_attempts A rs n = Some (found, A')"
  shows "case found of None \<Rightarrow> A' = A | Some x \<Rightarrow> allocates A x n kAllocated A'"
  using assms(3)
proof (induction rs)
  case (Cons random rs)
  define a where "a = add64 (whole_begin A) (page_size A * (random mod region_size_in_pages A))"
  have a: "a < 2 ^ 64" by (simp add: a_def add64_def)
  have "(AllocateRegionAt A a n kAllocated \<bind> (\<lambda>(success, A). if success then Some (Some a, A) else random_attempts A rs n)) = Some (found, A')"
    using Cons.prems unfolding random_attempts.simps Let_def a_def [symmetric] by (simp split: if_splits)
  then obtain success A1 where A1: "AllocateRegionAt A a n kAllocated = Some (success, A1)"
    and rest: "(if success then Some (Some a, A1) else random_attempts A1 rs n) = Some (found, A')"
    by (cases "AllocateRegionAt A a n kAllocated") auto
  show ?case
  proof (cases success)
    case True
    then show ?thesis using AllocateRegionAt_returns [OF assms(1) a assms(2) A1] rest by auto
  next
    case False
    then have "A1 = A" using AllocateRegionAt_returns [OF assms(1) a assms(2) A1] by simp
    then show ?thesis using rest False Cons.IH by simp
  qed
qed simp

lemma AllocateRegion_random_returns:
  assumes "wf_allocator A" and "n < 2 ^ 64" and "AllocateRegion_random A rng n = Some (x, A')"
  shows "x = kAllocationFailure \<and> A' = A \<or> allocates A x n kAllocated A'"
  using assms(3) random_attempts_returns [OF assms(1,2)] AllocateRegion_returns [OF assms(1)]
  by (fastforce simp: AllocateRegion_random_def Option.bind_eq_Some_conv split: if_splits option.splits)

text \<open>
  A random address leaves room for one page only.  A page is therefore always served; a larger request may be tried at an
  address too close to the end, where the check of the requested end fails.
\<close>

lemma tiles_size_dvd: "tiles pg s rs e \<Longrightarrow> pg dvd e - s"
proof (induction rs arbitrary: s)
  case (Cons r rs)
  then have "pg dvd e - (s + r_size r) + r_size r" "s + r_size r \<le> e" using tiles_le by auto
  then show ?case by simp
qed simp

lemma random_address:
  assumes "wf_allocator A"
  defines "a random \<equiv> add64 (whole_begin A) (page_size A * (random mod region_size_in_pages A))"
  shows "0 < region_size_in_pages A" and "page_size A dvd a random" and "whole_begin A \<le> a random" and "a random + page_size A \<le> whole_end A"
    and "a random = whole_begin A + page_size A * (random mod region_size_in_pages A)"
proof -
  have s: "shape A (all_regions A)" using assms(1) by (simp add: wf_allocator_def)
  have dvd: "page_size A dvd r_size (whole_region A)" using tiles_size_dvd [OF shapeD(5) [OF s]] by simp
  then have size: "r_size (whole_region A) = page_size A * region_size_in_pages A" by (simp add: shapeD(7) [OF s])
  then show pos: "0 < region_size_in_pages A" using shapeD(6) [OF s] by (cases "region_size_in_pages A") auto
  have "page_size A * Suc (random mod region_size_in_pages A) \<le> page_size A * region_size_in_pages A"
    using pos by (intro mult_le_mono2) (simp add: Suc_leI)
  then have le: "page_size A * (random mod region_size_in_pages A) + page_size A \<le> r_size (whole_region A)" using size by simp
  then show a: "a random = whole_begin A + page_size A * (random mod region_size_in_pages A)"
    using shapeD(3) [OF s] by (simp add: a_def add64_def)
  show "page_size A dvd a random" "whole_begin A \<le> a random" "a random + page_size A \<le> whole_end A"
    using le shapeD(4) [OF s] by (simp_all add: a)
qed

lemma random_attempts_page:
  assumes "wf_allocator A"
  shows "\<exists>found A'. random_attempts A rs (page_size A) = Some (found, A')"
proof (induction rs)
  case (Cons random rs)
  have s: "shape A (all_regions A)" using assms(1) by (simp add: wf_allocator_def)
  have "0 < page_size A" using shapeD(2) [OF s] by (simp add: IsPowerOfTwo_def)
  then obtain success A1 where "AllocateRegionAt A (add64 (whole_begin A) (page_size A * (random mod region_size_in_pages A))) (page_size A) kAllocated =
      Some (success, A1)" "success = False \<Longrightarrow> A1 = A"
    by (rule AllocateRegionAt_cases [OF assms random_address(2) [OF assms] dvd_refl _ _ random_address(4) [OF assms], of kAllocated random]) simp_all
  then show ?case using Cons.IH random_address(1) [OF assms] by (simp add: Let_def)
qed simp

lemma AllocateRegion_random_page:
  assumes "wf_allocator A"
  shows "\<exists>x A'. AllocateRegion_random A rng (page_size A) = Some (x, A')"
proof -
  have s: "shape A (all_regions A)" using assms(1) by (simp add: wf_allocator_def)
  have pos: "0 < page_size A" using shapeD(2) [OF s] by (simp add: IsPowerOfTwo_def)
  obtain found A1 where run: "random_attempts A (map rng [0..<kMaxRandomizationAttempts]) (page_size A) = Some (found, A1)"
    using random_attempts_page [OF assms] by blast
  have "page_size A < 2 ^ 64" using random_address(4) [OF assms, of 0] shapeD(3) [OF s] by linarith
  then have wf1: "found = None \<Longrightarrow> A1 = A" using random_attempts_returns [OF assms _ run] by simp
  have "\<exists>x A'. AllocateRegion A (page_size A) = Some (x, A')"
    by (rule AllocateRegion_cases [OF assms dvd_refl pos]) blast+
  then show ?thesis using run wf1 by (auto simp: AllocateRegion_random_def split: option.splits)
qed

lemma AllocateRegion_random_overrun:
  assumes "wf_allocator A" and "max_load_for_randomization A \<le> free_size A" and "whole_end A + n < 2 ^ 64"
    and "whole_end A < whole_begin A + page_size A * (rng 0 mod region_size_in_pages A) + n"
  shows "AllocateRegion_random A rng n = None"
proof -
  let ?a = "whole_begin A + page_size A * (rng 0 mod region_size_in_pages A)"
  have s: "shape A (all_regions A)" using assms(1) by (simp add: wf_allocator_def)
  have "?a < 2 ^ 64" "?a + n < 2 ^ 64"
    using random_address(4,5) [OF assms(1), of "rng 0"] assms(3) by linarith+
  then have "AllocateRegionAt A (add64 (whole_begin A) (page_size A * (rng 0 mod region_size_in_pages A))) n kAllocated = None"
    using assms(4) by (simp add: AllocateRegionAt_def Let_def add64_def shape_whole_end [OF s])
  moreover have "[0..<kMaxRandomizationAttempts] = [0, 1, 2]" by (simp add: code_defs upt_rec)
  ultimately show ?thesis using assms(2) random_address(1) [OF assms(1)] by (simp add: AllocateRegion_random_def Let_def)
qed

end
