(* ===== verification/Region_Allocator_Free.thy ===== *)
theory Region_Allocator_Free
  imports Region_Allocator_Operations
begin

text \<open>
  Trimming and freeing regions, the queries, the invariant over all sequences of calls, and the properties of the region allocator.
\<close>

section \<open>Neighbours\<close>

lemma next_region_split:
  "tiles pg s (xs @ r # ys) e \<Longrightarrow> next_region (r_begin r) (xs @ r # ys) = (case ys of [] \<Rightarrow> None | y # _ \<Rightarrow> Some (r_begin y))"
proof (induction xs arbitrary: s)
  case Nil
  then show ?case by (cases ys) auto
next
  case (Cons x xs)
  have "r_begin x \<noteq> r_begin r" using tiles_sides(5) [OF Cons.prems] by auto
  moreover have "tiles pg (s + r_size x) (xs @ r # ys) e" using Cons.prems by simp
  ultimately show ?case using Cons.IH by (cases xs) auto
qed

lemma prev_region_split:
  "tiles pg s (xs @ x # r # ys) e \<Longrightarrow> prev_region (r_begin r) (xs @ x # r # ys) = Some (r_begin x)"
proof (induction xs arbitrary: s)
  case (Cons w xs)
  have t: "tiles pg s ((w # xs @ [x]) @ r # ys) e" using Cons.prems by simp
  have "\<forall>v\<in>set (xs @ [x]). r_begin v \<noteq> r_begin r" using tiles_sides(5) [OF t] by auto
  moreover have "tiles pg (s + r_size w) (xs @ x # r # ys) e" using Cons.prems by simp
  ultimately show ?case using Cons.IH by (cases xs) auto
qed simp

section \<open>Merging a freed region with its neighbours\<close>

text \<open>The freed region absorbs a free successor, and a free predecessor absorbs it; the regions in use stay as they are.\<close>

abbreviation in_use :: "Region list \<Rightarrow> Region list" where
  "in_use \<equiv> filter (\<lambda>r. r_state r \<noteq> kFree)"

abbreviation some_free :: Region where
  "some_free \<equiv> \<lparr>r_begin = 0, r_size = 0, r_state = kFree\<rparr>"

lemma absorb_next_ok:
  assumes "shape A (xs @ r # ys)" and "listed A (free_starts (xs @ ys))" and "r_state r = kFree" and "coalesced ys"
  obtains A' r' ys' where "(if r_end r \<noteq> r_end (whole_region A) then do {
        next \<leftarrow> next_region (r_begin r) (all_regions A);
        nr \<leftarrow> region_at A next;
        if r_state nr = kFree then do { A \<leftarrow> FreeListRemoveRegion A next; Merge A (r_begin r) next } else Some A }
      else Some A) = Some A'" and "config A' = config A" and "shape A' (xs @ r' # ys')" and "listed A' (free_starts (xs @ ys'))"
    and "in_use ys' = in_use ys" and "coalesced (some_free # ys')" and "r_begin r' = r_begin r" and "r_state r' = kFree"
proof (cases ys)
  case Nil
  then have "r_end r = r_end (whole_region A)"
    using shapeD(5) [OF assms(1)] shape_end(1) [OF assms(1), of r] shape_whole_end [OF assms(1)] by (auto simp: tiles_append)
  then show thesis by (intro that [of A r "[]"]) (use assms Nil in simp_all)
next
  case (Cons y zs)
  have s': "shape A ((xs @ [r]) @ y # zs)" using assms(1) Cons by simp
  note t = shapeD(5) [OF assms(1)] and t' = shapeD(5) [OF s']
  have "r_begin y = r_begin r + r_size r" "0 < r_size y" "r_begin y + r_size y \<le> whole_end A"
    using t tiles_bounds [OF t', of y] Cons by (auto simp: tiles_append)
  then have e: "r_end r \<noteq> r_end (whole_region A)"
    using shape_end(1) [OF assms(1), of r] shape_whole_end [OF assms(1)] by simp
  have nx: "next_region (r_begin r) (all_regions A) = Some (r_begin y)" "region_at A (r_begin y) = Some y"
    using next_region_split [OF t] shapeD(1) [OF assms(1)] shape_region_at [OF s'] Cons by simp_all
  have nF: "r_begin r \<notin> free_starts (xs @ ys)" using other_starts [OF t] by simp
  show thesis
  proof (cases "r_state y = kFree")
    case False
    then show thesis by (intro that [of A r ys]) (use assms e nx Cons in simp_all)
  next
    case True
    then have "r_begin y \<in> free_starts (xs @ ys)" using Cons by simp
    from FreeListRemoveRegion_ok [OF assms(2) this nx(2) True] obtain A1 where
      A1: "FreeListRemoveRegion A (r_begin y) = Some A1" "listed A1 (free_starts (xs @ ys) - {r_begin y})"
      "\<exists>u v. A1 = A\<lparr>free_size := u, free_regions := v\<rparr>" by blast
    have F: "free_starts (xs @ ys) - {r_begin y} = free_starts (xs @ zs)"
      using other_starts [OF t'] Cons True by auto
    have s1: "shape A1 (xs @ r # y # zs)" "config A1 = config A" using A1(3) assms(1) Cons by auto
    from Merge_ok [OF s1(1) A1(2) [unfolded F]] nF other_starts [OF t'] Cons True obtain A2 where
      A2: "Merge A1 (r_begin r) (r_begin y) = Some A2" "config A2 = config A1" "shape A2 (xs @ r\<lparr>r_size := r_size r + r_size y\<rparr> # zs)"
      "listed A2 (free_starts (xs @ zs))" by auto
    have "coalesced (some_free # zs)" using assms(4) Cons True by (cases zs) auto
    then show thesis
      by (intro that [of A2 "r\<lparr>r_size := r_size r + r_size y\<rparr>" zs]) (use e nx A1(1) A2 s1(2) True Cons assms(3) in simp_all)
  qed
qed

lemma absorb_prev_ok:
  assumes "shape A (xs @ r # ys)" and "listed A (free_starts (xs @ ys))" and "r_state r = kFree" and "coalesced xs"
  obtains A' r' xs' where "(if r_begin r \<noteq> whole_begin A then do {
        prev \<leftarrow> prev_region (r_begin r) (all_regions A);
        pr \<leftarrow> region_at A prev;
        if r_state pr = kFree then do { A \<leftarrow> FreeListRemoveRegion A prev; A \<leftarrow> Merge A prev (r_begin r); Some (prev, A) } else Some (r_begin r, A) }
      else Some (r_begin r, A)) = Some (r_begin r', A')" and "config A' = config A" and "shape A' (xs' @ r' # ys)" and "listed A' (free_starts (xs' @ ys))"
    and "in_use xs' = in_use xs" and "coalesced (xs' @ [some_free])" and "r_state r' = kFree"
proof (cases xs rule: rev_cases)
  case Nil
  then have "r_begin r = whole_begin A" using shapeD(5) [OF assms(1)] by simp
  then show thesis by (intro that [of r A "[]"]) (use assms Nil in simp_all)
next
  case (snoc ws x)
  have s': "shape A (ws @ x # r # ys)" using assms(1) snoc by simp
  note t = shapeD(5) [OF assms(1)] and t' = shapeD(5) [OF s']
  have b: "r_begin r \<noteq> whole_begin A" using t tiles_le [of "page_size A" "whole_begin A" ws "r_begin x"] snoc by (fastforce simp: tiles_append)
  have pv: "prev_region (r_begin r) (all_regions A) = Some (r_begin x)" "region_at A (r_begin x) = Some x"
    using prev_region_split [OF t'] shapeD(1) [OF assms(1)] shape_region_at [OF s'] snoc by simp_all
  show thesis
  proof (cases "r_state x = kFree")
    case False
    then show thesis by (intro that [of r A xs]) (use assms b pv snoc in \<open>simp_all add: coalesced_append\<close>)
  next
    case True
    have F: "free_starts (xs @ ys) - {r_begin x} = free_starts (ws @ ys)" and x: "r_begin x \<in> free_starts (xs @ ys)"
      using other_starts [OF t'] snoc True by (auto split: if_splits)
    from FreeListRemoveRegion_ok [OF assms(2) x pv(2) True] obtain A1 where
      A1: "FreeListRemoveRegion A (r_begin x) = Some A1" "listed A1 (free_starts (xs @ ys) - {r_begin x})"
      "\<exists>u v. A1 = A\<lparr>free_size := u, free_regions := v\<rparr>" by blast
    have s1: "shape A1 (ws @ x # r # ys)" "config A1 = config A" using A1(3) s' by auto
    have n: "r_begin x \<notin> free_starts (ws @ ys)" "r_begin r \<notin> free_starts (ws @ ys)"
      using other_starts [OF t] other_starts [OF t'] snoc by (auto split: if_splits)
    from Merge_ok [OF s1(1) A1(2) [unfolded F] n] obtain A2 where
      A2: "Merge A1 (r_begin x) (r_begin r) = Some A2" "config A2 = config A1" "shape A2 (ws @ x\<lparr>r_size := r_size x + r_size r\<rparr> # ys)"
      "listed A2 (free_starts (ws @ ys))" by blast
    have "coalesced (ws @ [some_free])" using assms(4) snoc True by (auto simp: coalesced_append)
    then show thesis
      by (intro that [of "x\<lparr>r_size := r_size x + r_size r\<rparr>" A2 ws]) (use b pv A1(1) A2 s1(2) True snoc in simp_all)
  qed
qed

lemma relist_ok:
  assumes "shape A (xs @ r # ys)" and "listed A (free_starts (xs @ ys))" and "r_state r = kFree"
    and "coalesced (xs @ [some_free])" and "coalesced (some_free # ys)"
  obtains A' where "FreeListAddRegion A (r_begin r) = Some A'" and "wf_allocator A'" and "config A' = config A" and "all_regions A' = xs @ r # ys"
proof -
  have "r_begin r \<notin> free_starts (xs @ ys)" using other_starts [OF shapeD(5) [OF assms(1)]] by simp
  from FreeListAddRegion_ok [OF assms(1,2) _ this] obtain A' where
    A': "FreeListAddRegion A (r_begin r) = Some A'" "listed A' (insert (r_begin r) (free_starts (xs @ ys)))"
    "\<exists>u v. A' = A\<lparr>free_size := u, free_regions := v\<rparr>" by auto
  then have s: "shape A' (xs @ r # ys)" "config A' = config A" using assms(1) by auto
  have "coalesced (xs @ r # ys)" using assms(3-5) by (cases ys) (auto simp: coalesced_append)
  then have "wf_allocator A'" using wfI [OF s(1) A'(2)] assms(3) by simp
  then show thesis using that A'(1) s(2) shapeD(1) [OF s(1)] by blast
qed

lemma release_ok:
  assumes "shape A (xs @ r # ys)" and "listed A (free_starts (xs @ ys))" and "coalesced ys"
  defines "A0 \<equiv> set_state (r_begin r) kFree A"
  obtains A' r' ys' where "(if r_end r \<noteq> r_end (whole_region A0) then do {
        next \<leftarrow> next_region (r_begin r) (all_regions A0);
        nr \<leftarrow> region_at A0 next;
        if r_state nr = kFree then do { A \<leftarrow> FreeListRemoveRegion A0 next; Merge A (r_begin r) next } else Some A0 }
      else Some A0) = Some A'" and "config A' = config A" and "shape A' (xs @ r' # ys')" and "listed A' (free_starts (xs @ ys'))"
    and "in_use ys' = in_use ys" and "coalesced (some_free # ys')" and "r_begin r' = r_begin r" and "r_state r' = kFree"
proof -
  let ?r = "r\<lparr>r_state := kFree\<rparr>"
  have eq: "A0 = A\<lparr>all_regions := xs @ ?r # ys\<rparr>" unfolding A0_def set_state_def by (rule update_region_eq [OF assms(1)])
  have s0: "shape A0 (xs @ ?r # ys)" unfolding A0_def by (rule shape_state [OF assms(1)])
  have l0: "listed A0 (free_starts (xs @ ys))"
    by (rule listed_shape [OF assms(2,1) s0]) (use other_starts [OF shapeD(5) [OF assms(1)]] in \<open>auto simp: eq\<close>)
  have e: "r_end ?r = r_end r" "r_begin ?r = r_begin r" by (simp_all add: r_end_def)
  obtain A' r' ys' where N: "(if r_end r \<noteq> r_end (whole_region A0) then do {
        next \<leftarrow> next_region (r_begin r) (all_regions A0);
        nr \<leftarrow> region_at A0 next;
        if r_state nr = kFree then do { A \<leftarrow> FreeListRemoveRegion A0 next; Merge A (r_begin r) next } else Some A0 }
      else Some A0) = Some A'" "config A' = config A0" "shape A' (xs @ r' # ys')" "listed A' (free_starts (xs @ ys'))"
    "in_use ys' = in_use ys" "coalesced (some_free # ys')" "r_begin r' = r_begin r" "r_state r' = kFree"
    by (rule absorb_next_ok [OF s0 l0 _ assms(3), unfolded e]) simp_all
  have "config A' = config A" using N(2) by (simp add: eq)
  then show thesis by (rule that [OF N(1) _ N(3-8)])
qed

lemma coalesced_tl: "coalesced (r # ys) \<Longrightarrow> coalesced ys"
  by (cases ys) auto

lemma blocks_in_use: "blocks A = set (in_use (all_regions A))"
  by (auto simp: blocks_def)

lemma TrimRegion_free:
  assumes "wf_allocator A" and "all_regions A = xs @ r # ys" and "r_state r = kAllocated"
  obtains A' where "TrimRegion A (r_begin r) 0 = Some (r_size r, A')" and "wf_allocator A'" and "config A' = config A"
    and "blocks A' = blocks A - {r}"
proof -
  note wf = wf_region [OF assms(1,2)]
  have l: "listed A (free_starts (xs @ ys))" and c: "coalesced xs" "coalesced ys" using wf(2,3) assms(3) by (auto simp: coalesced_append dest: coalesced_tl)
  have pos: "r_begin r < r_begin r + r_size r" using tiles_sides(3) [OF shapeD(5) [OF wf(1)]] by simp
  define A0 where "A0 = set_state (r_begin r) kFree A"
  from release_ok [OF wf(1) l c(2), folded A0_def] obtain A1 r1 ys1 where
    A1: "(if r_end r \<noteq> r_end (whole_region A0) then do {
        next \<leftarrow> next_region (r_begin r) (all_regions A0);
        nr \<leftarrow> region_at A0 next;
        if r_state nr = kFree then do { A \<leftarrow> FreeListRemoveRegion A0 next; Merge A (r_begin r) next } else Some A0 }
      else Some A0) = Some A1" "config A1 = config A" "shape A1 (xs @ r1 # ys1)" "listed A1 (free_starts (xs @ ys1))"
    "in_use ys1 = in_use ys" "coalesced (some_free # ys1)" "r_begin r1 = r_begin r" "r_state r1 = kFree" by blast
  from absorb_prev_ok [OF A1(3,4,8) c(1), unfolded A1(7)] obtain A2 r2 xs2 where
    A2: "(if r_begin r \<noteq> whole_begin A1 then do {
        prev \<leftarrow> prev_region (r_begin r) (all_regions A1);
        pr \<leftarrow> region_at A1 prev;
        if r_state pr = kFree then do { A \<leftarrow> FreeListRemoveRegion A1 prev; A \<leftarrow> Merge A prev (r_begin r); Some (prev, A) } else Some (r_begin r, A1) }
      else Some (r_begin r, A1)) = Some (r_begin r2, A2)" "config A2 = config A1" "shape A2 (xs2 @ r2 # ys1)" "listed A2 (free_starts (xs2 @ ys1))"
    "in_use xs2 = in_use xs" "coalesced (xs2 @ [some_free])" "r_state r2 = kFree" by blast
  from relist_ok [OF A2(3,4,7,6) A1(6)] obtain A' where
    A': "FreeListAddRegion A2 (r_begin r2) = Some A'" "wf_allocator A'" "config A' = config A2" "all_regions A' = xs2 @ r2 # ys1" by blast
  have "r_begin r \<notin> set (free_regions A)" using wf(2,4) assms(3) by (simp add: listed_def)
  then have "TrimRegion A (r_begin r) 0 = Some (r_size r, A')"
    unfolding TrimRegion_def using assms(3) FindRegion_inside [OF wf(1) order_refl pos] shape_region_at [OF wf(1)] A'(1)
    by (simp add: IsAligned_def Let_def A1(1) [unfolded A0_def] A2(1) split del: if_split)
  moreover have "r \<notin> set (in_use xs)" "r \<notin> set (in_use ys)" using tiles_sides(5,6) [OF shapeD(5) [OF wf(1)]] by auto
  then have "blocks A' = blocks A - {r}"
    unfolding blocks_in_use A'(4) assms(2) using A2(5,7) A1(5) assms(3) by (auto simp: filter_append simp del: set_filter)
  ultimately show thesis using that A' A1(2) A2(2) by simp
qed

lemma TrimRegion_shrink:
  assumes "wf_allocator A" and "all_regions A = xs @ r # ys" and "r_state r = kAllocated" and "page_size A dvd m" and "0 < m" and "m < r_size r"
  obtains A' where "TrimRegion A (r_begin r) m = Some (r_size r - m, A')" and "wf_allocator A'" and "config A' = config A"
    and "blocks A' = insert (r\<lparr>r_size := m\<rparr>) (blocks A - {r})"
proof -
  let ?q = "\<lparr>r_begin = r_begin r + m, r_size = r_size r - m, r_state = r_state r\<rparr>"
  note wf = wf_region [OF assms(1,2)]
  have l: "listed A (free_starts (xs @ ys))" and c: "coalesced xs" "coalesced ys" using wf(2,3) assms(3) by (auto simp: coalesced_append dest: coalesced_tl)
  have pos: "r_begin r < r_begin r + r_size r" using tiles_sides(3) [OF shapeD(5) [OF wf(1)]] by simp
  have al: "IsAligned m (page_size A)" using IsAligned_dvd [OF shapeD(2) [OF wf(1)]] assms(4) by simp
  from Split_ok [OF wf(1,2) _ wf(4) assms(4-6)] assms(3) obtain B where
    B: "Split A (r_begin r) m = Some (r_begin r + m, B)" "config B = config A" "shape B ((xs @ [r\<lparr>r_size := m\<rparr>]) @ ?q # ys)"
    "listed B (free_starts (xs @ ys))" by auto
  have l': "listed B (free_starts ((xs @ [r\<lparr>r_size := m\<rparr>]) @ ys))" using B(4) assms(3) by simp
  define A0 where "A0 = set_state (r_begin ?q) kFree B"
  from release_ok [OF B(3) l' c(2), folded A0_def] obtain A1 r1 ys1 where
    A1: "(if r_end ?q \<noteq> r_end (whole_region A0) then do {
        next \<leftarrow> next_region (r_begin ?q) (all_regions A0);
        nr \<leftarrow> region_at A0 next;
        if r_state nr = kFree then do { A \<leftarrow> FreeListRemoveRegion A0 next; Merge A (r_begin ?q) next } else Some A0 }
      else Some A0) = Some A1" "config A1 = config B" "shape A1 ((xs @ [r\<lparr>r_size := m\<rparr>]) @ r1 # ys1)"
    "listed A1 (free_starts ((xs @ [r\<lparr>r_size := m\<rparr>]) @ ys1))"
    "in_use ys1 = in_use ys" "coalesced (some_free # ys1)" "r_begin r1 = r_begin ?q" "r_state r1 = kFree" by blast
  have "coalesced ((xs @ [r\<lparr>r_size := m\<rparr>]) @ [some_free])" using c(1) assms(3) by (simp add: coalesced_append)
  from relist_ok [OF A1(3,4,8) this A1(6)] obtain A' where
    A': "FreeListAddRegion A1 (r_begin r1) = Some A'" "wf_allocator A'" "config A' = config A1"
    "all_regions A' = (xs @ [r\<lparr>r_size := m\<rparr>]) @ r1 # ys1" by blast
  have "r_begin r \<notin> set (free_regions A)" using wf(2,4) assms(3) by (simp add: listed_def)
  moreover have "region_at B (r_begin r + m) = Some ?q" using shape_region_at [OF B(3)] by simp
  ultimately have "TrimRegion A (r_begin r) m = Some (r_size r - m, A')"
    unfolding TrimRegion_def using assms(3,5) al FindRegion_inside [OF wf(1) order_refl pos] shape_region_at [OF wf(1)] A'(1) A1(7) B(1)
    by (simp add: Let_def A1(1) [unfolded A0_def Region.simps assms(3)] split del: if_split)
  moreover have "r \<notin> set (in_use xs)" "r \<notin> set (in_use ys)" using tiles_sides(5,6) [OF shapeD(5) [OF wf(1)]] by auto
  then have "blocks A' = insert (r\<lparr>r_size := m\<rparr>) (blocks A - {r})"
    unfolding blocks_in_use A'(4) assms(2) using A1(5,8) assms(3) by (auto simp: filter_append simp del: set_filter)
  ultimately show thesis using that A' A1(2) B(2) by simp
qed

lemma FindRegion_cases:
  assumes "wf_allocator A" and "a < 2 ^ 64"
  obtains (found) xs r ys where "all_regions A = xs @ r # ys" and "r_begin r \<le> a" and "a < r_begin r + r_size r"
      and "FindRegion A a = Some (Some (r_begin r))" and "region_at A (r_begin r) = Some r"
      and "\<forall>r'\<in>set (all_regions A). r_begin r' \<le> a \<and> a < r_begin r' + r_size r' \<longrightarrow> r' = r"
    | (outside) "\<not> (whole_begin A \<le> a \<and> a < whole_end A)" and "FindRegion A a = Some None"
proof (cases "whole_begin A \<le> a \<and> a < whole_end A")
  case True
  have s: "shape A (all_regions A)" using assms(1) by (simp add: wf_allocator_def)
  from True obtain xs r ys where r: "all_regions A = xs @ r # ys" "r_begin r \<le> a" "a < r_begin r + r_size r"
    using tiles_cover [OF shapeD(5) [OF s]] by blast
  note wf = wf_region [OF assms(1) r(1)]
  have "\<forall>r'\<in>set (all_regions A). r_begin r' \<le> a \<and> a < r_begin r' + r_size r' \<longrightarrow> r' = r"
    using tiles_sides(5,6) [OF shapeD(5) [OF wf(1)]] r by fastforce
  then show thesis using found [OF r] FindRegion_inside [OF wf(1) r(2,3)] shape_region_at [OF wf(1)] by blast
next
  case False
  then show thesis using outside FindRegion_outside [OF _ assms(2)] assms(1) by (auto simp: wf_allocator_def)
qed

lemma block_at_begin:
  assumes "wf_allocator A" and "r \<in> set (all_regions A)"
  shows "r_begin r < r_begin r + r_size r" and "whole_begin A \<le> r_begin r" and "r_begin r < whole_end A" and "r_begin r < 2 ^ 64"
  using tiles_bounds [OF shapeD(5), of A "all_regions A" r] shapeD(3) [of A "all_regions A"] assms by (auto simp: wf_allocator_def)

lemma TrimRegion_cases:
  assumes "wf_allocator A" and "a < 2 ^ 64" and "page_size A dvd m"
  obtains (block) xs r ys where "all_regions A = xs @ r # ys" and "r_begin r = a" and "r_state r = kAllocated"
    | (other) "\<forall>r\<in>blocks A. r_begin r = a \<longrightarrow> r_state r \<noteq> kAllocated" and "TrimRegion A a m = Some (0, A)"
proof -
  have al: "IsAligned m (page_size A)" using IsAligned_dvd [OF shapeD(2)] assms(1,3) by (auto simp: wf_allocator_def)
  show thesis
  proof (rule FindRegion_cases [OF assms(1,2)])
    assume "\<not> (whole_begin A \<le> a \<and> a < whole_end A)" "FindRegion A a = Some None"
    then show thesis using other block_at_begin [OF assms(1)] al by (fastforce simp: TrimRegion_def blocks_def)
  next
    fix xs r ys assume r: "all_regions A = xs @ r # ys" "FindRegion A a = Some (Some (r_begin r))" "region_at A (r_begin r) = Some r"
      and one: "\<forall>r'\<in>set (all_regions A). r_begin r' \<le> a \<and> a < r_begin r' + r_size r' \<longrightarrow> r' = r"
    show thesis
    proof (cases "r_begin r = a \<and> r_state r = kAllocated")
      case True
      then show thesis using block r(1) by blast
    next
      case False
      have "r_state r' \<noteq> kAllocated" if "r' \<in> blocks A" "r_begin r' = a" for r'
        using that False one block_at_begin(1) [OF assms(1)] by (auto simp: blocks_def)
      moreover have "TrimRegion A a m = Some (0, A)" using False r(2,3) al by (auto simp: TrimRegion_def)
      ultimately show thesis using other by blast
    qed
  qed
qed

text \<open>A region cannot be trimmed to its own size: the check of \<^const>\<open>Split\<close> asks for less.\<close>

lemma TrimRegion_too_large:
  assumes "wf_allocator A" and "all_regions A = xs @ r # ys" and "r_state r = kAllocated" and "r_size r \<le> m"
  shows "TrimRegion A (r_begin r) m = None"
proof -
  note wf = wf_region [OF assms(1,2)]
  have pos: "r_begin r < r_begin r + r_size r" using tiles_sides(3) [OF shapeD(5) [OF wf(1)]] by simp
  have "Split A (r_begin r) m = None" using Split_requires [OF _ shape_region_at [OF wf(1)], of m] assms(4) by (cases "Split A (r_begin r) m") fastforce+
  then show ?thesis
    using assms(3,4) pos FindRegion_inside [OF wf(1) order_refl pos] shape_region_at [OF wf(1)] by (auto simp: TrimRegion_def)
qed

lemma TrimRegion_returns:
  assumes "wf_allocator A" and "a < 2 ^ 64" and "TrimRegion A a m = Some (k, A')"
  shows "wf_allocator A' \<and> config A' = config A"
proof -
  have m: "page_size A dvd m" using assms(1,3) IsAligned_dvd [OF shapeD(2)] by (auto simp: TrimRegion_def wf_allocator_def split: if_splits)
  show ?thesis
  proof (rule TrimRegion_cases [OF assms(1,2) m])
    fix xs r ys assume r: "all_regions A = xs @ r # ys" "r_begin r = a" "r_state r = kAllocated"
    then have lt: "m < r_size r" using TrimRegion_too_large [OF assms(1) r(1,3), of m] assms(3) by force
    show ?thesis
    proof (cases "m = 0")
      case True
      then show ?thesis using TrimRegion_free [OF assms(1) r(1,3)] assms(3) r(2) by auto
    next
      case False
      then show ?thesis using TrimRegion_shrink [OF assms(1) r(1,3) m _ lt] assms(3) r(2) by auto
    qed
  qed (use assms in simp)
qed

section \<open>The blocks determine the state\<close>

lemma tiling_head_used:
  assumes "tiles pg s (r # rs) e" and "tiles pg s (r' # rs') e" and "set (in_use (r # rs)) = set (in_use (r' # rs'))" and "r_state r \<noteq> kFree"
  shows "r' = r"
proof -
  have "r \<in> set (in_use (r' # rs'))" using assms(3,4) by auto
  then have "r = r' \<or> r \<in> set rs'" by (auto split: if_splits)
  then show ?thesis using assms(1,2) tiles_sides(6) [of pg s "[]" r' rs' e] by auto
qed

lemma tiling_head_free:
  assumes "tiles pg s (r # rs) e" and "tiles pg s (r' # rs') e" and "set (in_use (r # rs)) = set (in_use (r' # rs'))"
    and "r_state r = kFree" and "r_state r' = kFree" and "coalesced (r # rs)"
  shows "r_size r' \<le> r_size r"
proof (rule ccontr)
  assume less: "\<not> r_size r' \<le> r_size r"
  have "s + r_size r' \<le> e" using assms(2) tiles_le by auto
  then have "rs \<noteq> []" using assms(1) less by auto
  then obtain y zs where y: "rs = y # zs" by (cases rs) auto
  then have "r_state y \<noteq> kFree" "r_begin y = s + r_size r" using assms(1,4,6) by auto
  then have "y \<in> set (in_use (r # rs))" by (simp add: y)
  then have "y \<in> set rs'" unfolding assms(3) using assms(5) by simp
  then have "s + r_size r' \<le> r_begin y" using assms(2) tiles_bounds by auto
  with less \<open>r_begin y = s + r_size r\<close> show False by simp
qed

lemma tiling_unique:
  assumes "tiles pg s rs e" and "tiles pg s rs' e" and "coalesced rs" and "coalesced rs'" and "set (in_use rs) = set (in_use rs')"
  shows "rs = rs'"
  using assms
proof (induction rs arbitrary: s rs')
  case Nil
  then show ?case by (cases rs') (auto dest: tiles_le)
next
  case (Cons r rs)
  then obtain r' rs1 where rs': "rs' = r' # rs1" by (cases rs') (auto dest: tiles_le)
  note t = Cons.prems(1) Cons.prems(2) [unfolded rs'] and u = Cons.prems(5) [unfolded rs']
  have same: "r' = r"
  proof (cases "r_state r = kFree \<and> r_state r' = kFree")
    case True
    then have "r_size r' = r_size r"
      using tiling_head_free [OF t u] tiling_head_free [OF t(2,1) u [symmetric]] Cons.prems(3,4) rs' by simp
    then show ?thesis using True t by (intro Region.equality) simp_all
  next
    case False
    then consider "r_state r \<noteq> kFree" | "r_state r' \<noteq> kFree" by blast
    then show ?thesis by cases (rule tiling_head_used [OF t u], assumption, rule tiling_head_used [OF t(2,1) u [symmetric], symmetric], assumption)
  qed
  have "r \<notin> set rs" using tiles_sides(6) [of pg s "[]" r rs e] t(1) by auto
  moreover have "r \<notin> set rs1" using tiles_sides(6) [of pg s "[]" r rs1 e] t(2) same by auto
  ultimately have "set (in_use rs) = set (in_use (r # rs)) - {r}" "set (in_use rs1) = set (in_use (r # rs1)) - {r}" by auto
  then have "set (in_use rs) = set (in_use rs1)" using u by (simp only: same)
  moreover have "coalesced rs" "coalesced rs1" using Cons.prems(3,4) rs' by (auto dest: coalesced_tl)
  ultimately show ?case using Cons.IH [of "s + r_size r" rs1] t rs' same by simp
qed

theorem blocks_determine_state:
  assumes "wf_allocator A" and "wf_allocator A'" and "config A' = config A" and "blocks A' = blocks A"
  shows "A' = A\<lparr>calls := calls A'\<rparr>"
proof -
  have c: "whole_region A' = whole_region A" "page_size A' = page_size A" "region_size_in_pages A' = region_size_in_pages A"
    "max_load_for_randomization A' = max_load_for_randomization A" using assms(3) by (simp_all add: config_def)
  have s: "shape A (all_regions A)" "shape A' (all_regions A')" and l: "listed A (free_starts (all_regions A))" "listed A' (free_starts (all_regions A'))"
    and "coalesced (all_regions A)" "coalesced (all_regions A')" using assms(1,2) by (simp_all add: wf_allocator_def)
  then have rs: "all_regions A' = all_regions A"
    using tiling_unique [OF shapeD(5) [OF s(2), unfolded c] shapeD(5) [OF s(1)]] assms(4) by (simp add: blocks_in_use)
  then have at: "size_at A' = size_at A" "SizeAddressOrder A' = SizeAddressOrder A"
    by (simp_all add: fun_eq_iff size_at_def region_at_def SizeAddressOrder_def)
  then have size: "free_size A' = free_size A" using l rs by (simp add: listed_def)
  have inj: "inj_on (SizeAddressOrder A) X" for X by (auto simp: inj_on_def SizeAddressOrder_def)
  have "free_regions A' = free_regions A"
    using l unfolding listed_def rs at
    by (intro map_sorted_distinct_set_unique [of "SizeAddressOrder A"]) (auto simp: distinct_map inj)
  then show ?thesis using c rs size by simp
qed

end
