(* ===== verification/Region_Allocator_Spec.thy ===== *)
theory Region_Allocator_Spec
  imports Region_Allocator_Free
begin

text \<open>
  The contract of the region allocator: the invariant over all sequences of calls, what each allocating operation promises, and
  that freeing undoes an allocation.
\<close>

section \<open>Sizes\<close>

lemma wf_sizes:
  assumes "wf_allocator A"
  shows "free_size A + (\<Sum>r\<in>blocks A. r_size r) = r_size (whole_region A)"
proof -
  let ?rs = "all_regions A" and ?free = "{r \<in> set (all_regions A). r_state r = kFree}"
  have s: "shape A ?rs" and l: "listed A (free_starts ?rs)" using assms by (simp_all add: wf_allocator_def)
  note d = tiles_distinct [OF shapeD(5) [OF s]]
  then have inj: "inj_on r_begin ?free" by (auto simp: distinct_map intro: inj_on_subset)
  have "free_size A = (\<Sum>p\<in>r_begin ` ?free. size_at A p)" using l by (simp add: listed_def free_starts_def starts_def)
  also have "\<dots> = (\<Sum>r\<in>?free. r_size r)"
    unfolding sum.reindex [OF inj] comp_def by (rule sum.cong) (auto simp: shape_size_at_mem [OF s])
  also have "\<dots> + (\<Sum>r\<in>blocks A. r_size r) = (\<Sum>r\<in>?free \<union> blocks A. r_size r)"
    by (rule sum.union_disjoint [symmetric]) (auto simp: blocks_def)
  also have "?free \<union> blocks A = set ?rs" by (auto simp: blocks_def)
  also have "(\<Sum>r\<in>set ?rs. r_size r) = r_size (whole_region A)"
    using sum.distinct_set_conv_list [of ?rs r_size] d tiles_sum [OF shapeD(5) [OF s]] by (simp add: distinct_map)
  finally show ?thesis by simp
qed

lemma wf_blocks:
  assumes "wf_allocator A" and "r \<in> blocks A"
  shows "whole_begin A \<le> r_begin r" and "r_begin r + r_size r \<le> whole_end A" and "0 < r_size r"
    and "r' \<in> blocks A \<Longrightarrow> r' \<noteq> r \<Longrightarrow> apart r' (r_begin r) (r_size r)"
proof -
  have s: "shape A (all_regions A)" using assms(1) by (simp add: wf_allocator_def)
  show "whole_begin A \<le> r_begin r" "r_begin r + r_size r \<le> whole_end A" "0 < r_size r"
    using tiles_bounds [OF shapeD(5) [OF s]] assms(2) by (auto simp: blocks_def)
  assume r': "r' \<in> blocks A" "r' \<noteq> r"
  from assms(2) obtain xs ys where split: "all_regions A = xs @ r # ys" by (auto simp: blocks_def dest: split_list)
  then show "apart r' (r_begin r) (r_size r)"
    using r' tiles_sides(5,6) [OF shapeD(5) [OF s [unfolded split]]] by (fastforce simp: blocks_def apart_def)
qed

section \<open>Construction and reachability\<close>

lemma RegionAllocator_new_ok:
  assumes "b < 2 ^ 64" and "n < 2 ^ 64"
  shows "RegionAllocator_new b n pg ml \<noteq> None \<longleftrightarrow> 0 < n \<and> b + n < 2 ^ 64 \<and> IsPowerOfTwo pg \<and> pg dvd n \<and> pg dvd b"
    and "RegionAllocator_new b n pg ml = Some A \<Longrightarrow> wf_allocator A \<and> blocks A = {} \<and>
       config A = (\<lparr>r_begin = b, r_size = n, r_state = kFree\<rparr>, n div pg, ml, pg)"
proof -
  let ?w = "\<lparr>r_begin = b, r_size = n, r_state = kFree\<rparr>"
  let ?A = "\<lparr>whole_region = ?w, region_size_in_pages = n div pg, max_load_for_randomization = ml, free_size = 0,
     page_size = pg, all_regions = [?w], free_regions = [], calls = []\<rparr>"
  have new: "RegionAllocator_new b n pg ml = (if 0 < n \<and> b + n < 2 ^ 64 \<and> IsPowerOfTwo pg \<and> pg dvd n \<and> pg dvd b
      then FreeListAddRegion ?A b else None)"
  proof -
    have "b < r_end ?w \<longleftrightarrow> 0 < n \<and> b + n < 2 ^ 64" using assms by (auto simp: r_end_def add64_def mod_if)
    then show ?thesis by (cases "IsPowerOfTwo pg") (auto simp: RegionAllocator_new_def IsAligned_dvd Let_def)
  qed
  have ok: "\<exists>A. FreeListAddRegion ?A b = Some A \<and> wf_allocator A \<and> blocks A = {} \<and> config A = (?w, n div pg, ml, pg)"
    if c: "0 < n" "b + n < 2 ^ 64" "IsPowerOfTwo pg" "pg dvd n" "pg dvd b"
  proof -
    have s: "shape ?A [?w]" and l: "listed ?A (free_starts ([] @ []))" using c by (simp_all add: shape_def listed_def)
    from relist_ok [of ?A "[]" ?w "[]"] s l obtain A where
      "FreeListAddRegion ?A b = Some A" "wf_allocator A" "config A = config ?A" "all_regions A = [?w]" by auto
    then show ?thesis by (auto simp: blocks_def config_def)
  qed
  show "RegionAllocator_new b n pg ml \<noteq> None \<longleftrightarrow> 0 < n \<and> b + n < 2 ^ 64 \<and> IsPowerOfTwo pg \<and> pg dvd n \<and> pg dvd b"
    unfolding new using ok by auto
  show "RegionAllocator_new b n pg ml = Some A \<Longrightarrow> wf_allocator A \<and> blocks A = {} \<and> config A = (?w, n div pg, ml, pg)"
    unfolding new using ok by (auto split: if_splits)
qed

inductive reachable :: "Address \<Rightarrow> nat \<Rightarrow> nat \<Rightarrow> nat \<Rightarrow> RegionAllocator \<Rightarrow> bool" for b n pg ml where
  created: "RegionAllocator_new b n pg ml = Some A \<Longrightarrow> reachable b n pg ml A"
| allocated: "reachable b n pg ml A \<Longrightarrow> AllocateRegion A k = Some (x, A') \<Longrightarrow> reachable b n pg ml A'"
| allocated_random: "reachable b n pg ml A \<Longrightarrow> k < 2 ^ 64 \<Longrightarrow> AllocateRegion_random A rng k = Some (x, A') \<Longrightarrow> reachable b n pg ml A'"
| allocated_at: "reachable b n pg ml A \<Longrightarrow> a < 2 ^ 64 \<Longrightarrow> k < 2 ^ 64 \<Longrightarrow> AllocateRegionAt A a k st = Some (success, A') \<Longrightarrow> reachable b n pg ml A'"
| allocated_aligned: "reachable b n pg ml A \<Longrightarrow> AllocateAlignedRegion A k al = Some (x, A') \<Longrightarrow> reachable b n pg ml A'"
| allocated_hint: "reachable b n pg ml A \<Longrightarrow> hint < 2 ^ 64 \<Longrightarrow> k < 2 ^ 64 \<Longrightarrow> AllocateRegion_hint A hint k al = Some (x, A') \<Longrightarrow> reachable b n pg ml A'"
| trimmed: "reachable b n pg ml A \<Longrightarrow> a < 2 ^ 64 \<Longrightarrow> TrimRegion A a m = Some (k, A') \<Longrightarrow> reachable b n pg ml A'"
| freed: "reachable b n pg ml A \<Longrightarrow> a < 2 ^ 64 \<Longrightarrow> FreeRegion A a = Some (k, A') \<Longrightarrow> reachable b n pg ml A'"

lemma allocates_wf: "A' = A \<or> allocates A x k st A' \<Longrightarrow> wf_allocator A \<Longrightarrow> wf_allocator A' \<and> config A' = config A"
  by (auto simp: allocates_def)

lemma reachable_wf:
  assumes "reachable b n pg ml A" and "b < 2 ^ 64" and "n < 2 ^ 64"
  shows "wf_allocator A \<and> config A = (\<lparr>r_begin = b, r_size = n, r_state = kFree\<rparr>, n div pg, ml, pg)"
  using assms(1)
proof (induction rule: reachable.induct)
  case (created A)
  then show ?case using RegionAllocator_new_ok(2) [OF assms(2,3)] by blast
next
  case (allocated A k x A')
  then show ?case using AllocateRegion_returns [of A k x A'] allocates_wf by metis
next
  case (allocated_random A k rng x A')
  then show ?case using AllocateRegion_random_returns [of A k rng x A'] allocates_wf by metis
next
  case (allocated_at A a k st success A')
  then show ?case using AllocateRegionAt_returns [of A a k st success A'] allocates_wf by metis
next
  case (allocated_aligned A k al x A')
  then show ?case using AllocateAlignedRegion_returns [of A k al x A'] allocates_wf by metis
next
  case (allocated_hint A hint k al x A')
  then show ?case using AllocateRegion_hint_returns [of A hint k al x A'] allocates_wf by metis
next
  case (trimmed A a m k A')
  then show ?case using TrimRegion_returns [of A a m k A'] by simp
next
  case (freed A a k A')
  then show ?case using TrimRegion_returns [of A a 0 k A'] by (simp add: FreeRegion_def)
qed

section \<open>What an allocation promises\<close>

lemma finite_blocks: "finite (blocks A)"
  by (simp add: blocks_def)

lemma allocates_new: "allocates A a n st A' \<Longrightarrow> \<lparr>r_begin = a, r_size = n, r_state = st\<rparr> \<notin> blocks A"
  by (force simp: allocates_def apart_def)

lemma allocates_free_size:
  assumes "wf_allocator A" and "allocates A a n st A'"
  shows "free_size A' + n = free_size A"
proof -
  have "(\<Sum>r\<in>blocks A'. r_size r) = n + (\<Sum>r\<in>blocks A. r_size r)"
    using assms(2) allocates_new [OF assms(2)] finite_blocks by (simp add: allocates_def)
  moreover have "whole_region A' = whole_region A" "wf_allocator A'" using assms(2) by (simp_all add: allocates_def config_def)
  ultimately show ?thesis using wf_sizes [OF assms(1)] wf_sizes [of A'] by simp
qed

lemma CheckRegion_block:
  assumes "wf_allocator A" and "r \<in> blocks A"
  shows "CheckRegion A (r_begin r) = Some (r_size r)"
proof -
  from assms(2) obtain xs ys where "all_regions A = xs @ r # ys" and st: "r_state r \<noteq> kFree" by (auto simp: blocks_def dest: split_list)
  note wf = wf_region(1) [OF assms(1) this(1)]
  show ?thesis using FindRegion_inside [OF wf order_refl] shape_region_at [OF wf] wf_blocks(3) [OF assms] st by (simp add: CheckRegion_def)
qed

lemma allocates_FreeRegion:
  assumes "wf_allocator A" and "allocates A a n kAllocated A'"
  obtains A'' where "FreeRegion A' a = Some (n, A'')" and "A'' = A\<lparr>calls := calls A''\<rparr>"
proof -
  let ?r = "\<lparr>r_begin = a, r_size = n, r_state = kAllocated\<rparr>"
  have A': "wf_allocator A'" "config A' = config A" "blocks A' = insert ?r (blocks A)" using assms(2) by (simp_all add: allocates_def)
  then have "?r \<in> set (all_regions A')" by (auto simp: blocks_def)
  then obtain xs ys where "all_regions A' = xs @ ?r # ys" by (meson split_list)
  from TrimRegion_free [OF A'(1) this] obtain A'' where
    A'': "FreeRegion A' a = Some (n, A'')" "wf_allocator A''" "config A'' = config A'" "blocks A'' = blocks A' - {?r}"
    by (auto simp: FreeRegion_def)
  have "blocks A'' = blocks A" using A''(4) A'(3) allocates_new [OF assms(2)] by simp
  then have "A'' = A\<lparr>calls := calls A''\<rparr>" using blocks_determine_state [OF assms(1) A''(2)] A''(3) A'(2) by simp
  with A''(1) show thesis by (rule that)
qed

locale region_allocation =
  fixes alloc :: "RegionAllocator \<Rightarrow> nat \<Rightarrow> (Address \<times> RegionAllocator) option"
  assumes returns: "wf_allocator A \<Longrightarrow> n < 2 ^ 64 \<Longrightarrow> alloc A n = Some (x, A') \<Longrightarrow>
     x = kAllocationFailure \<and> A' = A \<or> allocates A x n kAllocated A'"
begin

lemma failure_keeps_state:
  "wf_allocator A \<Longrightarrow> n < 2 ^ 64 \<Longrightarrow> alloc A n = Some (kAllocationFailure, A') \<Longrightarrow> A' = A"
  using returns allocates_success by blast

lemma success_allocates:
  "wf_allocator A \<Longrightarrow> n < 2 ^ 64 \<Longrightarrow> alloc A n = Some (x, A') \<Longrightarrow> x \<noteq> kAllocationFailure \<Longrightarrow> allocates A x n kAllocated A'"
  using returns by blast

lemma undone_by_free:
  assumes "wf_allocator A" and "n < 2 ^ 64" and "alloc A n = Some (x, A')" and "x \<noteq> kAllocationFailure"
  shows "CheckRegion A' x = Some n \<and> free_size A' + n = free_size A \<and> (\<exists>A''. FreeRegion A' x = Some (n, A'') \<and> A'' = A\<lparr>calls := calls A''\<rparr>)"
proof -
  note a = success_allocates [OF assms]
  have "CheckRegion A' x = Some n" using CheckRegion_block [of A' "\<lparr>r_begin = x, r_size = n, r_state = kAllocated\<rparr>"] a by (simp add: allocates_def)
  then show ?thesis using allocates_free_size [OF assms(1) a] allocates_FreeRegion [OF assms(1) a] by blast
qed

end

lemma unat_address: "unat (w :: 64 word) < 2 ^ 64"
  using unsigned_less [of w, where 'a = nat] by simp

interpretation free_list: region_allocation AllocateRegion
  by unfold_locales (rule AllocateRegion_returns)

interpretation randomised: region_allocation "\<lambda>A. AllocateRegion_random A rng" for rng
  by unfold_locales (rule AllocateRegion_random_returns)

interpretation aligned: region_allocation "\<lambda>A n. AllocateAlignedRegion A n alignment" for alignment
  by unfold_locales (rule AllocateAlignedRegion_returns)

interpretation hinted: region_allocation "\<lambda>A n. AllocateRegion_hint A (unat (hint :: 64 word)) n alignment" for hint alignment
  by unfold_locales (rule AllocateRegion_hint_returns [OF _ unat_address])

section \<open>Queries\<close>

lemma IsFree_iff:
  assumes "wf_allocator A" and "whole_begin A \<le> a" and "0 < n" and "a + n \<le> whole_end A"
  shows "IsFree A a n = Some (\<forall>b\<in>blocks A. apart b a n)"
proof -
  have s: "shape A (all_regions A)" using assms(1) by (simp add: wf_allocator_def)
  have c: "contains_range r a n \<longleftrightarrow> a < r_begin r + r_size r \<and> a + n \<le> r_begin r + r_size r"
    if "r_begin r \<le> a" "r_begin r + r_size r < 2 ^ 64" for r
    using that assms(4) shapeD(3) [OF s] by (auto simp: contains_range_def sub64_le add64_def Let_def)
  have w: "contains_range (whole_region A) a n" using c [OF assms(2) shapeD(3) [OF s]] assms(3,4) by simp
  show ?thesis
  proof (rule free_range_region [OF assms])
    fix xs r ys assume r: "all_regions A = xs @ r # ys" "r_begin r \<le> a" "a < r_begin r + r_size r" "r_state r = kFree"
      "a + n \<le> r_begin r + r_size r" "\<forall>b\<in>blocks A. apart b a n"
    note wf = wf_region(1) [OF assms(1) r(1)]
    show ?thesis using w r(2-6) c [OF r(2)] shape_end(2) [OF wf, of r] FindRegion_inside [OF wf r(2,3)] shape_region_at [OF wf] by (simp add: IsFree_def)
  next
    fix xs r ys assume r: "all_regions A = xs @ r # ys" "r_begin r \<le> a" "a < r_begin r + r_size r"
      "r_state r \<noteq> kFree \<or> r_begin r + r_size r < a + n" "\<exists>b\<in>blocks A. \<not> apart b a n"
    note wf = wf_region(1) [OF assms(1) r(1)]
    show ?thesis using w r(2-5) c [OF r(2)] shape_end(2) [OF wf, of r] FindRegion_inside [OF wf r(2,3)] shape_region_at [OF wf]
      by (auto simp: IsFree_def)
  qed
qed

text \<open>The sum in \<^const>\<open>contains_range\<close> wraps around: an enormous range is said to lie in any region.\<close>

lemma contains_range_wraps: "1 < r_size r \<Longrightarrow> r_begin r + 1 < 2 ^ 64 \<Longrightarrow> contains_range r (r_begin r + 1) (2 ^ 64 - 1)"
  by (simp add: contains_range_def sub64_le add64_def Let_def)

section \<open>Hinted allocation\<close>

lemma contains_range_whole:
  assumes "r_begin r + r_size r < 2 ^ 64" and "a + n < 2 ^ 64" and "0 < n"
  shows "contains_range r a n \<longleftrightarrow> r_begin r \<le> a \<and> a + n \<le> r_begin r + r_size r"
proof (cases "r_begin r \<le> a")
  case True
  then show ?thesis using assms by (auto simp: contains_range_def sub64_le add64_def Let_def)
next
  case False
  then have "\<not> contains r a" using contains_iff [OF assms(1)] assms(2) by simp
  then show ?thesis using False by (simp add: contains_range_def contains_def Let_def)
qed

lemma hint_fallback:
  assumes "wf_allocator A" and "page_size A dvd n" and "0 < n" and "IsPowerOfTwo alignment" and "page_size A dvd alignment"
    and "n + alignment < 2 ^ 64" and "alignment < 2 ^ 63"
  obtains x A' where "(if alignment \<le> page_size A then AllocateRegion A n else AllocateAlignedRegion A n alignment) = Some (x, A')"
    and "x = kAllocationFailure \<and> A' = A \<and> (\<forall>r\<in>set (all_regions A). r_state r = kFree \<longrightarrow> r_size r < n + alignment - page_size A) \<or>
         alignment dvd x \<and> allocates A x n kAllocated A'"
proof (cases "alignment \<le> page_size A")
  case True
  have "0 < alignment" using assms(4) by (simp add: IsPowerOfTwo_def)
  then have eq: "alignment = page_size A" using dvd_imp_le [OF assms(5)] True by simp
  show thesis
  proof (rule AllocateRegion_cases [OF assms(1-3)])
    fix r A' assume A': "AllocateRegion A n = Some (r_begin r, A')" "allocates A (r_begin r) n kAllocated A'"
    then have "alignment dvd r_begin r" by (simp add: allocates_def eq)
    then show thesis by (intro that [of "r_begin r" A']) (simp_all add: A' eq)
  qed (intro that [of kAllocationFailure A], simp_all add: eq)
next
  case False
  show thesis
  proof (rule AllocateAlignedRegion_cases [OF assms])
    fix a A' assume "AllocateAlignedRegion A n alignment = Some (a, A')" "allocates A a n kAllocated A'" "alignment dvd a"
    then show thesis by (intro that [of a A']) (simp_all add: False)
  qed (intro that [of kAllocationFailure A], simp_all add: False)
qed

section \<open>Properties\<close>

text \<open>The allocator for sixteen pages of 4096 bytes, on which the properties are evaluated.\<close>

definition sixteen_pages :: RegionAllocator where
  "sixteen_pages = (let whole = \<lparr>r_begin = 65536, r_size = 65536, r_state = kFree\<rparr> in
     \<lparr>whole_region = whole, region_size_in_pages = 16, max_load_for_randomization = 26214, free_size = 65536, page_size = 4096,
      all_regions = [whole], free_regions = [65536], calls = []\<rparr>)"

lemma sixteen_pages_new: "RegionAllocator_new 65536 65536 4096 26214 = Some sixteen_pages"
  by (simp add: RegionAllocator_new_def sixteen_pages_def FreeListAddRegion_def region_at_def r_end_def add64_def IsPowerOfTwo_def IsAligned_def Let_def)

lemma sixteen_pages_wf: "wf_allocator sixteen_pages"
  using RegionAllocator_new_ok(2) [OF _ _ sixteen_pages_new] by simp

lemma sixteen_pages_fields:
  "blocks sixteen_pages = {}" "page_size sixteen_pages = 4096" "whole_begin sixteen_pages = 65536" "r_size (whole_region sixteen_pages) = 65536"
  "all_regions sixteen_pages = [\<lparr>r_begin = 65536, r_size = 65536, r_state = kFree\<rparr>]" "free_size sixteen_pages = 65536"
  by (simp_all add: blocks_def sixteen_pages_def Let_def)

text \<open>
  C2: Whatever sequence of calls has been made on a region allocator, with any arguments, its regions
  tile the managed range, no two free regions touch, and the free list holds exactly the free regions by size and address
  (\<^const>\<open>wf_allocator\<close>).  The blocks in use lie in the range, are page-aligned, do not overlap, and together with the free size
  add up to the size of the range.
\<close>

theorem region_allocator_invariant:
  assumes "reachable b n pg ml A" and "b < 2 ^ 64" and "n < 2 ^ 64"
  shows "wf_allocator A \<and> free_size A + (\<Sum>r\<in>blocks A. r_size r) = n \<and>
    (\<forall>r\<in>blocks A. b \<le> r_begin r \<and> r_begin r + r_size r \<le> b + n \<and> 0 < r_size r \<and> pg dvd r_begin r \<and> pg dvd r_size r \<and>
       (\<forall>r'\<in>blocks A. r' \<noteq> r \<longrightarrow> apart r' (r_begin r) (r_size r)))"
proof -
  have wf: "wf_allocator A" and c: "whole_region A = \<lparr>r_begin = b, r_size = n, r_state = kFree\<rparr>" "page_size A = pg"
    using reachable_wf [OF assms] by (simp_all add: config_def)
  have s: "shape A (all_regions A)" using wf by (simp add: wf_allocator_def)
  have "pg dvd r_begin r \<and> pg dvd r_size r" if "r \<in> blocks A" for r
    using tiles_aligned [OF shapeD(5,4) [OF s]] that c(2) by (simp add: blocks_def)
  then show ?thesis using wf wf_sizes [OF wf] wf_blocks [OF wf] c by simp
qed

theorem region_allocator_invariant_witness:
  "\<exists>A. reachable 65536 65536 4096 26214 A \<and> blocks A \<noteq> {} \<and> wf_allocator A"
proof -
  obtain x A where A: "AllocateRegion sixteen_pages 8192 = Some (x, A)" "allocates sixteen_pages x 8192 kAllocated A"
    by (rule AllocateRegion_cases [OF sixteen_pages_wf, of 8192]) (auto simp: sixteen_pages_fields)
  then have r: "reachable 65536 65536 4096 26214 A" using allocated [OF created [OF sixteen_pages_new]] by blast
  show ?thesis using region_allocator_invariant [OF r] r A(2) by (auto simp: allocates_def)
qed

text \<open>
  C13: Allocating \<open>n\<close> bytes always returns.  If some free region is large enough, the result is the begin of
  the smallest such region (the lowest of equally small ones), and the allocator has gained exactly that block, which lies in
  the range and meets no other block.  Otherwise the result is \<open>kAllocationFailure\<close> and the allocator is unchanged.
\<close>

theorem AllocateRegion_best_fit:
  assumes "wf_allocator A" and "page_size A dvd n" and "0 < n"
  shows "\<exists>x A'. AllocateRegion A n = Some (x, A') \<and>
    (if \<exists>r\<in>set (all_regions A). r_state r = kFree \<and> n \<le> r_size r
     then \<exists>r. best_fit A n r \<and> x = r_begin r \<and> allocates A x n kAllocated A'
     else x = kAllocationFailure \<and> A' = A)"
proof (rule AllocateRegion_cases [OF assms])
  fix r A' assume "best_fit A n r" "AllocateRegion A n = Some (r_begin r, A')" "allocates A (r_begin r) n kAllocated A'"
  then show ?thesis by (intro exI [of _ "r_begin r"] exI [of _ A']) (auto simp: best_fit_def)
qed (auto simp: not_le)

theorem AllocateRegion_best_fit_witness:
  "\<exists>A'. AllocateRegion sixteen_pages 8192 = Some (65536, A') \<and> blocks A' = {\<lparr>r_begin = 65536, r_size = 8192, r_state = kAllocated\<rparr>}"
  using AllocateRegion_best_fit [OF sixteen_pages_wf, of 8192] by (auto simp: sixteen_pages_fields allocates_def best_fit_def)

text \<open>
  C14: Allocating a range that ends within the managed range always returns.  It succeeds if and only if the
  range starts in the managed range and meets no block in use (whether the free space is one region or not is invisible, since
  free regions are coalesced); then exactly that block is added, with the requested state.  Otherwise nothing changes.
\<close>

theorem AllocateRegionAt_spec:
  assumes "wf_allocator A" and "page_size A dvd a" and "page_size A dvd n" and "0 < n" and "st \<noteq> kFree" and "a + n \<le> whole_end A"
  shows "\<exists>A'. AllocateRegionAt A a n st = Some (grants A a n, A') \<and> (if grants A a n then allocates A a n st A' else A' = A)"
  by (rule AllocateRegionAt_cases [OF assms]) (use assms in \<open>auto simp: allocates_def grants_def\<close>)

theorem AllocateRegionAt_spec_witness:
  "\<exists>A'. AllocateRegionAt sixteen_pages 73728 8192 kExcluded = Some (True, A') \<and>
     blocks A' = {\<lparr>r_begin = 73728, r_size = 8192, r_state = kExcluded\<rparr>}"
  using AllocateRegionAt_spec [OF sixteen_pages_wf, of 73728 8192 kExcluded] by (auto simp: sixteen_pages_fields allocates_def grants_def)

text \<open>
  C17: Allocation with a hint and an alignment always returns.  If the hinted range is available the result
  is the hint.  Otherwise the result is an aligned address with the new block, or \<open>kAllocationFailure\<close> with the allocator unchanged,
  the latter only when no free region has room for the size and the padding that the alignment may need.
\<close>

theorem AllocateRegion_hint_spec:
  assumes "wf_allocator A" and "page_size A dvd n" and "0 < n" and "IsPowerOfTwo alignment" and "page_size A dvd alignment"
    and "n + alignment < 2 ^ 64" and "alignment dvd hint" and "hint + n < 2 ^ 64" and "alignment < 2 ^ 63"
  shows "\<exists>x A'. AllocateRegion_hint A hint n alignment = Some (x, A') \<and>
    (if hint \<noteq> 0 \<and> hint + n \<le> whole_end A \<and> grants A hint n then x = hint \<and> allocates A hint n kAllocated A'
     else x = kAllocationFailure \<and> A' = A \<and> (\<forall>r\<in>set (all_regions A). r_state r = kFree \<longrightarrow> r_size r < n + alignment - page_size A) \<or>
          alignment dvd x \<and> allocates A x n kAllocated A')"
proof -
  have s: "shape A (all_regions A)" using assms(1) by (simp add: wf_allocator_def)
  have hint: "page_size A dvd hint" using assms(5,7) by (rule dvd_trans)
  have al: "IsAligned alignment (page_size A)" "IsAligned hint alignment" using IsAligned_dvd shapeD(2) [OF s] assms(4,5,7) by simp_all
  have c: "contains_range (whole_region A) hint n \<longleftrightarrow> whole_begin A \<le> hint \<and> hint + n \<le> whole_end A"
    by (rule contains_range_whole [OF shapeD(3) [OF s] assms(8,3)])
  show ?thesis
  proof (cases "hint \<noteq> 0 \<and> hint + n \<le> whole_end A \<and> grants A hint n")
    case True
    then obtain A' where "AllocateRegion_hint A hint n alignment = Some (hint, A')" "allocates A hint n kAllocated A'"
      using AllocateRegion_hint_granted [OF assms(1) _ assms(2,3) _ _ assms(5,4,7)] by blast
    then show ?thesis using True by simp
  next
    case False
    have "(if hint \<noteq> 0 \<and> contains_range (whole_region A) hint n then AllocateRegionAt A hint n kAllocated else Some (False, A)) = Some (False, A)"
      using False c AllocateRegionAt_cases [OF assms(1) hint assms(2,3), of kAllocated] by (metis RegionState.distinct(3))
    then have "AllocateRegion_hint A hint n alignment =
        (if alignment \<le> page_size A then AllocateRegion A n else AllocateAlignedRegion A n alignment)"
      using al by (simp add: AllocateRegion_hint_def)
    then show ?thesis unfolding if_not_P [OF False] using hint_fallback [OF assms(1-6,9)] by metis
  qed
qed

theorem AllocateRegion_hint_spec_witness:
  "\<exists>A'. AllocateRegion_hint sixteen_pages 98304 8192 32768 = Some (98304, A') \<and>
     blocks A' = {\<lparr>r_begin = 98304, r_size = 8192, r_state = kAllocated\<rparr>}"
  using AllocateRegion_hint_spec [OF sixteen_pages_wf, of 8192 32768 98304]
  by (auto simp: sixteen_pages_fields allocates_def grants_def IsPowerOfTwo_def)

text \<open>
  C16: Trimming the allocated block at an address to a smaller size always returns the number of bytes released; the block
  keeps the new size (or is gone when the new size is zero), every other block is untouched, and the released bytes are free again.
  Where no allocated block starts at the address, the result is zero and nothing changes.
\<close>

theorem TrimRegion_spec:
  assumes "wf_allocator A" and "a < 2 ^ 64" and "page_size A dvd m"
  shows "(\<forall>r\<in>blocks A. r_begin r = a \<and> r_state r = kAllocated \<and> m < r_size r \<longrightarrow>
      (\<exists>A'. TrimRegion A a m = Some (r_size r - m, A') \<and> wf_allocator A' \<and> free_size A' = free_size A + (r_size r - m) \<and>
         blocks A' = (blocks A - {r}) \<union> (if m = 0 then {} else {r\<lparr>r_size := m\<rparr>}))) \<and>
    ((\<forall>r\<in>blocks A. r_begin r = a \<longrightarrow> r_state r \<noteq> kAllocated) \<longrightarrow> TrimRegion A a m = Some (0, A))"
proof (intro conjI ballI impI)
  fix r assume r: "r \<in> blocks A" "r_begin r = a \<and> r_state r = kAllocated \<and> m < r_size r"
  then obtain xs ys where split: "all_regions A = xs @ r # ys" by (auto simp: blocks_def dest: split_list)
  obtain A' where A': "TrimRegion A a m = Some (r_size r - m, A')" "wf_allocator A'" "config A' = config A"
    "blocks A' = (blocks A - {r}) \<union> (if m = 0 then {} else {r\<lparr>r_size := m\<rparr>})"
  proof (cases "m = 0")
    case True
    then show thesis using TrimRegion_free [OF assms(1) split] r(2) that by auto
  next
    case False
    then show thesis using TrimRegion_shrink [OF assms(1) split _ assms(3)] r(2) that by auto
  qed
  have new: "r\<lparr>r_size := m\<rparr> \<notin> blocks A - {r}" if "0 < m"
    using wf_blocks(4) [OF assms(1) r(1), of "r\<lparr>r_size := m\<rparr>"] that r(2) by (auto simp: apart_def)
  have "(\<Sum>r\<in>blocks A'. r_size r) = (\<Sum>r\<in>blocks A - {r}. r_size r) + m"
    using new finite_blocks [of A] by (simp add: A'(4))
  moreover have "(\<Sum>r\<in>blocks A. r_size r) = r_size r + (\<Sum>r\<in>blocks A - {r}. r_size r)" by (rule sum.remove [OF finite_blocks r(1)])
  ultimately have "free_size A' = free_size A + (r_size r - m)"
    using wf_sizes [OF assms(1)] wf_sizes [OF A'(2)] A'(3) r(2) by (simp add: config_def)
  then show "\<exists>A'. TrimRegion A a m = Some (r_size r - m, A') \<and> wf_allocator A' \<and> free_size A' = free_size A + (r_size r - m) \<and>
         blocks A' = (blocks A - {r}) \<union> (if m = 0 then {} else {r\<lparr>r_size := m\<rparr>})" using A' by blast
next
  assume none: "\<forall>r\<in>blocks A. r_begin r = a \<longrightarrow> r_state r \<noteq> kAllocated"
  show "TrimRegion A a m = Some (0, A)" by (rule TrimRegion_cases [OF assms]) (use none in \<open>auto simp: blocks_def\<close>)
qed

theorem TrimRegion_spec_witness:
  "\<exists>A A'. AllocateRegion sixteen_pages 16384 = Some (65536, A) \<and> TrimRegion A 65536 4096 = Some (12288, A') \<and> free_size A' = free_size A + 12288"
proof -
  obtain A where A: "AllocateRegion sixteen_pages 16384 = Some (65536, A)" "allocates sixteen_pages 65536 16384 kAllocated A"
    by (rule AllocateRegion_cases [OF sixteen_pages_wf, of 16384]) (auto simp: sixteen_pages_fields best_fit_def)
  then have "wf_allocator A" "page_size A = 4096" "blocks A = {\<lparr>r_begin = 65536, r_size = 16384, r_state = kAllocated\<rparr>}"
    by (simp_all add: allocates_def config_def sixteen_pages_fields)
  then show ?thesis using TrimRegion_spec [of A 65536 4096] A(1) by auto
qed

text \<open>
  C9: Freeing undoes an allocation, whichever of the four allocating operations made it: after a successful allocation
  of \<open>n\<close> bytes at \<open>x\<close>, the block at \<open>x\<close> is reported with size \<open>n\<close>, the free size has dropped by \<open>n\<close>, and freeing \<open>x\<close> returns \<open>n\<close>
  and leaves the allocator exactly as it was, free list included, apart from the callbacks made.
\<close>

theorem allocate_then_free:
  assumes "wf_allocator A" and "n < 2 ^ 64" and "x \<noteq> kAllocationFailure"
    and "Some (x, A') \<in> {AllocateRegion A n, AllocateRegion_random A rng n, AllocateAlignedRegion A n alignment,
           AllocateRegion_hint A (unat (hint :: 64 word)) n alignment}"
  shows "CheckRegion A' x = Some n \<and> free_size A' + n = free_size A \<and>
    (\<exists>A''. FreeRegion A' x = Some (n, A'') \<and> A'' = A\<lparr>calls := calls A''\<rparr>)"
proof -
  note undone = free_list.undone_by_free [OF assms(1,2) _ assms(3)] randomised.undone_by_free [OF assms(1,2) _ assms(3)]
    aligned.undone_by_free [OF assms(1,2) _ assms(3)] hinted.undone_by_free [OF assms(1,2) _ assms(3)]
  from assms(4) show ?thesis by (elim insertE emptyE) (rule undone, erule sym)+
qed

theorem allocate_then_free_witness:
  "\<exists>A A'. AllocateRegion sixteen_pages 8192 = Some (65536, A) \<and> FreeRegion A 65536 = Some (8192, A') \<and> all_regions A' = all_regions sixteen_pages"
proof -
  obtain A where A: "AllocateRegion sixteen_pages 8192 = Some (65536, A)"
    by (rule AllocateRegion_cases [OF sixteen_pages_wf, of 8192]) (auto simp: sixteen_pages_fields best_fit_def)
  show ?thesis
    using allocate_then_free [OF sixteen_pages_wf, of 8192 65536 A "\<lambda>_. 0" 4096 0] A
    by (auto simp: code_defs) (metis RegionAllocator.select_convs(6) RegionAllocator.surjective RegionAllocator.update_convs(8))
qed

end
