(* ===== verification/Memory_Reducer.thy ===== *)
theory Memory_Reducer
  imports V8_Prelude Complex_Main
begin

text \<open>
  \<open>heap/memory-reducer.cc\<close> and \<open>memory-reducer.h\<close>: the automaton that starts a bounded number of garbage collections once the
  program is idle, and the object that drives it with timers.

  Times are real numbers (the code has \<open>double\<close>), so sums and differences of times are exact.  The product of the committed
  memory with \<open>kCommittedMemoryFactor\<close>, a floating-point operation, is an argument.  What the code asks the heap (time, committed
  memory, allocation rate, state of incremental marking) is the input of each call.  \<open>None\<close> is a failed check.
\<close>

section \<open>States and events\<close>

datatype Id = kDone | kWait | kRun

record State =
  state_id :: Id
  started_gcs :: nat
  next_gc_start_ms :: real
  last_gc_time_ms :: real
  committed_memory_at_last_run :: nat

datatype EventType = kTimer | kMarkCompact | kPossibleGarbage

record Event =
  type :: EventType
  time_ms :: real
  committed_memory :: nat
  next_gc_likely_to_collect_more :: bool
  should_start_incremental_gc :: bool
  can_start_incremental_gc :: bool

record ReducerFlags =
  memory_reducer :: bool
  incremental_marking :: bool
  memory_reducer_single_gc :: bool
  gc_memory_reducer_start_delay_ms :: int
  scaled_by_factor :: "nat \<Rightarrow> nat"

definition kLongDelayMs :: real where [code_defs]: "kLongDelayMs = 8000"
definition kShortDelayMs :: real where [code_defs]: "kShortDelayMs = 500"
definition kWatchdogDelayMs :: real where [code_defs]: "kWatchdogDelayMs = 100000"
definition kMaxNumberOfGCs :: nat where [code_defs]: "kMaxNumberOfGCs = 3"
definition kCommittedMemoryDelta :: nat where [code_defs]: "kCommittedMemoryDelta = 10 * 1048576"

definition CreateUninitialized :: State where
  [code_defs]: "CreateUninitialized = \<lparr>state_id = kDone, started_gcs = 0, next_gc_start_ms = 0, last_gc_time_ms = 0, committed_memory_at_last_run = 0\<rparr>"

definition CreateDone :: "real \<Rightarrow> nat \<Rightarrow> State" where
  [code_defs]: "CreateDone last_gc committed =
     \<lparr>state_id = kDone, started_gcs = kMaxNumberOfGCs, next_gc_start_ms = 0, last_gc_time_ms = last_gc, committed_memory_at_last_run = committed\<rparr>"

definition CreateWait :: "nat \<Rightarrow> real \<Rightarrow> real \<Rightarrow> State" where
  [code_defs]: "CreateWait started next_gc last_gc =
     \<lparr>state_id = kWait, started_gcs = started, next_gc_start_ms = next_gc, last_gc_time_ms = last_gc, committed_memory_at_last_run = 0\<rparr>"

definition CreateRun :: "nat \<Rightarrow> State" where
  [code_defs]: "CreateRun started = \<lparr>state_id = kRun, started_gcs = started, next_gc_start_ms = 0, last_gc_time_ms = 0, committed_memory_at_last_run = 0\<rparr>"

definition WatchdogGC :: "State \<Rightarrow> Event \<Rightarrow> bool" where
  "WatchdogGC s e \<longleftrightarrow> last_gc_time_ms s \<noteq> 0 \<and> time_ms e > last_gc_time_ms s + kWatchdogDelayMs"

definition Step :: "ReducerFlags \<Rightarrow> State \<Rightarrow> Event \<Rightarrow> State option" where
  "Step f s e = (if \<not> memory_reducer f \<or> \<not> incremental_marking f then None else case state_id s of
     kDone \<Rightarrow>
       if memory_reducer_single_gc f \<and> \<not> (started_gcs s = 0 \<or> started_gcs s = kMaxNumberOfGCs) then None
       else (case type e of
         kTimer \<Rightarrow> Some s
       | kMarkCompact \<Rightarrow>
           if committed_memory e < max (scaled_by_factor f (committed_memory_at_last_run s))
                ((committed_memory_at_last_run s + kCommittedMemoryDelta) mod 2 ^ 64)
           then Some s
           else Some (CreateWait 0 (time_ms e + kLongDelayMs) (time_ms e))
       | kPossibleGarbage \<Rightarrow>
           Some (CreateWait 0 (time_ms e + of_int (gc_memory_reducer_start_delay_ms f)) (last_gc_time_ms s)))
   | kWait \<Rightarrow>
       if memory_reducer_single_gc f \<and> started_gcs s \<noteq> 0 then None
       else (case type e of
         kPossibleGarbage \<Rightarrow> Some s
       | kTimer \<Rightarrow>
           if started_gcs s \<ge> kMaxNumberOfGCs then Some (CreateDone (last_gc_time_ms s) (committed_memory e))
           else if can_start_incremental_gc e \<and> (should_start_incremental_gc e \<or> WatchdogGC s e)
           then (if next_gc_start_ms s \<le> time_ms e then Some (CreateRun (started_gcs s + 1)) else Some s)
           else Some (CreateWait (started_gcs s) (time_ms e + kLongDelayMs) (last_gc_time_ms s))
       | kMarkCompact \<Rightarrow> Some (CreateWait (started_gcs s) (time_ms e + kLongDelayMs) (time_ms e)))
   | kRun \<Rightarrow>
       if memory_reducer_single_gc f \<and> started_gcs s \<noteq> 1 then None
       else (case type e of
         kMarkCompact \<Rightarrow>
           if \<not> memory_reducer_single_gc f \<and> started_gcs s < kMaxNumberOfGCs \<and>
              (next_gc_likely_to_collect_more e \<or> started_gcs s = 1)
           then Some (CreateWait (started_gcs s) (time_ms e + kShortDelayMs) (time_ms e))
           else Some (CreateDone (time_ms e) (committed_memory e))
       | _ \<Rightarrow> Some s))"

section \<open>The reducer object\<close>

text \<open>The object's state, the timer tasks posted and not yet run, whether the heap is tearing down, and the collections started.\<close>

record MemoryReducer =
  mr_state :: State
  pending_timers :: nat
  tearing_down :: bool
  gc_starts :: nat

definition MemoryReducer_new :: "ReducerFlags \<Rightarrow> MemoryReducer option" where
  "MemoryReducer_new f =
     (if \<not> incremental_marking f \<or> \<not> memory_reducer f then None
      else Some \<lparr>mr_state = CreateUninitialized, pending_timers = 0, tearing_down = False, gc_starts = 0\<rparr>)"

definition ScheduleTimer :: "MemoryReducer \<Rightarrow> real \<Rightarrow> MemoryReducer option" where
  "ScheduleTimer M delay_ms =
     (if \<not> 0 < delay_ms then None
      else if tearing_down M then Some M
      else Some (M\<lparr>pending_timers := pending_timers M + 1\<rparr>))"

record MarkCompactInput =
  mc_time_ms :: real
  committed_memory_before :: nat
  mc_committed_memory :: nat
  HasHighFragmentation :: bool

definition mark_compact_event :: "MarkCompactInput \<Rightarrow> Event" where
  "mark_compact_event i = \<lparr>type = kMarkCompact, time_ms = mc_time_ms i, committed_memory = mc_committed_memory i,
     next_gc_likely_to_collect_more = committed_memory_before i > (mc_committed_memory i + 1048576) mod 2 ^ 64 \<or> HasHighFragmentation i,
     should_start_incremental_gc = False, can_start_incremental_gc = False\<rparr>"

definition NotifyMarkCompact :: "ReducerFlags \<Rightarrow> MemoryReducer \<Rightarrow> MarkCompactInput \<Rightarrow> MemoryReducer option" where
  "NotifyMarkCompact f M i = (if \<not> incremental_marking f then Some M else do {
     let event = mark_compact_event i;
     let old_action = state_id (mr_state M);
     s \<leftarrow> Step f (mr_state M) event;
     let M = M\<lparr>mr_state := s\<rparr>;
     if old_action \<noteq> kWait \<and> state_id s = kWait then ScheduleTimer M (next_gc_start_ms s - time_ms event) else Some M })"

definition possible_garbage_event :: "real \<Rightarrow> Event" where
  "possible_garbage_event now = \<lparr>type = kPossibleGarbage, time_ms = now, committed_memory = 0, next_gc_likely_to_collect_more = False,
     should_start_incremental_gc = False, can_start_incremental_gc = False\<rparr>"

definition NotifyPossibleGarbage :: "ReducerFlags \<Rightarrow> MemoryReducer \<Rightarrow> real \<Rightarrow> MemoryReducer option" where
  "NotifyPossibleGarbage f M now = do {
     let event = possible_garbage_event now;
     let old_action = state_id (mr_state M);
     s \<leftarrow> Step f (mr_state M) event;
     let M = M\<lparr>mr_state := s\<rparr>;
     if old_action \<noteq> kWait \<and> state_id s = kWait then ScheduleTimer M (next_gc_start_ms s - time_ms event) else Some M }"

text \<open>
  The answers of the heap during a timer task; \<open>finalized\<close> is the garbage collection that \<open>AdvanceAndFinalizeIfComplete\<close>
  performs, if it completes one, which notifies the reducer before it returns.
\<close>

record TimerInput =
  t_time_ms :: real
  t_committed_memory :: nat
  HasLowAllocationRate :: bool
  ShouldOptimizeForMemoryUsage :: bool
  IsStopped :: bool
  CanBeStarted :: bool
  finalized :: "MarkCompactInput option"

definition timer_event :: "TimerInput \<Rightarrow> Event" where
  "timer_event i = \<lparr>type = kTimer, time_ms = t_time_ms i, committed_memory = t_committed_memory i, next_gc_likely_to_collect_more = False,
     should_start_incremental_gc = HasLowAllocationRate i \<or> ShouldOptimizeForMemoryUsage i,
     can_start_incremental_gc = IsStopped i \<and> (CanBeStarted i \<or> ShouldOptimizeForMemoryUsage i)\<rparr>"

definition NotifyTimer :: "ReducerFlags \<Rightarrow> MemoryReducer \<Rightarrow> TimerInput \<Rightarrow> Event \<Rightarrow> MemoryReducer option" where
  "NotifyTimer f M i event =
     (if type event \<noteq> kTimer \<or> state_id (mr_state M) \<noteq> kWait then None
      else do {
        s \<leftarrow> Step f (mr_state M) event;
        let M = M\<lparr>mr_state := s\<rparr>;
        if state_id s = kRun then (if \<not> IsStopped i then None else Some (M\<lparr>gc_starts := gc_starts M + 1\<rparr>))
        else if state_id s = kWait then do {
          M \<leftarrow> (if \<not> IsStopped i \<and> ShouldOptimizeForMemoryUsage i
               then (case finalized i of None \<Rightarrow> Some M | Some mc \<Rightarrow> NotifyMarkCompact f M mc)
               else Some M);
          if state_id (mr_state M) \<noteq> kWait then None
          else ScheduleTimer M (next_gc_start_ms (mr_state M) - time_ms event) }
        else Some M })"

definition TimerTask_RunInternal :: "ReducerFlags \<Rightarrow> MemoryReducer \<Rightarrow> TimerInput \<Rightarrow> MemoryReducer option" where
  "TimerTask_RunInternal f M i = NotifyTimer f M i (timer_event i)"

definition TearDown :: "MemoryReducer \<Rightarrow> MemoryReducer" where
  "TearDown M = M\<lparr>mr_state := CreateUninitialized\<rparr>"

definition ShouldGrowHeapSlowly :: "MemoryReducer \<Rightarrow> bool" where
  "ShouldGrowHeapSlowly M \<longleftrightarrow> state_id (mr_state M) = kDone \<and> started_gcs (mr_state M) > 0"

end
