(* ===== verification/Memory_Reducer_Correct.thy ===== *)
theory Memory_Reducer_Correct
  imports Memory_Reducer
begin

text \<open>
  The memory reducer never fails a check, starts at most three collections each time it becomes active, keeps exactly one timer
  task while it waits, and comes to rest again when the program is idle.
\<close>

section \<open>The automaton\<close>

definition legal :: "ReducerFlags \<Rightarrow> State \<Rightarrow> bool" where
  "legal f s \<longleftrightarrow> memory_reducer f \<and> incremental_marking f \<and> (case state_id s of
     kDone \<Rightarrow> started_gcs s = 0 \<or> started_gcs s = kMaxNumberOfGCs
   | kWait \<Rightarrow> started_gcs s < (if memory_reducer_single_gc f then 1 else kMaxNumberOfGCs)
   | kRun \<Rightarrow> 0 < started_gcs s \<and> started_gcs s \<le> (if memory_reducer_single_gc f then 1 else kMaxNumberOfGCs))"

lemma Step_legal: "legal f s \<Longrightarrow> \<exists>s'. Step f s e = Some s' \<and> legal f s'"
  by (cases "state_id s"; cases "type e") (auto simp: legal_def Step_def code_defs)

lemma Step_legal_result: "legal f s \<Longrightarrow> Step f s e = Some s' \<Longrightarrow> legal f s'"
  using Step_legal [of f s e] by auto

text \<open>A state that waits after the step was waiting before, or the step's event decides when the timer is due.\<close>

lemma Step_wait_due:
  assumes "Step f s e = Some s'" and "state_id s' = kWait" and "0 < gc_memory_reducer_start_delay_ms f"
    and "state_id s = kWait \<Longrightarrow> type e \<noteq> kPossibleGarbage"
  shows "time_ms e < next_gc_start_ms s'"
  using assms
  by (cases "state_id s"; cases "type e")
    (auto simp: Step_def code_defs split: if_splits)

lemma Step_timer_run: "Step f s e = Some s' \<Longrightarrow> state_id s = kWait \<Longrightarrow> state_id s' = kRun \<Longrightarrow> can_start_incremental_gc e"
  by (cases "type e") (auto simp: Step_def code_defs split: if_splits)

lemma Step_wait_MarkCompact: "Step f s e = Some s' \<Longrightarrow> state_id s = kWait \<Longrightarrow> type e = kMarkCompact \<Longrightarrow> state_id s' = kWait \<and> next_gc_start_ms s' = time_ms e + kLongDelayMs"
  by (auto simp: Step_def code_defs split: if_splits)

section \<open>The object\<close>

lemma event_simps [simp]:
  "type (mark_compact_event i) = kMarkCompact" "time_ms (mark_compact_event i) = mc_time_ms i"
  "type (possible_garbage_event now) = kPossibleGarbage" "time_ms (possible_garbage_event now) = now"
  "type (timer_event j) = kTimer" "time_ms (timer_event j) = t_time_ms j"
  "can_start_incremental_gc (timer_event j) \<longleftrightarrow> IsStopped j \<and> (CanBeStarted j \<or> ShouldOptimizeForMemoryUsage j)"
  by (simp_all add: mark_compact_event_def possible_garbage_event_def timer_event_def)

definition wf_reducer :: "ReducerFlags \<Rightarrow> MemoryReducer \<Rightarrow> bool" where
  "wf_reducer f M \<longleftrightarrow> legal f (mr_state M) \<and> pending_timers M \<le> 1 \<and> (pending_timers M = 1 \<longrightarrow> state_id (mr_state M) = kWait) \<and>
     (state_id (mr_state M) = kWait \<and> \<not> tearing_down M \<longrightarrow> pending_timers M = 1)"

lemma notify_ok:
  assumes "wf_reducer f M" and "0 < gc_memory_reducer_start_delay_ms f" and "Step f (mr_state M) e = Some s"
  shows "\<exists>M'. (if state_id (mr_state M) \<noteq> kWait \<and> state_id s = kWait then ScheduleTimer (M\<lparr>mr_state := s\<rparr>) (next_gc_start_ms s - time_ms e)
      else Some (M\<lparr>mr_state := s\<rparr>)) = Some M' \<and> (type e \<noteq> kTimer \<longrightarrow> wf_reducer f M')"
proof -
  have l: "legal f s" using assms(1,3) Step_legal_result by (auto simp: wf_reducer_def)
  have due: "time_ms e < next_gc_start_ms s" if "state_id (mr_state M) \<noteq> kWait" "state_id s = kWait"
    using Step_wait_due [OF assms(3) that(2) assms(2)] that(1) by simp
  have stay: "state_id s = kWait" if "state_id (mr_state M) = kWait" "type e \<noteq> kTimer"
    using assms(3) that by (cases "type e") (auto simp: Step_def code_defs split: if_splits)
  show ?thesis using assms(1) l due stay by (auto simp: ScheduleTimer_def wf_reducer_def)
qed

lemma NotifyMarkCompact_ok:
  assumes "wf_reducer f M" and "0 < gc_memory_reducer_start_delay_ms f"
  shows "\<exists>M'. NotifyMarkCompact f M i = Some M' \<and> wf_reducer f M'"
proof -
  let ?e = "mark_compact_event i"
  obtain s where s: "Step f (mr_state M) ?e = Some s" using Step_legal assms(1) unfolding wf_reducer_def by blast
  have "incremental_marking f" using assms(1) by (simp add: wf_reducer_def legal_def)
  then show ?thesis using notify_ok [OF assms s] unfolding NotifyMarkCompact_def Let_def by (simp add: s)
qed

lemma NotifyPossibleGarbage_ok:
  assumes "wf_reducer f M" and "0 < gc_memory_reducer_start_delay_ms f"
  shows "\<exists>M'. NotifyPossibleGarbage f M now = Some M' \<and> wf_reducer f M'"
proof -
  let ?e = "possible_garbage_event now"
  obtain s where s: "Step f (mr_state M) ?e = Some s" using Step_legal assms(1) unfolding wf_reducer_def by blast
  show ?thesis using notify_ok [OF assms s] unfolding NotifyPossibleGarbage_def Let_def by (simp add: s)
qed

text \<open>A garbage collection that completes while the reducer waits leaves it waiting and posts no second timer.\<close>

lemma NotifyMarkCompact_waiting:
  assumes "legal f (mr_state M)" and "state_id (mr_state M) = kWait"
  obtains s where "NotifyMarkCompact f M i = Some (M\<lparr>mr_state := s\<rparr>)" and "legal f s" and "state_id s = kWait"
    and "next_gc_start_ms s = mc_time_ms i + kLongDelayMs"
proof -
  let ?e = "mark_compact_event i"
  obtain s where s: "Step f (mr_state M) ?e = Some s" "legal f s" using Step_legal [OF assms(1)] by blast
  then show thesis using that [of s] Step_wait_MarkCompact [OF s(1) assms(2)] assms(2) by (simp add: NotifyMarkCompact_def Let_def legal_def)
qed

definition timely :: "TimerInput \<Rightarrow> bool" where
  "timely i \<longleftrightarrow> (case finalized i of None \<Rightarrow> True | Some mc \<Rightarrow> t_time_ms i \<le> mc_time_ms mc)"

lemma TimerTask_ok:
  assumes "wf_reducer f M" and "0 < gc_memory_reducer_start_delay_ms f" and "0 < pending_timers M" and "timely i"
  shows "\<exists>M'. TimerTask_RunInternal f (M\<lparr>pending_timers := pending_timers M - 1\<rparr>) i = Some M' \<and> wf_reducer f M'"
proof -
  let ?e = "timer_event i"
  define M0 where "M0 = M\<lparr>pending_timers := pending_timers M - 1\<rparr>"
  have p: "pending_timers M = 1" "state_id (mr_state M) = kWait" "legal f (mr_state M)"
    using assms(1,3) by (auto simp: wf_reducer_def)
  then have M0: "mr_state M0 = mr_state M" "pending_timers M0 = 0" "tearing_down M0 = tearing_down M" by (simp_all add: M0_def)
  obtain s where s: "Step f (mr_state M) ?e = Some s" "legal f s" using Step_legal [OF p(3)] by blast
  have run: "state_id s = kRun \<Longrightarrow> IsStopped i" using Step_timer_run [OF s(1) p(2)] by simp
  have "\<exists>M'. TimerTask_RunInternal f M0 i = Some M' \<and> wf_reducer f M'"
  proof (cases "state_id s = kWait")
    case True
    have due: "t_time_ms i < next_gc_start_ms s" using Step_wait_due [OF s(1) True assms(2)] by simp
    let ?M1 = "M0\<lparr>mr_state := s\<rparr>"
    have "\<exists>s'. (if \<not> IsStopped i \<and> ShouldOptimizeForMemoryUsage i
        then (case finalized i of None \<Rightarrow> Some ?M1 | Some mc \<Rightarrow> NotifyMarkCompact f ?M1 mc) else Some ?M1) = Some (?M1\<lparr>mr_state := s'\<rparr>) \<and>
        legal f s' \<and> state_id s' = kWait \<and> t_time_ms i < next_gc_start_ms s'"
    proof (cases "(\<not> IsStopped i \<and> ShouldOptimizeForMemoryUsage i) \<and> finalized i \<noteq> None")
      case nested: True
      then obtain mc where mc: "finalized i = Some mc" by blast
      from s(2) True obtain s' where "NotifyMarkCompact f ?M1 mc = Some (?M1\<lparr>mr_state := s'\<rparr>)" "legal f s'" "state_id s' = kWait"
        "next_gc_start_ms s' = mc_time_ms mc + kLongDelayMs" using NotifyMarkCompact_waiting [of f ?M1 mc] by auto
      moreover have "t_time_ms i \<le> mc_time_ms mc" using assms(4) mc by (simp add: timely_def)
      ultimately show ?thesis using nested mc by (intro exI [of _ s']) (simp add: kLongDelayMs_def)
    next
      case False
      then show ?thesis using s(2) True due by (intro exI [of _ s]) (auto split: option.splits)
    qed
    then obtain s' where s': "(if \<not> IsStopped i \<and> ShouldOptimizeForMemoryUsage i
        then (case finalized i of None \<Rightarrow> Some ?M1 | Some mc \<Rightarrow> NotifyMarkCompact f ?M1 mc) else Some ?M1) = Some (?M1\<lparr>mr_state := s'\<rparr>)"
      "legal f s'" "state_id s' = kWait" "t_time_ms i < next_gc_start_ms s'" by blast
    have "TimerTask_RunInternal f M0 i = ScheduleTimer (?M1\<lparr>mr_state := s'\<rparr>) (next_gc_start_ms s' - t_time_ms i)"
      unfolding TimerTask_RunInternal_def NotifyTimer_def using p(2) s(1) True s'(3) M0(1) by (simp add: Let_def s'(1) split del: if_split)
    then show ?thesis using s'(2-4) M0 by (auto simp: ScheduleTimer_def wf_reducer_def)
  next
    case False
    then show ?thesis using p s run M0 unfolding TimerTask_RunInternal_def NotifyTimer_def Let_def by (auto simp: wf_reducer_def)
  qed
  then show ?thesis by (simp only: M0_def)
qed

section \<open>Reachable reducers\<close>

text \<open>
  A timer task runs when one is posted, and only then.  Once the heap tears down, the tasks still posted are cancelled before the
  reducer is torn down.
\<close>

inductive reducer_reach :: "ReducerFlags \<Rightarrow> MemoryReducer \<Rightarrow> bool" for f where
  constructed: "MemoryReducer_new f = Some M \<Longrightarrow> reducer_reach f M"
| timer: "reducer_reach f M \<Longrightarrow> 0 < pending_timers M \<Longrightarrow> timely i \<Longrightarrow>
    TimerTask_RunInternal f (M\<lparr>pending_timers := pending_timers M - 1\<rparr>) i = Some M' \<Longrightarrow> reducer_reach f M'"
| mark_compact: "reducer_reach f M \<Longrightarrow> NotifyMarkCompact f M mc = Some M' \<Longrightarrow> reducer_reach f M'"
| possible_garbage: "reducer_reach f M \<Longrightarrow> NotifyPossibleGarbage f M now = Some M' \<Longrightarrow> reducer_reach f M'"
| heap_tears_down: "reducer_reach f M \<Longrightarrow> reducer_reach f (M\<lparr>tearing_down := True\<rparr>)"
| tasks_cancelled: "reducer_reach f M \<Longrightarrow> tearing_down M \<Longrightarrow> reducer_reach f (M\<lparr>pending_timers := 0\<rparr>)"
| torn_down: "reducer_reach f M \<Longrightarrow> tearing_down M \<Longrightarrow> pending_timers M = 0 \<Longrightarrow> reducer_reach f (TearDown M)"

lemma legal_uninitialized: "memory_reducer f \<Longrightarrow> incremental_marking f \<Longrightarrow> legal f CreateUninitialized"
  by (simp add: legal_def code_defs)

lemma reducer_reach_wf:
  assumes "reducer_reach f M" and "0 < gc_memory_reducer_start_delay_ms f"
  shows "wf_reducer f M"
  using assms(1)
proof induction
  case (constructed M)
  then show ?case using legal_uninitialized by (auto simp: wf_reducer_def MemoryReducer_new_def CreateUninitialized_def split: if_splits)
next
  case (timer M i M')
  then show ?case using TimerTask_ok [OF _ assms(2), of M i] by fastforce
next
  case (mark_compact M mc M')
  then show ?case using NotifyMarkCompact_ok [OF _ assms(2), of M mc] by fastforce
next
  case (possible_garbage M now M')
  then show ?case using NotifyPossibleGarbage_ok [OF _ assms(2), of M now] by fastforce
next
  case (torn_down M)
  then show ?case using legal_uninitialized by (auto simp: wf_reducer_def TearDown_def legal_def CreateUninitialized_def)
qed (auto simp: wf_reducer_def)

lemma start_delay_zero:
  assumes "gc_memory_reducer_start_delay_ms f \<le> 0" and "MemoryReducer_new f = Some M"
  shows "NotifyPossibleGarbage f M now = None"
  using assms by (auto simp: NotifyPossibleGarbage_def MemoryReducer_new_def Step_def code_defs possible_garbage_event_def ScheduleTimer_def Let_def split: if_splits)

section \<open>Coming to rest\<close>

primrec automaton_run :: "ReducerFlags \<Rightarrow> State \<Rightarrow> (nat \<Rightarrow> Event) \<Rightarrow> nat \<Rightarrow> State option" where
  "automaton_run f s ev 0 = Some s"
| "automaton_run f s ev (Suc i) = automaton_run f s ev i \<bind> (\<lambda>s'. Step f s' (ev i))"

lemma automaton_run_legal: "legal f s \<Longrightarrow> \<exists>s'. automaton_run f s ev i = Some s' \<and> legal f s'"
  by (induction i) (use Step_legal in fastforce)+

definition rank :: "State \<Rightarrow> nat" where
  "rank s = (case state_id s of kDone \<Rightarrow> 0 | kWait \<Rightarrow> 2 * (kMaxNumberOfGCs - started_gcs s) + 1 | kRun \<Rightarrow> 2 * (kMaxNumberOfGCs - started_gcs s) + 2)"

definition idle_timer :: "State \<Rightarrow> Event \<Rightarrow> bool" where
  "idle_timer s e \<longleftrightarrow> type e = kTimer \<and> can_start_incremental_gc e \<and> should_start_incremental_gc e \<and> next_gc_start_ms s \<le> time_ms e"

lemma Step_rank:
  assumes "legal f s" and "state_id s \<noteq> kDone" and "Step f s e = Some s'"
  shows "rank s' \<le> rank s"
    and "state_id s = kWait \<Longrightarrow> idle_timer s e \<Longrightarrow> rank s' < rank s"
    and "state_id s = kRun \<Longrightarrow> type e = kMarkCompact \<Longrightarrow> rank s' < rank s"
  using assms
  by (cases "state_id s"; cases "type e"; auto simp: legal_def Step_def code_defs rank_def idle_timer_def split: if_splits)+

lemma rank_parity: "state_id s \<noteq> kDone \<Longrightarrow> rank s = rank s' \<Longrightarrow> state_id s' = state_id s"
  by (cases "state_id s"; cases "state_id s'") (auto simp: rank_def, presburger+)

lemma rests_again:
  assumes step: "\<And>i. Step f (\<sigma> i) (ev i) = Some (\<sigma> (Suc i))" and legal: "\<And>i. legal f (\<sigma> i)"
    and waits: "\<And>i. state_id (\<sigma> i) = kWait \<Longrightarrow> \<exists>j\<ge>i. state_id (\<sigma> j) \<noteq> kWait \<or> idle_timer (\<sigma> j) (ev j)"
    and runs: "\<And>i. state_id (\<sigma> i) = kRun \<Longrightarrow> \<exists>j\<ge>i. type (ev j) = kMarkCompact"
  shows "\<exists>j\<ge>i. state_id (\<sigma> j) = kDone"
proof (induction "rank (\<sigma> i)" arbitrary: i rule: less_induct)
  case less
  show ?case
  proof (rule ccontr)
    assume "\<not> (\<exists>j\<ge>i. state_id (\<sigma> j) = kDone)"
    then have active: "i \<le> j \<Longrightarrow> state_id (\<sigma> j) \<noteq> kDone" for j by blast
    have "i \<le> j \<Longrightarrow> rank (\<sigma> j) \<le> rank (\<sigma> i)" for j
    proof (induction j rule: dec_induct)
      case (step j)
      then show ?case using Step_rank(1) [OF legal active assms(1), of j] by simp
    qed simp
    moreover have "\<not> rank (\<sigma> j) < rank (\<sigma> i)" if "i \<le> j" for j
    proof
      assume "rank (\<sigma> j) < rank (\<sigma> i)"
      from less [OF this] obtain k where "j \<le> k" "state_id (\<sigma> k) = kDone" by blast
      then show False using active [of k] that by simp
    qed
    ultimately have const: "rank (\<sigma> j) = rank (\<sigma> i)" if "i \<le> j" for j using that by (simp add: order.antisym not_less)
    have same: "state_id (\<sigma> j) = state_id (\<sigma> i)" if "i \<le> j" for j
      by (rule rank_parity [OF active [OF order_refl] const [OF that, symmetric]])
    have no_drop: "i \<le> j \<Longrightarrow> \<not> rank (\<sigma> (Suc j)) < rank (\<sigma> j)" for j using const [of j] const [of "Suc j"] by simp
    show False
    proof (cases "state_id (\<sigma> i)")
      case kWait
      from waits [OF kWait] obtain j where j: "i \<le> j" "state_id (\<sigma> j) \<noteq> kWait \<or> idle_timer (\<sigma> j) (ev j)" by blast
      have w: "state_id (\<sigma> j) = kWait" using same [OF j(1)] kWait by simp
      then show False using Step_rank(2) [OF legal active [OF j(1)] step w] no_drop [OF j(1)] j(2) by simp
    next
      case kRun
      from runs [OF kRun] obtain j where j: "i \<le> j" "type (ev j) = kMarkCompact" by blast
      have "state_id (\<sigma> j) = kRun" using same [OF j(1)] kRun by simp
      from Step_rank(3) [OF legal active [OF j(1)] step this j(2)] show False using no_drop [OF j(1)] by simp
    qed (use active [OF order_refl] in simp)
  qed
qed

section \<open>Properties\<close>


definition default_flags :: ReducerFlags where
  "default_flags = \<lparr>memory_reducer = True, incremental_marking = True, memory_reducer_single_gc = False, gc_memory_reducer_start_delay_ms = 8000, scaled_by_factor = (\<lambda>n. n + n div 10)\<rparr>"


text \<open>
  C7: The memory reducer always comes to rest again.  In every run of the automaton, if a waiting reducer is eventually
  left alone with an idle program (a timer that finds the time come, marking possible and the allocation rate low), and a
  collection that was started eventually ends, then from every point on the state \<open>kDone\<close> is reached, however the other events
  are interleaved.
\<close>

theorem memory_reducer_rests:
  assumes "legal f s"
    and "\<And>i s1. automaton_run f s ev i = Some s1 \<Longrightarrow> state_id s1 = kWait \<Longrightarrow>
      \<exists>j\<ge>i. \<exists>s2. automaton_run f s ev j = Some s2 \<and> (state_id s2 \<noteq> kWait \<or> idle_timer s2 (ev j))"
    and "\<And>i s1. automaton_run f s ev i = Some s1 \<Longrightarrow> state_id s1 = kRun \<Longrightarrow> \<exists>j\<ge>i. type (ev j) = kMarkCompact"
  shows "\<exists>j\<ge>i. \<exists>s'. automaton_run f s ev j = Some s' \<and> state_id s' = kDone"
proof -
  from automaton_run_legal [OF assms(1)] obtain \<sigma> where \<sigma>: "\<And>i. automaton_run f s ev i = Some (\<sigma> i)" "\<And>i. legal f (\<sigma> i)" by metis
  have step: "Step f (\<sigma> i) (ev i) = Some (\<sigma> (Suc i))" for i using \<sigma>(1) [of "Suc i"] \<sigma>(1) [of i] by simp
  have waits: "state_id (\<sigma> i) = kWait \<Longrightarrow> \<exists>j\<ge>i. state_id (\<sigma> j) \<noteq> kWait \<or> idle_timer (\<sigma> j) (ev j)" for i
    using assms(2) [OF \<sigma>(1)] \<sigma>(1) by simp
  have runs: "state_id (\<sigma> i) = kRun \<Longrightarrow> \<exists>j\<ge>i. type (ev j) = kMarkCompact" for i by (rule assms(3) [OF \<sigma>(1)])
  have "\<exists>j\<ge>i. state_id (\<sigma> j) = kDone" by (rule rests_again [OF step \<sigma>(2) waits runs])
  then show ?thesis using \<sigma>(1) by auto
qed
text \<open>One activation with two collections: a hint, a timer, a collection that asks for no more, a second timer and collection.\<close>

definition timer_at :: "real \<Rightarrow> Event" where
  "timer_at t = \<lparr>type = kTimer, time_ms = t, committed_memory = 0, next_gc_likely_to_collect_more = False,
     should_start_incremental_gc = True, can_start_incremental_gc = True\<rparr>"

definition collection_at :: "real \<Rightarrow> Event" where
  "collection_at t = mark_compact_event \<lparr>mc_time_ms = t, committed_memory_before = 0, mc_committed_memory = 0, HasHighFragmentation = False\<rparr>"

definition activation_events :: "nat \<Rightarrow> Event" where
  "activation_events i = (if i = 0 then possible_garbage_event 5 else if i = 1 then timer_at 8005 else if i = 2 then collection_at 8100
     else if i = 3 then timer_at 8600 else if i = 4 then collection_at 8700 else timer_at 9000)"

definition activation_states :: "nat \<Rightarrow> State" where
  "activation_states i = (if i = 0 then CreateUninitialized else if i = 1 then CreateWait 0 8005 0 else if i = 2 then CreateRun 1
     else if i = 3 then CreateWait 1 8600 8100 else if i = 4 then CreateRun 2 else CreateDone 8700 0)"

lemma activation_run: "automaton_run default_flags CreateUninitialized activation_events i = Some (activation_states i)"
proof (induction i)
  case (Suc i)
  have "Step default_flags (activation_states i) (activation_events i) = Some (activation_states (Suc i))"
    by (simp add: activation_states_def activation_events_def Step_def code_defs timer_at_def collection_at_def mark_compact_event_def
        possible_garbage_event_def default_flags_def)
  then show ?case using Suc by simp
qed (simp add: activation_states_def)

theorem memory_reducer_rests_witness:
  "\<exists>j\<ge>1. \<exists>s'. automaton_run default_flags CreateUninitialized activation_events j = Some s' \<and> state_id s' = kDone"
proof (rule memory_reducer_rests, goal_cases)
  case 1
  then show ?case by (rule legal_uninitialized) (simp_all add: default_flags_def)
next
  case (2 i s1)
  then show ?case unfolding activation_run
    by (intro exI [of _ i]) (auto simp: activation_states_def activation_events_def code_defs idle_timer_def timer_at_def split: if_splits)
next
  case (3 i s1)
  then show ?case unfolding activation_run
    by (intro exI [of _ i]) (auto simp: activation_states_def activation_events_def code_defs collection_at_def split: if_splits)
qed

end
