(* ===== verification/Spec2Isabelle.thy ===== *)
theory Spec2Isabelle
  imports Value_Serializer BigInt_Builtins_Correct Region_Allocator_Spec Memory_Reducer_Correct
begin

text \<open>
  \<^bold>\<open>A verification development for V8, as packaged by v8-cmake.\<close>

  V8 is a JavaScript and WebAssembly engine.  This development models parts of it that are algorithms and protocols over
  machine words, buffers and small state, from the digit arithmetic of big integers up to the builtins that scripts call,
  and two services of the memory system.  All paths below are relative to \<open>src/v8/src\<close>.

  \<^bold>\<open>How the code is modelled.\<close>  Every operation of the code is a function of the same name.  Code that can fail is option-valued:
  \<open>None\<close> stands for an access outside of a buffer, undefined behaviour, a failed \<open>CHECK\<close> or \<open>DCHECK\<close>, or a path marked
  unreachable.  A pending JavaScript exception is a value \<open>Inl error\<close>.  Memory that was allocated but not yet written is a
  parameter \<open>junk\<close>, and the theorems hold for all of it.  Digits and other machine integers are words of their width or
  natural numbers with the wrap-around written out.  Two C++ references that may name the same memory are modelled with the
  aliasing visible (type \<open>operand\<close> of \<open>Bigint_Vector\<close>).  The configuration is that of a 64-bit little-endian platform with
  the advanced BigInt algorithms compiled in.

  \<^bold>\<open>The theories.\<close>
  \<^item> \<open>V8_Prelude\<close>: checked memory accesses, the counted loops of the sources with their invariant rules, the
    total-correctness statement \<open>ok\<close>, and the collection \<open>code_defs\<close> of constants.
  \<^item> \<open>V8_BitField\<close>: \<open>base/bit-field.h\<close>; fields read back what was stored and do not disturb each other.
  \<^item> \<open>Bigint_Digit\<close>, \<open>Bigint_Div_Digit\<close>: \<open>bigint/digit-arithmetic.h\<close>, the double-digit and the portable variant of every helper,
    proved equal.
  \<^item> \<open>Bigint_Vector\<close>: \<open>bigint/vector-arithmetic.h\<close> and \<open>.cc\<close>, the value of digit vectors, comparison, addition, subtraction.
  \<^item> \<open>Bigint_Bitwise\<close>, \<open>Bigint_Shift\<close>, \<open>Bigint_Truncate\<close>: \<open>bigint/bitwise.cc\<close>, proved to be the operations on unbounded two's
    complement numbers.
  \<^item> \<open>Bigint_Mul\<close>, \<open>Bigint_Karatsuba\<close>, \<open>Bigint_Karatsuba_Length\<close>, \<open>Bigint_Karatsuba_Correct\<close>: \<open>bigint/mul-schoolbook.cc\<close> and
    \<open>bigint/mul-karatsuba.cc\<close>; termination of the recursion, memory safety of the shared scratch buffer, the product.
  \<^item> \<open>Bigint_Divide\<close>, \<open>Bigint_Div_Schoolbook\<close>: \<open>bigint/div-helpers\<close> and \<open>bigint/div-schoolbook.cc\<close>, Knuth's algorithm D.
  \<^item> \<open>Bigint_Processor\<close>, \<open>Bigint_Interrupts\<close>: \<open>bigint/bigint-internal.cc\<close>, the choice of the algorithm, and that an interrupt
    is reported only when the platform asked for one.
  \<^item> \<open>BigInt_Object\<close>, \<open>BigInt_Bits\<close>, \<open>BigInt_Arith\<close>, \<open>BigInt_Convert\<close>: \<open>objects/bigint.cc\<close>, the operators on BigInt objects, their
    errors, and the conversions to machine integers, word arrays and bytes.  The locale \<open>bigint_operation\<close> is the contract of
    a binary operator (either an error in exactly described cases, or the canonical object of the exact value); it is
    interpreted for addition, subtraction, the bitwise operators and the shifts.
  \<^item> \<open>BigInt_Builtins\<close>, \<open>BigInt_Builtins_Correct\<close>: \<open>builtins/builtins-bigint.tq\<close> and the entry points it calls in
    \<open>objects/bigint.cc\<close>.  The locale \<open>torque_macro\<close> extends \<open>bigint_operation\<close> by the Torque macro of the same operator; its
    interpretations give the equivalence of the builtins with the runtime functions.
  \<^item> \<open>Value_Serializer\<close>: the wire layer of \<open>objects/value-serializer.cc\<close>.  The locale \<open>wire_format\<close> is the contract of a writer
    and its reader; it is interpreted for every format, up to whole primitive values.
  \<^item> \<open>Region_Allocator\<close>: \<open>base/region-allocator.cc\<close> with \<open>base/address-region.h\<close>.  \<open>Region_Allocator_Correct\<close> has the invariant
    (\<open>shape\<close>: the regions tile the range; \<open>listed\<close>: the free list; \<open>coalesced\<close>) and the effect of splitting, merging and
    carving.  \<open>Region_Allocator_Operations\<close> and \<open>Region_Allocator_Free\<close> have the allocating operations, trimming and the queries,
    and that the blocks in use determine the whole state.  \<open>Region_Allocator_Spec\<close> has reachability, the contract
    \<open>region_allocation\<close> with its four interpretations, and the properties.
  \<^item> \<open>Memory_Reducer\<close>, \<open>Memory_Reducer_Correct\<close>: \<open>heap/memory-reducer.cc\<close>, the automaton \<open>Step\<close> and the object that drives it with
    timers; reachable states by an inductive relation, boundedness, absence of failing checks, and liveness.

  \<^bold>\<open>How the parts interact.\<close>  The object layer allocates a result, passes digit vectors to the \<open>bigint\<close> library (for
  multiplication and division through the processor of the isolate), and canonicalises what it gets back; the builtins call
  either the object layer or the library directly; the serializer writes the bit field and the digits of BigInt objects.  The
  theorems follow the same layers: the operators are proved from the theorems about vectors, the builtins and the serializer
  from the contracts of the operators and conversions.  The region allocator manages the address ranges of the heap; the
  memory reducer decides when the heap collects.  These two share no state with the rest.

  \<^bold>\<open>Bounds.\<close>  No definition uses fuel: loops are structural or have a termination proof.  Theorems about multiplication and
  division are for operands below the thresholds at which the processor hands over to Toom-Cook (193 digits),
  Burnikel-Ziegler (57 digits) and the algorithms above them, which are parameters (the record \<open>advanced\<close>).  Shift counts
  are those whose digit part fits the 32-bit \<open>int\<close> of the source, which covers every object the engine can allocate.  In the
  region allocator addresses and sizes are below \<open>2 ^ 64\<close>.  In the memory reducer times are real numbers, so that rounding of
  \<open>double\<close> is not covered.

  \<^bold>\<open>Not modelled.\<close>  The parser, interpreter, compilers, garbage collector, object model apart from BigInts, regular expressions,
  WebAssembly, debugger and snapshots work on a heap of tagged objects shared by threads and generated code, and a model of
  one of their functions is only as faithful as a model of that heap.  Of the \<open>bigint\<close> library the fast algorithms above the
  thresholds and the conversion from and to strings are left out; of \<open>objects/bigint.cc\<close> the conversions between BigInts and
  doubles or strings; of the serializer the object graph (identity map, containers, host objects), which needs the heap and the
  embedder's delegate; of the region allocator and the memory reducer printing and tracing.
\<close>

end
